(* ===== verification/Quic_Prelude.thy ===== *)
theory Quic_Prelude
  imports Main "HOL-Library.Word"
begin

unbundle bit_operations_syntax

text \<open>
  Shared vocabulary of the development: the machine types of the C sources
  as fixed-width words, big-endian memory images, and the generic lemmas on
  words, lists and options that the component theories rely on.
\<close>

type_synonym u8 = "8 word"
type_synonym u16 = "16 word"
type_synonym u32 = "32 word"
type_synonym u64 = "64 word"
type_synonym bytes = "u8 list"

text \<open>\<^verbatim>\<open>lsquic_packno_t\<close> and \<^verbatim>\<open>lsquic_time_t\<close> are both \<^verbatim>\<open>uint64_t\<close>.\<close>

type_synonym packno = u64
type_synonym qtime = u64

section \<open>Big-endian memory images\<close>

text \<open>
  \<open>be_bytes n v\<close> is the last \<open>n\<close> bytes of the big-endian image of \<open>v\<close>;
  \<open>be_read bs\<close> is the integer read back from such an image.  They stand for the
  \<^verbatim>\<open>memcpy\<close> and \<^verbatim>\<open>bswap_64\<close> pairs of the sources, whose two byte-order branches
  have the same effect.
\<close>

definition be_bytes :: "nat \<Rightarrow> u64 \<Rightarrow> bytes" where
  "be_bytes n v = map (\<lambda>k. ucast (drop_bit (8 * k) v)) (rev [0..<n])"

definition be_read :: "bytes \<Rightarrow> u64" where
  "be_read bs = foldl (\<lambda>w b. push_bit 8 w OR ucast b) 0 bs"

lemma length_be_bytes [simp]: "length (be_bytes n v) = n"
  by (simp add: be_bytes_def)

lemma be_bytes_0 [simp]: "be_bytes 0 v = []"
  by (simp add: be_bytes_def)

lemma be_bytes_Suc: "be_bytes (Suc n) v = ucast (drop_bit (8 * n) v) # be_bytes n v"
  by (simp add: be_bytes_def)

lemma drop_be_bytes: "m \<le> n \<Longrightarrow> drop (n - m) (be_bytes n v) = be_bytes m v"
  by (auto simp: be_bytes_def drop_map rev_drop rev_take take_upt drop_rev)

lemma be_read_snoc: "be_read (bs @ [b]) = push_bit 8 (be_read bs) OR ucast b"
  by (simp add: be_read_def)

lemma be_read_acc:
  "foldl (\<lambda>w b. push_bit 8 w OR ucast b) acc bs = push_bit (8 * length bs) acc OR be_read bs"
proof (induction bs arbitrary: acc rule: rev_induct)
  case Nil
  then show ?case by (simp add: be_read_def)
next
  case (snoc b bs)
  show ?case by (simp add: snoc be_read_snoc push_bit_or or.assoc add.commute)
qed

lemma be_read_Nil [simp]: "be_read [] = 0"
  by (simp add: be_read_def)

lemma be_read_Cons: "be_read (b # bs) = push_bit (8 * length bs) (ucast b) OR be_read bs"
  using be_read_acc [of "ucast b" bs] by (simp add: be_read_def)

lemma be_read_append: "be_read (xs @ ys) = push_bit (8 * length ys) (be_read xs) OR be_read ys"
  using be_read_acc [of "be_read xs" ys] by (simp add: be_read_def)

lemma be_read_be_bytes: "be_read (be_bytes n v) = take_bit (8 * n) v"
proof (induction n)
  case 0
  then show ?case by simp
next
  case (Suc n)
  have "push_bit (8 * n) (ucast (ucast (drop_bit (8 * n) v) :: u8)) OR take_bit (8 * n) v
      = take_bit (8 * Suc n) v"
    by (rule bit_word_eqI) (auto simp: bit_simps)
  then show ?case by (simp add: be_bytes_Suc be_read_Cons Suc)
qed

lemma bit_be_read_bound: "bit (be_read bs) n \<Longrightarrow> n < 8 * length bs"
proof (induction bs)
  case Nil
  then show ?case by simp
next
  case (Cons b bs)
  from Cons.prems consider "8 * length bs \<le> n" "bit b (n - 8 * length bs)" | "bit (be_read bs) n"
    by (auto simp: be_read_Cons bit_simps)
  then show ?case
  proof cases
    case 1
    then show ?thesis using bit_imp_le_length [OF 1(2)] by simp
  next
    case 2
    then show ?thesis using Cons.IH by simp
  qed
qed

section \<open>Words\<close>

lemma unat_lt_exp: "LENGTH('a) \<le> n \<Longrightarrow> unat (w :: 'a::len word) < 2 ^ n"
  by (rule less_le_trans [OF unsigned_less]) simp

lemma take_bit_small:
  assumes "unat (w :: 'a::len word) < 2 ^ k"
  shows "take_bit k w = w"
proof -
  have "unat (take_bit k w) = unat w"
    using assms by (simp add: unsigned_take_bit_eq take_bit_nat_eq_self)
  then show ?thesis by (simp add: word_unat_eq_iff)
qed

lemma bit_lt_pow: "unat (w :: 'a::len word) < 2 ^ k \<Longrightarrow> bit w n \<Longrightarrow> n < k"
  by (metis bit_take_bit_iff take_bit_small)

lemma unat_ucast_up:
  "LENGTH('a) \<le> LENGTH('b) \<Longrightarrow> unat (ucast (w :: 'a::len word) :: 'b::len word) = unat w"
  by (simp add: unsigned_ucast_eq take_bit_nat_eq_self unat_lt_exp)

lemma drop_bit_small: "unat (w :: 'a::len word) < 2 ^ k \<Longrightarrow> drop_bit k w = 0"
  by (metis drop_bit_take_bit diff_self_eq_0 take_bit_0 take_bit_small)

lemma take_bit_tagged:
  "unat (val :: 'a::len word) < 2 ^ s \<Longrightarrow> take_bit s (val OR push_bit s b) = val"
  by (simp add: take_bit_or take_bit_push_bit take_bit_small)

lemma drop_bit_tagged:
  assumes "unat (val :: 'a::len word) < 2 ^ s" "s + k \<le> LENGTH('a)"
  shows "take_bit k (drop_bit s (val OR push_bit s b)) = take_bit k b"
proof -
  have "take_bit k (drop_bit s (push_bit s b)) = take_bit k b"
    using assms(2) by (intro bit_word_eqI) (auto simp: bit_simps)
  then show ?thesis using assms(1) by (simp add: drop_bit_or drop_bit_small)
qed

end
