(* ===== verification/Varint.thy ===== *)
theory Varint
  imports Quic_Prelude
begin

text \<open>
  The IETF QUIC variable-length integers of \<^verbatim>\<open>lsquic_varint.c\<close> and
  \<^verbatim>\<open>lsquic_varint.h\<close>: the size computation and the writer (macros), the one-shot
  reader, the resumable reader and the resumable reader of a pair.  A pointer
  range \<^verbatim>\<open>p .. end\<close> is the list of the bytes it delimits, so that \<^verbatim>\<open>p >= end\<close> is
  emptiness and \<^verbatim>\<open>p += n\<close> is \<^const>\<open>drop\<close>.
\<close>

section \<open>Definitions\<close>

definition VINT_MASK :: u8 where
  "VINT_MASK = push_bit 6 1 - 1"

definition vint_val2bits :: "u64 \<Rightarrow> nat" where
  "vint_val2bits val =
     of_bool (val \<ge> push_bit 6 1) + of_bool (val \<ge> push_bit 14 1) + of_bool (val \<ge> push_bit 30 1)"

definition vint_size :: "u64 \<Rightarrow> nat" where
  "vint_size val = 2 ^ vint_val2bits val"

definition VINT_MAX_VALUE :: u64 where
  "VINT_MAX_VALUE = push_bit 62 1 - 1"

definition vint_bits2shift :: "nat \<Rightarrow> nat" where
  "vint_bits2shift bits = 2 ^ (3 + bits) - 2"

definition VINT_MAX_B :: "nat \<Rightarrow> u64" where
  "VINT_MAX_B bits = push_bit (vint_bits2shift bits) 1 - 1"

text \<open>Both byte-order branches of the macro leave the big-endian image of the tagged value.\<close>

definition vint_write :: "u64 \<Rightarrow> nat \<Rightarrow> nat \<Rightarrow> bytes" where
  "vint_write val bits len =
     (let buf = val OR push_bit (vint_bits2shift bits) (of_nat bits)
      in drop (8 - len) (be_bytes 8 buf))"

text \<open>
  The one-shot reader returns the number of bytes read and the value, or
  \<^const>\<open>None\<close> where the C function returns \<^verbatim>\<open>-1\<close>.  The shifts of the two- and
  four-byte cases are done on \<^verbatim>\<open>int\<close> in C and stay below \<open>2 ^ 30\<close>.
\<close>

definition lsquic_varint_read :: "bytes \<Rightarrow> (nat \<times> u64) option" where
  "lsquic_varint_read p =
     (if p = [] then None
      else let tag = unat (drop_bit 6 (p ! 0)) in
        if tag = 0 then Some (1, ucast (p ! 0))
        else if tag = 1 then
          (if length p \<le> 1 then None
           else Some (2, push_bit 8 (ucast (p ! 0 AND VINT_MASK)) OR ucast (p ! 1)))
        else if tag = 2 then
          (if length p \<le> 3 then None
           else Some (4, push_bit 24 (ucast (p ! 0 AND VINT_MASK)) OR push_bit 16 (ucast (p ! 1))
                         OR push_bit 8 (ucast (p ! 2)) OR ucast (p ! 3)))
        else
          (if length p \<le> 7 then None
           else Some (8, be_read (take 8 p) AND (push_bit 62 1 - 1))))"

text \<open>The state of the resumable reader; \<^verbatim>\<open>pos\<close> names the \<^verbatim>\<open>case\<close> label to resume at.\<close>

record varint_read_state =
  vrs_val :: u64
  vrs_pos :: nat

text \<open>What a resumable reader returns, with the advanced pointer and the updated state.\<close>

datatype 's nb_result =
    NB_DONE bytes 's    \<comment> \<open>return 0\<close>
  | NB_MORE bytes 's    \<comment> \<open>return -1: more input is needed\<close>
  | NB_ASSERT           \<comment> \<open>assert(0)\<close>

definition nb_shift :: "nat \<Rightarrow> nat" where
  "nb_shift pos =
     (if pos = 1000 then 0
      else if pos \<le> 1003 then 8 * (1003 - pos)
      else 8 * (1010 - pos))"

definition nb_last :: "nat \<Rightarrow> bool" where
  "nb_last pos \<longleftrightarrow> pos = 1000 \<or> pos = 1003 \<or> pos = 1010"

text \<open>The labels 1000 to 1010: take one byte, and fall through to the next label if there is one.\<close>

fun nb_resume :: "nat \<Rightarrow> bytes \<Rightarrow> varint_read_state \<Rightarrow> varint_read_state nb_result" where
  "nb_resume pos [] st = NB_MORE [] (st\<lparr>vrs_pos := pos\<rparr>)"
| "nb_resume pos (b # p) st =
     (let st' = st\<lparr>vrs_val := vrs_val st OR push_bit (nb_shift pos) (ucast b)\<rparr>
      in if nb_last pos then NB_DONE p st'
         else nb_resume (Suc pos) p st')"

definition lsquic_varint_read_nb :: "bytes \<Rightarrow> varint_read_state \<Rightarrow> varint_read_state nb_result" where
  "lsquic_varint_read_nb p st =
     (if p = [] then NB_MORE p st
      else let sel = (if vrs_pos st \<noteq> 0 then vrs_pos st else unat (drop_bit 6 (p ! 0))) in
        if sel = 0 then NB_DONE (tl p) (st\<lparr>vrs_val := ucast (p ! 0)\<rparr>)
        else if sel = 1 then
          nb_resume 1000 (tl p) (st\<lparr>vrs_val := push_bit 8 (ucast (p ! 0 AND VINT_MASK))\<rparr>)
        else if sel = 2 then
          (if length p > 3
           then NB_DONE (drop 4 p)
                  (st\<lparr>vrs_val := push_bit 24 (ucast (p ! 0 AND VINT_MASK))
                       OR push_bit 16 (ucast (p ! 1)) OR push_bit 8 (ucast (p ! 2)) OR ucast (p ! 3)\<rparr>)
           else nb_resume 1001 (tl p) (st\<lparr>vrs_val := push_bit 24 (ucast (p ! 0 AND VINT_MASK))\<rparr>))
        else if sel = 3 then
          (if length p > 7
           then NB_DONE (drop 8 p) (st\<lparr>vrs_val := be_read (take 8 p) AND (push_bit 62 1 - 1)\<rparr>)
           else nb_resume 1004 (tl p) (st\<lparr>vrs_val := push_bit 56 (ucast (p ! 0 AND VINT_MASK))\<rparr>))
        else if 1000 \<le> sel \<and> sel \<le> 1010 then nb_resume sel p st
        else NB_ASSERT)"

datatype vr2s_state = VR2S_READ_ONE_BEGIN | VR2S_READ_ONE_CONTINUE | VR2S_READ_TWO_BEGIN
  | VR2S_READ_TWO_CONTINUE

record varint_read2_state =
  vr2s_one :: u64
  vr2s_varint_state :: varint_read_state
  vr2s_st :: vr2s_state

text \<open>The \<^verbatim>\<open>BEGIN\<close> cases reset the position and jump to \<^verbatim>\<open>cont\<close>.\<close>

definition vr2_enter :: "varint_read2_state \<Rightarrow> varint_read2_state" where
  "vr2_enter s =
     (case vr2s_st s of
        VR2S_READ_ONE_BEGIN \<Rightarrow>
          s\<lparr>vr2s_varint_state := (vr2s_varint_state s)\<lparr>vrs_pos := 0\<rparr>, vr2s_st := VR2S_READ_ONE_CONTINUE\<rparr>
      | VR2S_READ_TWO_BEGIN \<Rightarrow>
          s\<lparr>vr2s_varint_state := (vr2s_varint_state s)\<lparr>vrs_pos := 0\<rparr>, vr2s_st := VR2S_READ_TWO_CONTINUE\<rparr>
      | _ \<Rightarrow> s)"

lemma nb_resume_shorter:
  "nb_resume pos p st = NB_DONE q st' \<Longrightarrow> length q < length p"
  by (induction pos p st rule: nb_resume.induct) (force simp: Let_def split: if_splits)+

lemma lsquic_varint_read_nb_shorter:
  "lsquic_varint_read_nb p st = NB_DONE q st' \<Longrightarrow> length q < length p"
  by (cases p) (auto simp: lsquic_varint_read_nb_def Let_def dest: nb_resume_shorter split: if_splits)

function lsquic_varint_read_two :: "bytes \<Rightarrow> varint_read2_state \<Rightarrow> varint_read2_state nb_result" where
  "lsquic_varint_read_two p s =
     (if p = [] then NB_MORE p s
      else let s1 = vr2_enter s in
        case lsquic_varint_read_nb p (vr2s_varint_state s1) of
          NB_DONE q vst \<Rightarrow>
            (let s2 = s1\<lparr>vr2s_varint_state := vst\<rparr> in
             if vr2s_st s2 = VR2S_READ_TWO_CONTINUE then NB_DONE q s2
             else lsquic_varint_read_two q
                    (s2\<lparr>vr2s_one := vrs_val vst, vr2s_st := VR2S_READ_TWO_BEGIN\<rparr>))
        | NB_MORE q vst \<Rightarrow> NB_MORE q (s1\<lparr>vr2s_varint_state := vst\<rparr>)
        | NB_ASSERT \<Rightarrow> NB_ASSERT)"
  by pat_completeness auto
termination
  by (relation "measure (\<lambda>(p, s). length p)") (auto dest: lsquic_varint_read_nb_shorter)

declare lsquic_varint_read_two.simps [simp del]

text \<open>
  Reading two integers one after the other with the one-shot reader, the
  reference for the resumable pair reader.
\<close>

definition read_pair :: "bytes \<Rightarrow> (nat \<times> u64 \<times> u64) option" where
  "read_pair p =
     (case lsquic_varint_read p of
        None \<Rightarrow> None
      | Some (n, a) \<Rightarrow>
          (case lsquic_varint_read (drop n p) of
             None \<Rightarrow> None
           | Some (m, b) \<Rightarrow> Some (n + m, a, b)))"

section \<open>Sizes\<close>

lemma vint_bits2shift_simps [simp]:
  "vint_bits2shift 0 = 6" "vint_bits2shift (Suc 0) = 14" "vint_bits2shift 2 = 30"
  "vint_bits2shift 3 = 62"
  by (simp_all add: vint_bits2shift_def)

lemma VINT_MASK_eq: "VINT_MASK = mask 6"
  by (simp add: VINT_MASK_def mask_eq_exp_minus_1)

lemma vint_val2bits_le [simp]: "vint_val2bits val \<le> 3"
  by (simp add: vint_val2bits_def)

lemma vint_val2bits_nat:
  "vint_val2bits val = (if unat val < 2 ^ 6 then 0 else if unat val < 2 ^ 14 then 1
                        else if unat val < 2 ^ 30 then 2 else 3)"
  by (auto simp: vint_val2bits_def word_le_nat_alt)

lemma vint_size_cases: "vint_size val = 1 \<or> vint_size val = 2 \<or> vint_size val = 4 \<or> vint_size val = 8"
  by (simp add: vint_size_def vint_val2bits_nat)

text \<open>The chosen size always fits the value.\<close>

lemma vint_val2bits_fits:
  "unat val < 2 ^ 62 \<Longrightarrow> unat val < 2 ^ vint_bits2shift (vint_val2bits val)"
  by (auto simp: vint_val2bits_nat)

lemma length_vint_write [simp]: "len \<le> 8 \<Longrightarrow> length (vint_write val bits len) = len"
  by (simp add: vint_write_def Let_def)

lemma vint_write_be:
  "len \<le> 8 \<Longrightarrow>
     vint_write val bits len = be_bytes len (val OR push_bit (vint_bits2shift bits) (of_nat bits))"
  using drop_be_bytes [of len 8] by (simp add: vint_write_def Let_def)

section \<open>The one-shot reader\<close>

text \<open>How many bytes the first byte announces.\<close>

definition vint_announced :: "u8 \<Rightarrow> nat" where
  "vint_announced b = 2 ^ unat (drop_bit 6 b)"

lemma vint_tag_cases:
  "unat (drop_bit 6 (b :: u8)) = 0 \<or> unat (drop_bit 6 b) = 1 \<or> unat (drop_bit 6 b) = 2
     \<or> unat (drop_bit 6 b) = 3"
proof -
  have "unat (drop_bit 6 b) = unat b div 64" by (simp add: unat_div drop_bit_eq_div)
  moreover have "unat b < 256" using unsigned_less [of b] by simp
  ultimately have "unat (drop_bit 6 b) < 4" by (simp add: div_less_iff_less_mult)
  then show ?thesis by linarith
qed

lemma push_masked: "push_bit k (ucast (b AND VINT_MASK)) = take_bit (k + 6) (push_bit k (ucast (b :: u8))) "
  for k :: nat
  by (rule bit_word_eqI) (auto simp: bit_simps VINT_MASK_eq)

lemma take_push_byte:
  "j + 8 \<le> k \<Longrightarrow> take_bit k (push_bit j (ucast (b :: u8))) = (push_bit j (ucast b) :: u64)"
  by (rule bit_word_eqI) (auto simp: bit_simps dest: bit_imp_le_length)

lemma take_byte: "8 \<le> k \<Longrightarrow> take_bit k (ucast (b :: u8)) = (ucast b :: u64)"
  using take_push_byte [of 0 k b] by simp

lemma small_byte: "unat (drop_bit 6 (b :: u8)) = 0 \<Longrightarrow> take_bit 6 (ucast b) = (ucast b :: u64)"
  by (rule take_bit_small) (simp add: unat_div drop_bit_eq_div unat_ucast_up div_eq_0_iff)

lemma lsquic_varint_read_Nil [simp]: "lsquic_varint_read [] = None"
  by (simp add: lsquic_varint_read_def)

lemma take_numeral_Cons: "take (numeral n) (x # xs) = x # take (numeral n - 1) xs"
  by (simp add: take_Cons')

theorem lsquic_varint_read_Cons:
  "lsquic_varint_read (b # p) =
     (let n = vint_announced b
      in if n \<le> Suc (length p) then Some (n, take_bit (8 * n - 2) (be_read (take n (b # p)))) else None)"
proof -
  have m62: "x AND 4611686018427387903 = take_bit 62 x" for x :: u64
    by (simp add: take_bit_eq_mask mask_eq_exp_minus_1)
  have two: "take (Suc 0) p = [p ! 0]" if "p \<noteq> []"
    using that by (cases p) simp_all
  have four: "take 3 p = [p ! 0, p ! 1, p ! 2]" if "3 \<le> length p"
    using that by (auto simp: take_Cons' numeral_eq_Suc Suc_le_length_iff)
  note defs = lsquic_varint_read_def vint_announced_def Let_def
  consider "unat (drop_bit 6 b) = 0" | "unat (drop_bit 6 b) = 1" | "unat (drop_bit 6 b) = 2"
    | "unat (drop_bit 6 b) = 3"
    using vint_tag_cases [of b] by metis
  then show ?thesis
  proof cases
    case 1
    then show ?thesis by (simp add: defs be_read_Cons small_byte)
  next
    case 2
    then show ?thesis
      by (auto simp: defs two be_read_Cons push_masked take_bit_or take_byte Suc_le_eq)
  next
    case 3
    then show ?thesis
      by (auto simp: defs four be_read_Cons push_masked take_bit_or take_push_byte take_byte)
  next
    case 4
    then show ?thesis by (auto simp: defs m62)
  qed
qed

lemma vint_bits2shift_eq: "bits \<le> 3 \<Longrightarrow> vint_bits2shift bits = 8 * 2 ^ bits - 2"
  by (simp add: vint_bits2shift_def power_add)

lemma top_byte_tag:
  "drop_bit 6 (ucast (drop_bit k (w :: u64)) :: u8) = ucast (take_bit 2 (drop_bit (k + 6) w))"
  by (rule bit_word_eqI) (auto simp: bit_simps add.assoc)

text \<open>Writing in any announced width that fits, then reading, gives the value back.\<close>

theorem varint_read_write:
  assumes bits: "bits \<le> 3" and val: "unat val < 2 ^ vint_bits2shift bits"
  shows "lsquic_varint_read (vint_write val bits (2 ^ bits) @ rest) = Some (2 ^ bits, val)"
proof -
  define w :: u64 where "w = val OR push_bit (vint_bits2shift bits) (of_nat bits)"
  obtain m where m: "(2::nat) ^ bits = Suc m"
    by (metis gr0_implies_Suc zero_less_numeral zero_less_power)
  have n8: "(2::nat) ^ bits \<le> 8"
    using power_increasing [OF bits, of "2::nat"] by simp
  have s: "vint_bits2shift bits = 8 * m + 6"
    using vint_bits2shift_eq [OF bits] m by simp
  have low: "take_bit (8 * m + 6) w = val"
    using val unfolding w_def s by (rule take_bit_tagged)
  have "take_bit 2 (drop_bit (8 * m + 6) w) = take_bit 2 (of_nat bits)"
    using val n8 m unfolding w_def s by (intro drop_bit_tagged) simp_all
  also have "\<dots> = (of_nat bits :: u64)"
    using bits by (intro take_bit_small) (simp add: unat_of_nat)
  finally have top: "drop_bit 6 (ucast (drop_bit (8 * m) w) :: u8) = of_nat bits"
    using bits by (simp add: top_byte_tag unsigned_of_nat take_bit_nat_eq_self)
  have "vint_announced (ucast (drop_bit (8 * m) w)) = 2 ^ bits"
    unfolding vint_announced_def top using bits by (simp add: unat_of_nat)
  moreover have "take_bit (8 * Suc m - 2) (be_read (be_bytes (Suc m) w)) = val"
    using low by (simp add: be_read_be_bytes take_bit_take_bit add.commute)
  ultimately show ?thesis
    using n8 by (simp add: vint_write_be m be_bytes_Suc lsquic_varint_read_Cons Let_def flip: w_def)
qed

lemma vint_announced_pos [simp]: "0 < vint_announced b" "vint_announced b \<noteq> 0"
  by (simp_all add: vint_announced_def)

lemma lsquic_varint_read_len:
  "lsquic_varint_read p = Some (n, v) \<Longrightarrow> 0 < n \<and> n \<le> length p"
  by (cases p) (auto simp: lsquic_varint_read_Cons Let_def split: if_splits)

lemma take_Cons_append: "n \<le> Suc (length p) \<Longrightarrow> take n (b # p @ q) = take n (b # p)"
  by (cases n) simp_all

lemma lsquic_varint_read_append:
  "lsquic_varint_read p = Some (n, v) \<Longrightarrow> lsquic_varint_read (p @ q) = Some (n, v)"
  by (cases p) (auto simp: lsquic_varint_read_Cons Let_def take_Cons_append split: if_splits)

section \<open>Resumable readers\<close>

text \<open>
  The contract of a resumable reader: \<open>whole\<close> is the reader of the complete input,
  \<open>step\<close> the resumable one, \<open>seen pre st\<close> says that \<open>st\<close> is a state in which the
  input \<open>pre\<close> has been taken in and is not complete yet.  Whatever way the input
  is cut, feeding the pieces to \<open>step\<close> gives the result of \<open>whole\<close>.
\<close>

fun feed :: "(bytes \<Rightarrow> 's \<Rightarrow> 's nb_result) \<Rightarrow> 's \<Rightarrow> bytes list \<Rightarrow> 's nb_result" where
  "feed step st [] = NB_MORE [] st"
| "feed step st (c # cs) =
     (case step c st of
        NB_DONE q st' \<Rightarrow> NB_DONE (q @ concat cs) st'
      | NB_MORE q st' \<Rightarrow> feed step st' cs
      | NB_ASSERT \<Rightarrow> NB_ASSERT)"

locale resumable_reader =
  fixes whole :: "bytes \<Rightarrow> (nat \<times> 'v) option"
    and step :: "bytes \<Rightarrow> 's \<Rightarrow> 's nb_result"
    and seen :: "bytes \<Rightarrow> 's \<Rightarrow> bool"
    and result :: "'s \<Rightarrow> 'v"
  assumes whole_len: "whole p = Some (n, v) \<Longrightarrow> n \<le> length p"
    and whole_append: "whole p = Some (n, v) \<Longrightarrow> whole (p @ q) = Some (n, v)"
    and seen_incomplete: "seen pre st \<Longrightarrow> whole pre = None"
    and step_done: "seen pre st \<Longrightarrow> whole (pre @ p) = Some (n, v) \<Longrightarrow>
      \<exists>st'. step p st = NB_DONE (drop n (pre @ p)) st' \<and> result st' = v"
    and step_more: "seen pre st \<Longrightarrow> whole (pre @ p) = None \<Longrightarrow>
      \<exists>st'. step p st = NB_MORE [] st' \<and> seen (pre @ p) st'"
begin

lemma feed_done:
  "seen pre st \<Longrightarrow> whole (pre @ concat cs) = Some (n, v) \<Longrightarrow>
     \<exists>st'. feed step st cs = NB_DONE (drop n (pre @ concat cs)) st' \<and> result st' = v"
proof (induction cs arbitrary: pre st)
  case Nil
  then show ?case using seen_incomplete by simp
next
  case (Cons c cs)
  show ?case
  proof (cases "whole (pre @ c)")
    case None
    with Cons.prems(1) obtain st' where st': "step c st = NB_MORE [] st'" "seen (pre @ c) st'"
      using step_more by blast
    with Cons.IH [of "pre @ c" st'] Cons.prems(2) show ?thesis by simp
  next
    case (Some r)
    then obtain m u where r: "whole (pre @ c) = Some (m, u)" by (cases r) simp
    with whole_append [OF r, of "concat cs"] Cons.prems(2) have "m = n" "u = v" by simp_all
    with r step_done [OF Cons.prems(1) r] whole_len [OF r] show ?thesis by auto
  qed
qed

lemma feed_more:
  "seen pre st \<Longrightarrow> whole (pre @ concat cs) = None \<Longrightarrow>
     \<exists>st'. feed step st cs = NB_MORE [] st' \<and> seen (pre @ concat cs) st'"
proof (induction cs arbitrary: pre st)
  case Nil
  then show ?case by simp
next
  case (Cons c cs)
  have "whole (pre @ c) = None"
    using whole_append [of "pre @ c" _ _ "concat cs"] Cons.prems(2) by (cases "whole (pre @ c)") auto
  with Cons.prems(1) obtain st' where st': "step c st = NB_MORE [] st'" "seen (pre @ c) st'"
    using step_more by blast
  with Cons.IH [of "pre @ c" st'] Cons.prems(2) show ?case by simp
qed

end

section \<open>The resumable reader of one integer\<close>

definition nb_left :: "nat \<Rightarrow> nat" where
  "nb_left pos = (if pos = 1000 then 1 else if pos \<le> 1003 then 1004 - pos else 1011 - pos)"

lemma nb_resume_spec:
  assumes "1000 \<le> pos" "pos \<le> 1010"
  shows "nb_resume pos p st =
     (if nb_left pos \<le> length p
      then NB_DONE (drop (nb_left pos) p)
             (st\<lparr>vrs_val := vrs_val st OR be_read (take (nb_left pos) p)\<rparr>)
      else NB_MORE [] (st\<lparr>vrs_val := vrs_val st OR push_bit (8 * (nb_left pos - length p)) (be_read p),
                          vrs_pos := pos + length p\<rparr>))"
  using assms
proof (induction pos p st rule: nb_resume.induct)
  case (1 pos st)
  then show ?case by (auto simp: nb_left_def)
next
  case (2 pos b p st)
  have shift: "nb_shift pos = 8 * (nb_left pos - 1)"
    using "2.prems" by (auto simp: nb_shift_def nb_left_def)
  have last: "nb_last pos \<longleftrightarrow> nb_left pos = 1"
    using "2.prems" by (auto simp: nb_last_def nb_left_def)
  show ?case
  proof (cases "nb_last pos")
    case True
    then show ?thesis using last by (simp add: shift be_read_Cons)
  next
    case False
    then have suc: "nb_left pos = Suc (nb_left (Suc pos))" "Suc pos \<le> 1010"
      using "2.prems" by (auto simp: nb_last_def nb_left_def)
    show ?thesis
      using "2.IH" [OF refl False] "2.prems" suc False
      by (auto simp: Let_def shift be_read_Cons or.assoc push_bit_or algebra_simps min_def)
  qed
qed

lemma take_push_be_read:
  "j + 8 * length q \<le> k \<Longrightarrow> take_bit k (push_bit j (be_read q)) = push_bit j (be_read q)"
  by (rule bit_word_eqI) (auto simp: bit_simps dest: bit_be_read_bound)

lemma take_be_read: "8 * length q \<le> k \<Longrightarrow> take_bit k (be_read q) = be_read q"
  using take_push_be_read [of 0 q k] by simp

text \<open>The label at which the tail of an \<open>n\<close>-byte integer starts.\<close>

definition nb_base :: "nat \<Rightarrow> nat" where
  "nb_base n = (if n = 2 then 1000 else if n = 4 then 1001 else 1004)"

lemma vint_announced_cases:
  obtains "vint_announced b = 1" "unat (drop_bit 6 b) = 0"
    | "vint_announced b = 2" "unat (drop_bit 6 b) = 1"
    | "vint_announced b = 4" "unat (drop_bit 6 b) = 2"
    | "vint_announced b = 8" "unat (drop_bit 6 b) = 3"
  using vint_tag_cases [of b] unfolding vint_announced_def by fastforce

lemma read_nb_fresh:
  assumes "vrs_pos st = 0"
  shows "lsquic_varint_read_nb (b # q) st =
     (let n = vint_announced b
      in if n \<le> Suc (length q)
         then NB_DONE (drop n (b # q)) (st\<lparr>vrs_val := take_bit (8 * n - 2) (be_read (take n (b # q)))\<rparr>)
         else NB_MORE []
           (st\<lparr>vrs_val := take_bit (8 * n - 2) (push_bit (8 * (n - Suc (length q))) (be_read (b # q))),
              vrs_pos := nb_base n + length q\<rparr>))"
proof -
  have m62: "x AND 4611686018427387903 = take_bit 62 x" for x :: u64
    by (simp add: take_bit_eq_mask mask_eq_exp_minus_1)
  have three: "take 3 q = [q ! 0, q ! 1, q ! 2]" if "3 \<le> length q"
    using that by (auto simp: take_Cons' numeral_eq_Suc Suc_le_length_iff)
  have sum: "8 * (k - length q) + 8 * length q = 8 * k" if "\<not> k \<le> length q" for k
    using that by simp
  note defs = lsquic_varint_read_nb_def Let_def assms
  show ?thesis
  proof (cases b rule: vint_announced_cases)
    case 1
    then show ?thesis by (simp add: defs be_read_Cons small_byte)
  next
    case 2
    then show ?thesis
      by (auto simp: defs nb_resume_spec nb_left_def nb_base_def be_read_Cons push_masked
          take_bit_or take_be_read push_bit_or take_push_be_read sum)
  next
    case 3
    then show ?thesis
      by (auto simp: defs nb_resume_spec nb_left_def nb_base_def be_read_Cons push_masked
          take_bit_or take_push_byte take_byte three push_bit_or take_push_be_read sum)
  next
    case 4
    then show ?thesis
      by (auto simp: defs nb_resume_spec nb_left_def nb_base_def be_read_Cons push_masked
          take_bit_or push_bit_or take_push_be_read m62 sum)
  qed
qed

text \<open>The states of the resumable reader in which the prefix \<open>pre\<close> has been taken in.\<close>

definition nb_seen :: "bytes \<Rightarrow> varint_read_state \<Rightarrow> bool" where
  "nb_seen pre st \<longleftrightarrow>
     (if pre = [] then vrs_pos st = 0
      else let n = vint_announced (hd pre) in
        length pre < n \<and> vrs_pos st = nb_base n + (length pre - 1) \<and>
        vrs_val st = take_bit (8 * n - 2) (push_bit (8 * (n - length pre)) (be_read pre)))"

lemma nb_seen_Nil [simp]: "nb_seen [] st \<longleftrightarrow> vrs_pos st = 0"
  by (simp add: nb_seen_def)

lemma read_nb_resumed:
  assumes seen: "nb_seen pre st" and pre: "pre \<noteq> []" and p: "p \<noteq> []"
  shows "lsquic_varint_read_nb p st =
     (let n = vint_announced (hd pre) in
      if n \<le> length pre + length p
      then NB_DONE (drop (n - length pre) p)
             (st\<lparr>vrs_val := take_bit (8 * n - 2) (be_read (pre @ take (n - length pre) p))\<rparr>)
      else NB_MORE []
             (st\<lparr>vrs_val := take_bit (8 * n - 2)
                  (push_bit (8 * (n - length (pre @ p))) (be_read (pre @ p))),
                vrs_pos := nb_base n + (length (pre @ p) - 1)\<rparr>))"
proof -
  let ?n = "vint_announced (hd pre)"
  from seen pre have len: "length pre < ?n" and pos: "vrs_pos st = nb_base ?n + (length pre - 1)"
    and val: "vrs_val st = take_bit (8 * ?n - 2) (push_bit (8 * (?n - length pre)) (be_read pre))"
    by (simp_all add: nb_seen_def Let_def)
  from pre have l1: "1 \<le> length pre" by (simp add: Suc_le_eq)
  have n: "?n = 2 \<or> ?n = 4 \<or> ?n = 8"
    by (rule vint_announced_cases [of "hd pre"]) (use len l1 in auto)
  have range: "1000 \<le> vrs_pos st" "vrs_pos st \<le> 1010" and left: "nb_left (vrs_pos st) = ?n - length pre"
    using n len l1 by (auto simp: pos nb_base_def nb_left_def)
  have step: "lsquic_varint_read_nb p st = nb_resume (vrs_pos st) p st"
    using p range by (simp add: lsquic_varint_read_nb_def Let_def)
  have tail: "take_bit (8 * ?n - 2) (push_bit j (be_read q)) = push_bit j (be_read q)"
    if "j + 8 * length q \<le> 8 * (?n - length pre)" for j q
    using that l1 len by (intro take_push_be_read) linarith
  show ?thesis
  proof (cases "?n - length pre \<le> length p")
    case True
    then have "vrs_val st OR be_read (take (?n - length pre) p)
        = take_bit (8 * ?n - 2) (be_read (pre @ take (?n - length pre) p))"
      using tail [of 0 "take (?n - length pre) p"] by (simp add: be_read_append val take_bit_or)
    with True show ?thesis
      unfolding step nb_resume_spec [OF range] left by (simp add: Let_def)
  next
    case False
    then have "8 * (?n - length pre - length p) + 8 * length p = 8 * (?n - length pre)"
      by simp
    then have "vrs_val st OR push_bit (8 * (?n - length pre - length p)) (be_read p)
        = take_bit (8 * ?n - 2) (push_bit (8 * (?n - length (pre @ p))) (be_read (pre @ p)))"
      using tail [of "8 * (?n - length pre - length p)" p]
      by (simp add: be_read_append val take_bit_or push_bit_or)
    moreover have "vrs_pos st + length p = nb_base ?n + (length (pre @ p) - 1)"
      using pos l1 by simp
    ultimately show ?thesis
      using False unfolding step nb_resume_spec [OF range] left by (simp add: Let_def)
  qed
qed

lemma varint_read_seen_append:
  assumes "nb_seen pre st" "pre \<noteq> []"
  shows "lsquic_varint_read (pre @ p) =
     (let n = vint_announced (hd pre) in
      if n \<le> length pre + length p
      then Some (n, take_bit (8 * n - 2) (be_read (pre @ take (n - length pre) p)))
      else None)"
  using assms
  by (cases pre) (auto simp: nb_seen_def lsquic_varint_read_Cons Let_def take_Cons' split: if_splits)

interpretation nb: resumable_reader lsquic_varint_read lsquic_varint_read_nb nb_seen vrs_val
proof unfold_locales
  show "n \<le> length p" if "lsquic_varint_read p = Some (n, v)" for p n v
    using lsquic_varint_read_len [OF that] by simp
  show "lsquic_varint_read (p @ q) = Some (n, v)" if "lsquic_varint_read p = Some (n, v)" for p q n v
    using that by (rule lsquic_varint_read_append)
  show "lsquic_varint_read pre = None" if "nb_seen pre st" for pre st
    using that varint_read_seen_append [OF that, of "[]"]
    by (cases "pre = []") (auto simp: nb_seen_def Let_def)
  show "\<exists>st'. lsquic_varint_read_nb p st = NB_DONE (drop n (pre @ p)) st' \<and> vrs_val st' = v"
    if seen: "nb_seen pre st" and read: "lsquic_varint_read (pre @ p) = Some (n, v)" for pre st p n v
  proof (cases "pre = []")
    case True
    with seen read show ?thesis
      by (cases p) (auto simp: nb_seen_def read_nb_fresh lsquic_varint_read_Cons Let_def split: if_splits)
  next
    case False
    with seen read have n: "n = vint_announced (hd pre)" "n \<le> length pre + length p" "length pre < n"
      and v: "v = take_bit (8 * n - 2) (be_read (pre @ take (n - length pre) p))"
      by (auto simp: varint_read_seen_append nb_seen_def Let_def split: if_splits)
    then have "p \<noteq> []" by auto
    then show ?thesis using read_nb_resumed [OF seen False] n v by (simp add: Let_def)
  qed
  show "\<exists>st'. lsquic_varint_read_nb p st = NB_MORE [] st' \<and> nb_seen (pre @ p) st'"
    if seen: "nb_seen pre st" and read: "lsquic_varint_read (pre @ p) = None" for pre st p
  proof (cases "p = []")
    case True
    with seen show ?thesis by (simp add: lsquic_varint_read_nb_def)
  next
    case p: False
    show ?thesis
    proof (cases "pre = []")
      case True
      with p seen read show ?thesis
        by (cases p) (auto simp: nb_seen_def read_nb_fresh lsquic_varint_read_Cons Let_def split: if_splits)
    next
      case False
      with seen read have "length pre + length p < vint_announced (hd pre)"
        by (auto simp: varint_read_seen_append Let_def split: if_splits)
      then show ?thesis
        using read_nb_resumed [OF seen False p] False by (auto simp: nb_seen_def Let_def)
    qed
  qed
qed

section \<open>The resumable reader of a pair\<close>

definition vr2_seen :: "bytes \<Rightarrow> varint_read2_state \<Rightarrow> bool" where
  "vr2_seen pre s \<longleftrightarrow>
     (case vr2s_st s of
        VR2S_READ_ONE_BEGIN \<Rightarrow> pre = []
      | VR2S_READ_ONE_CONTINUE \<Rightarrow> nb_seen pre (vr2s_varint_state s)
      | VR2S_READ_TWO_BEGIN \<Rightarrow> lsquic_varint_read pre = Some (length pre, vr2s_one s)
      | VR2S_READ_TWO_CONTINUE \<Rightarrow>
          (\<exists>k. lsquic_varint_read pre = Some (k, vr2s_one s) \<and> nb_seen (drop k pre) (vr2s_varint_state s)))"

definition vr2_result :: "varint_read2_state \<Rightarrow> u64 \<times> u64" where
  "vr2_result s = (vr2s_one s, vrs_val (vr2s_varint_state s))"

text \<open>Which of the two integers a state is busy with.\<close>

definition vr2_second :: "varint_read2_state \<Rightarrow> bool" where
  "vr2_second s \<longleftrightarrow> vr2s_st s = VR2S_READ_TWO_BEGIN \<or> vr2s_st s = VR2S_READ_TWO_CONTINUE"

lemma read_two_Nil [simp]: "lsquic_varint_read_two [] s = NB_MORE [] s"
  by (simp add: lsquic_varint_read_two.simps)

lemma vr2_enter_simps:
  "vr2s_one (vr2_enter s) = vr2s_one s"
  "vr2s_st (vr2_enter s) = (if vr2_second s then VR2S_READ_TWO_CONTINUE else VR2S_READ_ONE_CONTINUE)"
  by (auto simp: vr2_enter_def vr2_second_def split: vr2s_state.splits)

lemma vr2_seen_second:
  "vr2_second s \<Longrightarrow> vr2_seen pre s \<Longrightarrow>
     \<exists>k. lsquic_varint_read pre = Some (k, vr2s_one s) \<and> nb_seen (drop k pre) (vr2s_varint_state (vr2_enter s))"
  by (auto simp: vr2_second_def vr2_seen_def vr2_enter_def)

lemma vr2_seen_first:
  "\<not> vr2_second s \<Longrightarrow> vr2_seen pre s \<Longrightarrow> nb_seen pre (vr2s_varint_state (vr2_enter s))"
  by (cases "vr2s_st s") (auto simp: vr2_second_def vr2_seen_def vr2_enter_def)

lemma read_two_second:
  assumes sec: "vr2_second s" and pre: "lsquic_varint_read pre = Some (k, vr2s_one s)"
    and seen: "nb_seen (drop k pre) (vr2s_varint_state (vr2_enter s))" and p: "p \<noteq> []"
  shows "case lsquic_varint_read (drop k (pre @ p)) of
      Some (m, b) \<Rightarrow> \<exists>s'. lsquic_varint_read_two p s = NB_DONE (drop m (drop k (pre @ p))) s' \<and>
                     vr2_result s' = (vr2s_one s, b)
    | None \<Rightarrow> \<exists>s'. lsquic_varint_read_two p s = NB_MORE [] s' \<and> vr2_seen (pre @ p) s'"
proof -
  let ?v = "vr2s_varint_state (vr2_enter s)"
  have k: "k \<le> length pre" using lsquic_varint_read_len [OF pre] by simp
  then have dr: "drop k (pre @ p) = drop k pre @ p" by simp
  show ?thesis
  proof (cases "lsquic_varint_read (drop k pre @ p)")
    case None
    then obtain st' where st': "lsquic_varint_read_nb p ?v = NB_MORE [] st'" "nb_seen (drop k pre @ p) st'"
      using nb.step_more [OF seen] by blast
    have "lsquic_varint_read (pre @ p) = Some (k, vr2s_one s)"
      using pre by (rule lsquic_varint_read_append)
    with st' None sec p k show ?thesis
      by (simp add: lsquic_varint_read_two.simps [of p s] Let_def vr2_seen_def vr2_enter_simps)
  next
    case (Some r)
    then obtain m b where r: "lsquic_varint_read (drop k pre @ p) = Some (m, b)" by (cases r) simp
    then obtain st' where "lsquic_varint_read_nb p ?v = NB_DONE (drop m (drop k pre @ p)) st'" "vrs_val st' = b"
      using nb.step_done [OF seen] by blast
    with r sec p k show ?thesis
      by (simp add: lsquic_varint_read_two.simps [of p s] Let_def vr2_result_def vr2_enter_simps)
  qed
qed

lemma read_two_first:
  assumes fst: "\<not> vr2_second s" and seen: "nb_seen pre (vr2s_varint_state (vr2_enter s))" and p: "p \<noteq> []"
  shows "case lsquic_varint_read (pre @ p) of
      Some (k, a) \<Rightarrow> \<exists>s'. lsquic_varint_read_two p s = lsquic_varint_read_two (drop k (pre @ p)) s' \<and>
                     vr2s_one s' = a \<and> vr2s_st s' = VR2S_READ_TWO_BEGIN
    | None \<Rightarrow> \<exists>s'. lsquic_varint_read_two p s = NB_MORE [] s' \<and> vr2_seen (pre @ p) s'"
proof (cases "lsquic_varint_read (pre @ p)")
  case None
  then obtain st' where "lsquic_varint_read_nb p (vr2s_varint_state (vr2_enter s)) = NB_MORE [] st'"
    "nb_seen (pre @ p) st'"
    using nb.step_more [OF seen] by blast
  with None fst p show ?thesis
    by (simp add: lsquic_varint_read_two.simps [of p s] Let_def vr2_seen_def vr2_enter_simps)
next
  case (Some r)
  then obtain k a where r: "lsquic_varint_read (pre @ p) = Some (k, a)" by (cases r) simp
  then obtain st' where "lsquic_varint_read_nb p (vr2s_varint_state (vr2_enter s)) = NB_DONE (drop k (pre @ p)) st'"
    "vrs_val st' = a"
    using nb.step_done [OF seen] by blast
  with r fst p show ?thesis
    by (auto simp: lsquic_varint_read_two.simps [of p s] Let_def vr2_enter_simps)
qed

lemma read_pair_append:
  assumes "read_pair p = Some (n, v)"
  shows "read_pair (p @ q) = Some (n, v) \<and> n \<le> length p"
proof -
  from assms obtain k a m b where r: "lsquic_varint_read p = Some (k, a)"
    "lsquic_varint_read (drop k p) = Some (m, b)" "n = k + m" "v = (a, b)"
    by (auto simp: read_pair_def split: option.splits)
  then have k: "k \<le> length p" and m: "m \<le> length (drop k p)"
    using lsquic_varint_read_len by blast+
  with r lsquic_varint_read_append [OF r(1), of q] lsquic_varint_read_append [OF r(2), of q]
  show ?thesis by (simp add: read_pair_def)
qed

lemma read_pair_seen:
  assumes "vr2_seen pre s" shows "read_pair pre = None"
proof (cases "vr2_second s")
  case True
  with vr2_seen_second [OF True assms] show ?thesis
    using nb.seen_incomplete by (auto simp: read_pair_def)
next
  case False
  with vr2_seen_first [OF False assms] show ?thesis
    using nb.seen_incomplete by (simp add: read_pair_def)
qed

lemma read_two_step:
  assumes seen: "vr2_seen pre s" and p: "p \<noteq> []"
  shows "case read_pair (pre @ p) of
      Some (n, v) \<Rightarrow> \<exists>s'. lsquic_varint_read_two p s = NB_DONE (drop n (pre @ p)) s' \<and> vr2_result s' = v
    | None \<Rightarrow> \<exists>s'. lsquic_varint_read_two p s = NB_MORE [] s' \<and> vr2_seen (pre @ p) s'"
proof (cases "vr2_second s")
  case True
  then obtain k where k: "lsquic_varint_read pre = Some (k, vr2s_one s)"
    "nb_seen (drop k pre) (vr2s_varint_state (vr2_enter s))"
    using vr2_seen_second seen by blast
  show ?thesis
    using read_two_second [OF True k p] lsquic_varint_read_append [OF k(1), of p]
    by (auto simp: read_pair_def add.commute simp del: drop_append split: option.splits)
next
  case False
  note one = read_two_first [OF False vr2_seen_first [OF False seen] p]
  show ?thesis
  proof (cases "lsquic_varint_read (pre @ p)")
    case None
    with one show ?thesis by (simp add: read_pair_def)
  next
    case (Some r)
    then obtain k a where r: "lsquic_varint_read (pre @ p) = Some (k, a)" by (cases r) simp
    with one obtain s' where s': "lsquic_varint_read_two p s = lsquic_varint_read_two (drop k (pre @ p)) s'"
      "vr2s_one s' = a" "vr2s_st s' = VR2S_READ_TWO_BEGIN" by auto
    have k: "k \<le> length (pre @ p)" using lsquic_varint_read_len [OF r] by simp
    have sec: "vr2_second s'" using s' by (simp add: vr2_second_def)
    show ?thesis
    proof (cases "drop k (pre @ p) = []")
      case True
      with k have "k = length (pre @ p)" by (simp del: drop_append length_append)
      with True r s' show ?thesis by (simp add: read_pair_def vr2_seen_def)
    next
      case False
      let ?f = "take k (pre @ p)"
      have "lsquic_varint_read ?f = Some (k, vr2s_one s')"
        using r s'(2) k by (cases "pre @ p") (auto simp: lsquic_varint_read_Cons Let_def take_Cons' split: if_splits)
      moreover have "nb_seen (drop k ?f) (vr2s_varint_state (vr2_enter s'))"
        using s' k by (simp add: vr2_enter_def)
      ultimately show ?thesis
        using read_two_second [OF sec _ _ False, of ?f k] r s' k
        by (auto simp: read_pair_def add.commute simp del: drop_append take_append split: option.splits)
    qed
  qed
qed

interpretation vr2: resumable_reader read_pair lsquic_varint_read_two vr2_seen vr2_result
proof unfold_locales
  show "n \<le> length p" if "read_pair p = Some (n, v)" for p n v
    using read_pair_append [OF that] by simp
  show "read_pair (p @ q) = Some (n, v)" if "read_pair p = Some (n, v)" for p q n v
    using read_pair_append [OF that] by simp
  show "read_pair pre = None" if "vr2_seen pre s" for pre s
    using that by (rule read_pair_seen)
  show "\<exists>s'. lsquic_varint_read_two p s = NB_DONE (drop n (pre @ p)) s' \<and> vr2_result s' = v"
    if "vr2_seen pre s" "read_pair (pre @ p) = Some (n, v)" for pre s p n v
    using that read_two_step [OF that(1), of p] read_pair_seen [OF that(1)] by (cases "p = []") auto
  show "\<exists>s'. lsquic_varint_read_two p s = NB_MORE [] s' \<and> vr2_seen (pre @ p) s'"
    if "vr2_seen pre s" "read_pair (pre @ p) = None" for pre s p
    using that read_two_step [OF that(1), of p] by (cases "p = []") auto
qed

section \<open>Properties\<close>

text \<open>
  C19. Writing an integer with the size chosen by \<^const>\<open>vint_val2bits\<close> and reading it back
  gives the integer and consumes exactly the bytes written, whatever follows them.
\<close>

theorem varint_roundtrip:
  assumes "val \<le> VINT_MAX_VALUE"
  shows "lsquic_varint_read (vint_write val (vint_val2bits val) (vint_size val) @ rest)
           = Some (vint_size val, val)"
proof -
  have "unat val < 2 ^ 62"
    using assms by (simp add: VINT_MAX_VALUE_def word_le_nat_alt)
  then show ?thesis
    unfolding vint_size_def by (intro varint_read_write vint_val2bits_le vint_val2bits_fits)
qed

theorem varint_roundtrip_witness:
  "(15293 :: u64) \<le> VINT_MAX_VALUE \<and>
   lsquic_varint_read (vint_write 15293 (vint_val2bits 15293) (vint_size 15293) @ [7]) = Some (vint_size 15293, 15293)"
  using varint_roundtrip [of 15293 "[7]"] by (simp add: VINT_MAX_VALUE_def)

text \<open>
  C20. The resumable reader, given an encoded integer in arbitrary pieces from a reset
  state, delivers the value the one-shot reader delivers on the whole input and leaves
  the same rest; when the whole input is too short it asks for more.
\<close>

theorem varint_nb_pieces:
  assumes "vrs_pos st = 0"
  shows "case lsquic_varint_read (concat cs) of
      Some (n, v) \<Rightarrow> \<exists>st'. feed lsquic_varint_read_nb st cs = NB_DONE (drop n (concat cs)) st' \<and> vrs_val st' = v
    | None \<Rightarrow> \<exists>st'. feed lsquic_varint_read_nb st cs = NB_MORE [] st'"
  using assms nb.feed_done [of "[]" st cs] nb.feed_more [of "[]" st cs]
  by (auto split: option.splits)

theorem varint_nb_pieces_witness:
  "\<exists>st'. feed lsquic_varint_read_nb \<lparr>vrs_val = 0, vrs_pos = 0\<rparr> [[64], [37, 9]] = NB_DONE [9] st' \<and> vrs_val st' = 37"
  using varint_nb_pieces [of "\<lparr>vrs_val = 0, vrs_pos = 0\<rparr>" "[[64], [37, 9]]"]
  by (simp add: lsquic_varint_read_def VINT_MASK_def)

text \<open>
  C21. The resumable reader of a pair, given two encoded integers in arbitrary pieces
  from its initial state, delivers the two values in order and leaves the rest.
\<close>

theorem varint_two_pieces:
  assumes "vr2s_st s = VR2S_READ_ONE_BEGIN"
  shows "case read_pair (concat cs) of
      Some (n, v) \<Rightarrow> \<exists>s'. feed lsquic_varint_read_two s cs = NB_DONE (drop n (concat cs)) s' \<and> vr2_result s' = v
    | None \<Rightarrow> \<exists>s'. feed lsquic_varint_read_two s cs = NB_MORE [] s'"
  using assms vr2.feed_done [of "[]" s cs] vr2.feed_more [of "[]" s cs]
  by (auto simp: vr2_seen_def split: option.splits)

theorem varint_two_pieces_witness:
  "\<exists>s'. feed lsquic_varint_read_two
          \<lparr>vr2s_one = 0, vr2s_varint_state = \<lparr>vrs_val = 0, vrs_pos = 0\<rparr>, vr2s_st = VR2S_READ_ONE_BEGIN\<rparr>
          [[64], [37, 9], [5]] = NB_DONE [5] s' \<and> vr2_result s' = (37, 9)"
  using varint_two_pieces [of "\<lparr>vr2s_one = 0, vr2s_varint_state = \<lparr>vrs_val = 0, vrs_pos = 0\<rparr>,
    vr2s_st = VR2S_READ_ONE_BEGIN\<rparr>" "[[64], [37, 9], [5]]"]
  by (simp add: read_pair_def lsquic_varint_read_def VINT_MASK_def)

end
