(* ===== verification/Packno.thy ===== *)
theory Packno
  imports Quic_Prelude
begin

text \<open>
  Packet numbers on the wire: how many bytes to send
  (\<^verbatim>\<open>ietf_v1_calc_packno_bits\<close>, \<^verbatim>\<open>lsquic_gquic_calc_packno_bits\<close>), the truncated
  image (\<^verbatim>\<open>write_packno\<close>), header protection (\<^verbatim>\<open>apply_hp\<close>, \<^verbatim>\<open>strip_hp\<close>) and the
  recovery of the full number (\<^verbatim>\<open>decode_packno\<close>, \<^verbatim>\<open>lsquic_restore_packno\<close>).
  The header-protection mask comes out of the TLS library: it is an argument.
\<close>

section \<open>Definitions\<close>

definition iquic_packno_bits2len :: "nat \<Rightarrow> nat" where
  "iquic_packno_bits2len b = b + 1"

definition ietf_v1_packno_bits2len :: "nat \<Rightarrow> nat" where
  "ietf_v1_packno_bits2len bits = iquic_packno_bits2len bits"

definition ietf_v1_calc_packno_bits :: "packno \<Rightarrow> packno \<Rightarrow> u64 \<Rightarrow> nat" where
  "ietf_v1_calc_packno_bits packno least_unacked n_in_flight =
     (let delta = packno - least_unacked;
          delta = (if n_in_flight > delta then n_in_flight else delta);
          delta = delta * 4
      in of_bool (delta \<ge> push_bit 8 1) + of_bool (delta \<ge> push_bit 16 1)
         + of_bool (delta \<ge> push_bit 24 1))"

definition lsquic_gquic_calc_packno_bits :: "packno \<Rightarrow> packno \<Rightarrow> u64 \<Rightarrow> nat" where
  "lsquic_gquic_calc_packno_bits packno least_unacked n_in_flight =
     (let delta = packno - least_unacked;
          delta = (if n_in_flight > delta then n_in_flight else delta);
          delta = delta * 4
      in of_bool (delta > push_bit 8 1) + of_bool (delta > push_bit 16 1)
         + of_bool (delta > push_bit 32 1))"

text \<open>The \<^verbatim>\<open>switch\<close> falls through from the widest length to the last byte.\<close>

definition write_packno :: "packno \<Rightarrow> nat \<Rightarrow> bytes" where
  "write_packno packno bits =
     (if bits = 3 then [ucast (drop_bit 24 packno), ucast (drop_bit 16 packno),
                        ucast (drop_bit 8 packno), ucast packno]
      else if bits = 2 then [ucast (drop_bit 16 packno), ucast (drop_bit 8 packno), ucast packno]
      else if bits = 1 then [ucast (drop_bit 8 packno), ucast packno]
      else [ucast packno])"

text \<open>
  The differences are \<^verbatim>\<open>int64_t\<close> values; below \<open>2 ^ 62\<close> the subtraction of the two
  casts cannot overflow, so they are modelled as integers.
\<close>

definition decode_packno :: "packno \<Rightarrow> packno \<Rightarrow> nat \<Rightarrow> packno" where
  "decode_packno max_packno packno shift =
     (let epoch_delta = push_bit shift 1;
          c1 = (max_packno AND NOT (epoch_delta - 1)) + packno;
          c0 = c1 - epoch_delta;
          c2 = c1 + epoch_delta;
          d0 = \<bar>sint c0 - sint max_packno\<bar>;
          d1 = \<bar>sint c1 - sint max_packno\<bar>;
          d2 = \<bar>sint c2 - sint max_packno\<bar>;
          min1 = d1 < d0
      in if d2 < (if min1 then d1 else d0) then c2
         else if min1 then c1 else c0)"

definition lsquic_restore_packno :: "packno \<Rightarrow> nat \<Rightarrow> packno \<Rightarrow> packno" where
  "lsquic_restore_packno cur_packno len max_packno =
     (let epoch_delta = push_bit (push_bit 3 len) 1;
          c1 = (max_packno AND NOT (epoch_delta - 1)) + cur_packno;
          c0 = c1 - epoch_delta;
          c2 = c1 + epoch_delta;
          d0 = \<bar>sint c0 - sint max_packno\<bar>;
          d1 = \<bar>sint c1 - sint max_packno\<bar>;
          d2 = \<bar>sint c2 - sint max_packno\<bar>;
          min1 = d1 < d0
      in if d2 < (if min1 then d1 else d0) then c2
         else if min1 then c1 else c0)"

text \<open>Header protection of the first byte and of the packet number bytes.\<close>

definition hp_first_mask :: "bool \<Rightarrow> u8 \<Rightarrow> u8 \<Rightarrow> u8" where
  "hp_first_mask ql_bits b m0 =
     (if ql_bits then (7 OR push_bit 3 (drop_bit 7 b)) AND m0
      else (15 OR push_bit 4 (of_bool (b AND 128 = 0))) AND m0)"

definition xor_at :: "nat \<Rightarrow> u8 \<Rightarrow> bytes \<Rightarrow> bytes" where
  "xor_at i m dst = dst[i := dst ! i XOR m]"

definition apply_hp :: "bool \<Rightarrow> bytes \<Rightarrow> bytes \<Rightarrow> nat \<Rightarrow> nat \<Rightarrow> bytes" where
  "apply_hp send_ql_bits dst hp packno_off packno_len =
     (let dst = xor_at 0 (hp_first_mask send_ql_bits (dst ! 0) (hp ! 0)) dst;
          dst = (if packno_len = 4 then xor_at (packno_off + 3) (hp ! 4) dst else dst);
          dst = (if packno_len = 3 \<or> packno_len = 4 then xor_at (packno_off + 2) (hp ! 3) dst else dst);
          dst = (if 2 \<le> packno_len \<and> packno_len \<le> 4 then xor_at (packno_off + 1) (hp ! 2) dst else dst)
      in xor_at packno_off (hp ! 1) dst)"

text \<open>
  One label of the \<^verbatim>\<open>switch\<close> of \<^verbatim>\<open>strip_hp\<close>: unmask a byte and put it above what has
  been read so far.
\<close>

definition strip_byte :: "nat \<Rightarrow> u8 \<Rightarrow> bytes \<times> packno \<times> nat \<Rightarrow> bytes \<times> packno \<times> nat" where
  "strip_byte i m = (\<lambda>(dst, packno, shift).
     (let dst = xor_at i m dst in (dst, packno OR push_bit shift (ucast (dst ! i)), shift + 8)))"

text \<open>
  \<open>max_packno\<close> is \<^verbatim>\<open>esi_max_packno[pns]\<close> when the flag \<^verbatim>\<open>ESI_MAX_PACKNO_INIT << pns\<close> is
  set.  The result is the unprotected header, the packet number length and the
  packet number.
\<close>

definition strip_hp :: "bool \<Rightarrow> packno option \<Rightarrow> bytes \<Rightarrow> bytes \<Rightarrow> nat \<Rightarrow> bytes \<times> nat \<times> packno" where
  "strip_hp recv_ql_bits max_packno hp dst packno_off =
     (let dst = xor_at 0 (hp_first_mask recv_ql_bits (dst ! 0) (hp ! 0)) dst;
          packno_len = 1 + unat (dst ! 0 AND 3);
          st = (dst, 0, 0);
          st = (if packno_len = 4 then strip_byte (packno_off + 3) (hp ! 4) st else st);
          st = (if 3 \<le> packno_len then strip_byte (packno_off + 2) (hp ! 3) st else st);
          st = (if 2 \<le> packno_len then strip_byte (packno_off + 1) (hp ! 2) st else st);
          (dst, packno, shift) = strip_byte packno_off (hp ! 1) st
      in (dst, packno_len,
          case max_packno of Some m \<Rightarrow> decode_packno m packno shift | None \<Rightarrow> packno))"

section \<open>Recovering the full packet number\<close>

lemma restore_packno_decode:
  "lsquic_restore_packno cur_packno len max_packno = decode_packno max_packno cur_packno (8 * len)"
  by (simp add: lsquic_restore_packno_def decode_packno_def push_bit_eq_mult mult.commute)

lemma and_not_mask_int: "(w :: u64) AND NOT (push_bit n 1 - 1) = word_of_int (uint w - uint w mod 2 ^ n)"
proof -
  have "w AND NOT (push_bit n 1 - 1) = push_bit n (drop_bit n w)"
    by (rule bit_word_eqI) (auto simp: bit_simps push_bit_of_1 simp flip: mask_eq_exp_minus_1)
  also have "\<dots> = w - take_bit n w"
    using bits_ident [of n w] by (simp add: eq_diff_eq)
  also have "\<dots> = word_of_int (uint w - uint w mod 2 ^ n)"
  proof -
    have "uint (take_bit n w) = uint w mod 2 ^ n"
      by (simp only: unsigned_take_bit_eq take_bit_eq_mod [of n "uint w"])
    then show ?thesis by (simp flip: \<open>uint (take_bit n w) = uint w mod 2 ^ n\<close>)
  qed
  finally show ?thesis .
qed

lemma sint_woi: "- 9223372036854775808 \<le> k \<Longrightarrow> k < 9223372036854775808 \<Longrightarrow> sint (word_of_int k :: u64) = k"
  by (simp add: signed_of_int signed_take_bit_int_eq_self)

lemma epoch_choice:
  fixes E M F :: int
  assumes "0 < E" "2 * \<bar>F - M\<bar> < E"
  defines "k \<equiv> M - M mod E + F mod E"
  shows "F = k - E \<and> \<bar>k - E - M\<bar> < \<bar>k - M\<bar> \<and> \<bar>k - E - M\<bar> < \<bar>k + E - M\<bar>
     \<or> F = k \<and> \<bar>k - M\<bar> < \<bar>k - E - M\<bar> \<and> \<bar>k - M\<bar> < \<bar>k + E - M\<bar>
     \<or> F = k + E \<and> \<bar>k + E - M\<bar> < \<bar>k - E - M\<bar> \<and> \<bar>k + E - M\<bar> < \<bar>k - M\<bar>"
proof -
  have m: "0 \<le> M mod E" "M mod E < E" "0 \<le> F mod E" "F mod E < E" using assms(1) by simp_all
  have "M - M mod E = E * (M div E)" "F - F mod E = E * (F div E)" by (simp_all add: minus_mod_eq_mult_div)
  then have "F - k = E * (F div E - M div E)" by (simp add: k_def algebra_simps)
  then obtain j where j: "F - k = E * j" by blast
  have "F - M < E" "M - F < E" using assms(2) by (simp_all add: abs_if split: if_splits)
  then have "F - k < 2 * E" "k - F < 2 * E" using m unfolding k_def by linarith+
  then have "\<bar>F - k\<bar> < 2 * E" by (simp add: abs_less_iff)
  then have "\<bar>j\<bar> < 2" using assms(1) unfolding j by (simp add: abs_mult)
  then have "j = -1 \<or> j = 0 \<or> j = 1" by linarith
  then show ?thesis using j assms(1,2) by (elim disjE) (auto simp: abs_if split: if_splits)
qed

lemma pick:
  fixes d0 d1 d2 :: int
  shows "d0 < d1 \<Longrightarrow> d0 < d2 \<Longrightarrow>
      (if d2 < (if d1 < d0 then d1 else d0) then c2 else if d1 < d0 then c1 else c0) = c0"
    and "d1 < d0 \<Longrightarrow> d1 < d2 \<Longrightarrow>
      (if d2 < (if d1 < d0 then d1 else d0) then c2 else if d1 < d0 then c1 else c0) = c1"
    and "d2 < d0 \<Longrightarrow> d2 < d1 \<Longrightarrow>
      (if d2 < (if d1 < d0 then d1 else d0) then c2 else if d1 < d0 then c1 else c0) = c2"
  by simp_all

theorem decode_packno_near:
  assumes shift: "1 \<le> shift" "shift \<le> 48"
    and max: "uint max_packno < 2 ^ 62" and full: "uint full < 2 ^ 62"
    and near: "\<bar>uint full - uint max_packno\<bar> < 2 ^ (shift - 1)"
  shows "decode_packno max_packno (take_bit shift full) shift = full"
proof -
  let ?E = "2 ^ shift :: int" let ?M = "uint max_packno" let ?F = "uint full"
  define k where "k = ?M - ?M mod ?E + ?F mod ?E"
  have E: "0 < ?E" "?E \<le> 2 ^ 48" using power_increasing [OF shift(2), of "2::int"] by simp_all
  have half: "(2::int) ^ shift = 2 * 2 ^ (shift - 1)" using shift(1) by (simp flip: power_Suc)
  have near2: "2 * \<bar>?F - ?M\<bar> < ?E" unfolding half using near by simp
  have eq1: "(max_packno AND NOT (push_bit shift 1 - 1)) + take_bit shift full = word_of_int k"
  proof -
    have "uint (take_bit shift full) = ?F mod ?E"
      by (simp only: unsigned_take_bit_eq take_bit_eq_mod [of shift "uint full"])
    then have "take_bit shift full = word_of_int (?F mod ?E)"
      by (metis word_of_int_uint)
    then show ?thesis unfolding and_not_mask_int k_def by simp
  qed
  have e: "push_bit shift 1 = (word_of_int ?E :: u64)" by (simp add: push_bit_of_1)
  have mods: "0 \<le> ?M mod ?E" "?M mod ?E < ?E" "0 \<le> ?F mod ?E" "?F mod ?E < ?E" using E(1) by simp_all
  have M0: "0 \<le> ?M" "?M mod ?E \<le> ?M" by (simp_all add: zmod_le_nonneg_dividend)
  have nums: "?M < 4611686018427387904" "?E \<le> 281474976710656" using max E(2) by simp_all
  have b: "- 9223372036854775808 \<le> k - ?E" "k + ?E < 9223372036854775808"
    using mods M0 nums E(1) unfolding k_def by linarith+
  have s0: "sint (word_of_int k - push_bit shift 1 :: u64) = k - ?E"
    using sint_woi [of "k - ?E"] b E(1) unfolding e by simp
  have s1: "sint (word_of_int k :: u64) = k" using sint_woi [of k] b E(1) by linarith
  have s2: "sint (word_of_int k + push_bit shift 1 :: u64) = k + ?E"
    using sint_woi [of "k + ?E"] b E(1) unfolding e by simp
  have sm: "sint max_packno = ?M"
    using sint_woi [of ?M] nums M0 by simp
  have F: "word_of_int ?F = full" by simp
  consider (c0) "word_of_int (k - ?E) = full" "\<bar>k - ?E - ?M\<bar> < \<bar>k - ?M\<bar>" "\<bar>k - ?E - ?M\<bar> < \<bar>k + ?E - ?M\<bar>"
    | (c1) "word_of_int k = full" "\<bar>k - ?M\<bar> < \<bar>k - ?E - ?M\<bar>" "\<bar>k - ?M\<bar> < \<bar>k + ?E - ?M\<bar>"
    | (c2) "word_of_int (k + ?E) = full" "\<bar>k + ?E - ?M\<bar> < \<bar>k - ?E - ?M\<bar>" "\<bar>k + ?E - ?M\<bar> < \<bar>k - ?M\<bar>"
    using epoch_choice [OF E(1) near2, folded k_def] F by metis
  then show ?thesis
  proof cases
    case c0
    from c0(1) show ?thesis
      unfolding decode_packno_def Let_def eq1 s0 s1 s2 sm pick(1) [OF c0(2,3)] by (simp add: e)
  next
    case c1
    from c1(1) show ?thesis
      unfolding decode_packno_def Let_def eq1 s0 s1 s2 sm pick(2) [OF c1(2,3)] by simp
  next
    case c2
    from c2(1) show ?thesis
      unfolding decode_packno_def Let_def eq1 s0 s1 s2 sm pick(3) [OF c2(2,3)] by (simp add: e)
  qed
qed

section \<open>Enough bytes are sent\<close>

lemma write_packno_be:
  "bits \<le> 3 \<Longrightarrow> write_packno packno bits = be_bytes (iquic_packno_bits2len bits) packno"
  by (auto simp: write_packno_def iquic_packno_bits2len_def be_bytes_def upt_rec le_Suc_eq numeral_eq_Suc)

lemma calc_packno_bits_le [simp]: "ietf_v1_calc_packno_bits packno lu nif \<le> 3"
  by (simp add: ietf_v1_calc_packno_bits_def Let_def)

lemma calc_packno_bits_enough:
  fixes packno lu nif :: u64
  assumes "lu \<le> packno" "uint packno - uint lu < 2 ^ 30" "uint nif < 2 ^ 30"
  shows "4 * (uint packno - uint lu) < 2 ^ (8 * iquic_packno_bits2len (ietf_v1_calc_packno_bits packno lu nif))"
    and "4 * uint nif < 2 ^ (8 * iquic_packno_bits2len (ietf_v1_calc_packno_bits packno lu nif))"
proof -
  define d where "d = (if nif > packno - lu then nif else packno - lu)"
  have sub: "uint (packno - lu) = uint packno - uint lu"
    using assms(1) by (simp add: uint_minus_simple_alt word_le_def)
  have d: "uint d < 2 ^ 30" "uint packno - uint lu \<le> uint d" "uint nif \<le> uint d"
    using assms(2,3) sub by (auto simp: d_def word_less_def)
  have d4: "uint (d * 4) = 4 * uint d"
    using d(1) by (simp add: uint_word_ariths)
  let ?b = "ietf_v1_calc_packno_bits packno lu nif"
  have b: "?b = of_bool (2 ^ 8 \<le> 4 * uint d) + of_bool (2 ^ 16 \<le> 4 * uint d) + of_bool (2 ^ 24 \<le> 4 * uint d)"
    unfolding ietf_v1_calc_packno_bits_def Let_def d_def [symmetric] word_le_def d4 by simp
  have "4 * uint d < 2 ^ (8 * iquic_packno_bits2len ?b)"
    using d(1) unfolding b iquic_packno_bits2len_def by auto
  note bound = le_less_trans [OF mult_left_mono this]
  show "4 * (uint packno - uint lu) < 2 ^ (8 * iquic_packno_bits2len ?b)"
    using d(2) by (rule bound) simp
  show "4 * uint nif < 2 ^ (8 * iquic_packno_bits2len ?b)"
    using d(3) by (rule bound) simp
qed

text \<open>Any receiver that is not further behind than the sender assumes recovers the number.\<close>

theorem packno_recovered:
  fixes packno lu nif max_packno :: u64
  assumes sender: "lu \<le> packno" "uint packno - uint lu < 2 ^ 30" "uint nif < 2 ^ 30"
    and bounds: "uint packno < 2 ^ 62" "uint max_packno < 2 ^ 62"
    and receiver: "uint lu \<le> uint max_packno + 1" "uint max_packno \<le> uint packno + uint nif"
  defines "bits \<equiv> ietf_v1_calc_packno_bits packno lu nif"
  shows "decode_packno max_packno (take_bit (8 * iquic_packno_bits2len bits) packno)
           (8 * iquic_packno_bits2len bits) = packno"
proof (rule decode_packno_near)
  let ?s = "8 * iquic_packno_bits2len bits"
  have len: "1 \<le> iquic_packno_bits2len bits" "iquic_packno_bits2len bits \<le> 4"
    using calc_packno_bits_le [of packno lu nif] by (simp_all add: bits_def iquic_packno_bits2len_def)
  then show "1 \<le> ?s" "?s \<le> 48" by simp_all
  obtain h :: int where h: "2 ^ (?s - 1) = h" by blast
  have "(2::int) ^ ?s = 2 * 2 ^ (?s - 1)" using len(1) by (simp flip: power_Suc)
  then have s: "(2::int) ^ ?s = 2 * h" unfolding h .
  have "(2::int) ^ 7 \<le> 2 ^ (?s - 1)" using len(1) by (intro power_increasing) simp_all
  then have h7: "128 \<le> h" unfolding h by simp
  have e: "4 * (uint packno - uint lu) < 2 * h" "4 * uint nif < 2 * h"
    using calc_packno_bits_enough [OF sender] s unfolding bits_def by simp_all
  show "\<bar>uint packno - uint max_packno\<bar> < 2 ^ (?s - 1)"
    unfolding h using e receiver h7 by (simp add: abs_if)
qed (use bounds in simp_all)

section \<open>Header protection\<close>

lemma xor_at_invol [simp]: "xor_at i m (xor_at i m dst) = dst"
  by (cases "i < length dst") (simp_all add: xor_at_def xor.assoc list_update_beyond)

lemma xor_at_swap: "i \<noteq> j \<Longrightarrow> xor_at i m (xor_at j k dst) = xor_at j k (xor_at i m dst)"
  by (simp add: xor_at_def list_update_swap)

lemma length_xor_at [simp]: "length (xor_at i m dst) = length dst"
  by (simp add: xor_at_def)

lemma nth_xor_at:
  "j < length dst \<Longrightarrow> xor_at i m dst ! j = (if i = j then dst ! j XOR m else dst ! j)"
  by (auto simp: xor_at_def nth_list_update)

lemma and_128: "(w :: u8) AND 128 = 0 \<longleftrightarrow> \<not> bit w 7"
  using and_exp_eq_0_iff_not_bit [of w 7] by simp

lemma hp_first_mask_bits: "bit (hp_first_mask ql b m0) n \<Longrightarrow> n < 5"
proof -
  have "n < 3" if "bit (7 :: u8) n" using that bit_lt_pow [of "7 :: u8" 3 n] by simp
  moreover have "n < 4" if "bit (15 :: u8) n" using that bit_lt_pow [of "15 :: u8" 4 n] by simp
  ultimately show "bit (hp_first_mask ql b m0) n \<Longrightarrow> n < 5"
    by (auto simp: hp_first_mask_def bit_simps dest!: bit_imp_le_length split: if_splits)
qed

lemma hp_first_mask_cong:
  "drop_bit 7 b = drop_bit 7 c \<Longrightarrow> (b AND 128 = 0) = (c AND 128 = 0) \<Longrightarrow>
     hp_first_mask ql b m0 = hp_first_mask ql c m0"
  by (simp add: hp_first_mask_def)

text \<open>The protected bits of the first byte do not include the one that selects them.\<close>

lemma hp_first_mask_stable:
  "hp_first_mask ql (b XOR hp_first_mask ql b m0) m0 = hp_first_mask ql b m0"
proof (rule hp_first_mask_cong)
  show "drop_bit 7 (b XOR hp_first_mask ql b m0) = drop_bit 7 b"
    by (rule bit_word_eqI) (auto simp: bit_simps dest: hp_first_mask_bits)
  show "(b XOR hp_first_mask ql b m0) AND 128 = 0 \<longleftrightarrow> b AND 128 = 0"
    by (auto simp: and_128 bit_simps dest: hp_first_mask_bits)
qed

text \<open>The masking of the packet number bytes, as one operation.\<close>

definition hp_number :: "bytes \<Rightarrow> nat \<Rightarrow> nat \<Rightarrow> bytes \<Rightarrow> bytes" where
  "hp_number hp off len dst = fold (\<lambda>i. xor_at (off + i) (hp ! Suc i)) (rev [0..<len]) dst"

lemma upt_4: "rev [0..<Suc 0] = [0]" "rev [0..<2] = [1, 0]" "rev [0..<3] = [2, 1, 0]"
  "rev [0..<4] = [3, 2, 1, 0::nat]"
  by (simp_all add: upt_rec)

lemma len_cases: "1 \<le> len \<Longrightarrow> len \<le> 4 \<Longrightarrow> len = Suc 0 \<or> len = 2 \<or> len = 3 \<or> len = (4::nat)"
  by linarith

lemma apply_hp_number:
  assumes "1 \<le> len" "len \<le> 4"
  shows "apply_hp ql dst hp off len
       = hp_number hp off len (xor_at 0 (hp_first_mask ql (dst ! 0) (hp ! 0)) dst)"
  using len_cases [OF assms]
  by (elim disjE) (simp_all add: apply_hp_def hp_number_def Let_def upt_4 numeral_eq_Suc)

lemma fold_xor_at_0:
  "0 < off \<Longrightarrow> xor_at 0 m (fold (\<lambda>i. xor_at (off + i) (hp ! Suc i)) is dst)
     = fold (\<lambda>i. xor_at (off + i) (hp ! Suc i)) is (xor_at 0 m dst)"
  by (induction "is" arbitrary: dst) (simp_all add: xor_at_swap [of 0])

lemma xor_at_0_number:
  "0 < off \<Longrightarrow> xor_at 0 m (hp_number hp off len dst) = hp_number hp off len (xor_at 0 m dst)"
  by (simp add: hp_number_def fold_xor_at_0)

lemma length_hp_number [simp]: "length (hp_number hp off len dst) = length dst"
proof -
  have "length (fold (\<lambda>i. xor_at (off + i) (hp ! Suc i)) js dst) = length dst" for js
    by (induction js arbitrary: dst) simp_all
  then show ?thesis by (simp add: hp_number_def)
qed

lemma hp_number_nth_outside:
  assumes "j < length dst" "j < off \<or> off + len \<le> j"
  shows "hp_number hp off len dst ! j = dst ! j"
proof -
  have "fold (\<lambda>i. xor_at (off + i) (hp ! Suc i)) js dst ! j = dst ! j" if "set js \<subseteq> {..<len}" for js
    using that assms by (induction js arbitrary: dst) (auto simp: nth_xor_at)
  from this [of "rev [0..<len]"] show ?thesis by (simp add: hp_number_def lessThan_atLeast0)
qed

lemma strip_number:
  fixes hp dst :: bytes
  assumes len: "1 \<le> len" "len \<le> 4" and off: "off + len \<le> length dst"
  defines "st0 \<equiv> (hp_number hp off len dst, 0, 0)"
  defines "st1 \<equiv> (if len = 4 then strip_byte (off + 3) (hp ! 4) st0 else st0)"
  defines "st2 \<equiv> (if 3 \<le> len then strip_byte (off + 2) (hp ! 3) st1 else st1)"
  defines "st3 \<equiv> (if 2 \<le> len then strip_byte (off + 1) (hp ! 2) st2 else st2)"
  shows "strip_byte off (hp ! 1) st3 = (dst, be_read (take len (drop off dst)), 8 * len)"
proof -
  have r: "take len (drop off dst) = map (\<lambda>i. dst ! (off + i)) [0..<len]"
    using off by (intro nth_equalityI) simp_all
  show ?thesis
    using len_cases [OF len] off unfolding r st3_def st2_def st1_def st0_def
    by (elim disjE)
      (simp_all add: hp_number_def strip_byte_def upt_4 Let_def numeral_eq_Suc nth_xor_at upt_rec be_read_Cons
         xor_at_swap [of "Suc off" off] xor_at_swap [of "Suc (Suc off)" off] xor_at_swap [of "Suc (Suc (Suc off))" off]
         xor_at_swap [of "Suc (Suc off)" "Suc off"] xor_at_swap [of "Suc (Suc (Suc off))" "Suc off"]
         xor_at_swap [of "Suc (Suc (Suc off))" "Suc (Suc off)"] or.commute or.left_commute)
qed

lemma strip_apply_hp:
  assumes off: "0 < off" "off + len \<le> length dst" and len: "len = 1 + unat (dst ! 0 AND 3)"
  shows "strip_hp ql max_packno hp (apply_hp ql dst hp off len) off =
     (dst, len, let p = be_read (take len (drop off dst))
                in case max_packno of Some m \<Rightarrow> decode_packno m p (8 * len) | None \<Rightarrow> p)"
proof -
  have "unat (dst ! 0 AND 3) \<le> unat (3 :: u8)"
    unfolding word_le_nat_alt [symmetric] by (rule word_and_le1)
  then have l: "1 \<le> len" "len \<le> 4" using len by simp_all
  define m where "m = hp_first_mask ql (dst ! 0) (hp ! 0)"
  have a: "apply_hp ql dst hp off len = hp_number hp off len (xor_at 0 m dst)"
    using apply_hp_number [OF l] by (simp add: m_def)
  have n0: "0 < length dst" using off by linarith
  have z: "apply_hp ql dst hp off len ! 0 = dst ! 0 XOR m"
    unfolding a using off n0 by (simp add: hp_number_nth_outside nth_xor_at)
  have "hp_first_mask ql (apply_hp ql dst hp off len ! 0) (hp ! 0) = m"
    unfolding z m_def by (rule hp_first_mask_stable)
  then have first: "xor_at 0 (hp_first_mask ql (apply_hp ql dst hp off len ! 0) (hp ! 0)) (apply_hp ql dst hp off len)
      = hp_number hp off len dst"
    unfolding a using off(1) by (simp add: xor_at_0_number)
  have "hp_number hp off len dst ! 0 = dst ! 0"
    using off n0 by (intro hp_number_nth_outside) simp_all
  then have len': "1 + unat (hp_number hp off len dst ! 0 AND 3) = len" using len by simp
  show ?thesis
    unfolding strip_hp_def Let_def first len' using strip_number [OF l off(2), of hp]
    by simp
qed

text \<open>
  Protection leaves the sample, which starts four bytes after the packet number,
  as it is: both peers derive the same mask from it.
\<close>

definition apply_hp_immediately :: "(bytes \<Rightarrow> bytes) \<Rightarrow> bool \<Rightarrow> bytes \<Rightarrow> nat \<Rightarrow> nat \<Rightarrow> bytes" where
  "apply_hp_immediately hp_gen_mask ql enc_data packno_off packno_len =
     apply_hp ql enc_data (hp_gen_mask (take 16 (drop (packno_off + 4) enc_data))) packno_off packno_len"

lemma apply_hp_sample:
  assumes "0 < off" "off + 4 \<le> length dst" "1 \<le> len" "len \<le> 4"
  shows "drop (off + 4) (apply_hp ql dst hp off len) = drop (off + 4) dst"
proof (rule nth_equalityI)
  show l: "length (drop (off + 4) (apply_hp ql dst hp off len)) = length (drop (off + 4) dst)"
    by (simp add: apply_hp_number [OF assms(3,4)])
  fix i assume "i < length (drop (off + 4) (apply_hp ql dst hp off len))"
  then have "off + 4 + i < length dst" unfolding l by simp
  then show "drop (off + 4) (apply_hp ql dst hp off len) ! i = drop (off + 4) dst ! i"
    using assms by (simp add: apply_hp_number [OF assms(3,4)] hp_number_nth_outside nth_xor_at)
qed

lemma hp_roundtrip:
  fixes packno lu nif max_packno :: u64
  assumes sender: "lu \<le> packno" "uint packno - uint lu < 2 ^ 30" "uint nif < 2 ^ 30"
    and bounds: "uint packno < 2 ^ 62" "uint max_packno < 2 ^ 62"
    and receiver: "uint lu \<le> uint max_packno + 1" "uint max_packno \<le> uint packno + uint nif"
    and bits: "bits = ietf_v1_calc_packno_bits packno lu nif" "len = iquic_packno_bits2len bits"
    and header: "0 < off" "off + 4 \<le> length dst" "unat (dst ! 0 AND 3) = bits"
      "take len (drop off dst) = write_packno packno bits"
    and enc: "enc = apply_hp_immediately hp_gen_mask ql dst off len"
  shows "strip_hp ql (Some max_packno) (hp_gen_mask (take 16 (drop (off + 4) enc))) enc off
           = (dst, len, packno)"
proof -
  have b3: "bits \<le> 3" using bits by simp
  then have l: "1 \<le> len" "len \<le> 4" "len = 1 + unat (dst ! 0 AND 3)"
    using bits(2) header(3) by (simp_all add: iquic_packno_bits2len_def)
  have s: "drop (off + 4) enc = drop (off + 4) dst"
    unfolding enc apply_hp_immediately_def using header(1,2) l(1,2) by (rule apply_hp_sample)
  have off: "off + len \<le> length dst" using l(2) header(2) by linarith
  have p: "be_read (take len (drop off dst)) = take_bit (8 * len) packno"
    unfolding header(4) write_packno_be [OF b3] bits(2) [symmetric] by (rule be_read_be_bytes)
  have "decode_packno max_packno (take_bit (8 * len) packno) (8 * len) = packno"
    unfolding bits by (rule packno_recovered) (use sender bounds receiver in simp_all)
  then show ?thesis
    unfolding s unfolding enc apply_hp_immediately_def
    unfolding strip_apply_hp [OF header(1) off l(3)] Let_def p by simp
qed

section \<open>Properties\<close>

text \<open>
  C23. Of the three candidates, \<^const>\<open>decode_packno\<close> picks the packet number that was
  truncated, for every number closer to the largest received one than half the range
  of the bytes sent.
\<close>

theorem decode_packno_correct:
  assumes "1 \<le> shift" "shift \<le> 48" "uint max_packno < 2 ^ 62" "uint full < 2 ^ 62"
    "\<bar>uint full - uint max_packno\<bar> < 2 ^ (shift - 1)"
  shows "decode_packno max_packno (take_bit shift full) shift = full"
  using assms by (rule decode_packno_near)

theorem decode_packno_correct_witness:
  "decode_packno 2862121370 (take_bit 16 2862095154) 16 = 2862095154"
  using decode_packno_correct [of 16 2862121370 2862095154] by simp

text \<open>
  C22. End to end: the sender picks the packet number length from the oldest packet
  still unacknowledged and the number in flight, writes the truncated number and
  protects the header; a receiver that has seen everything before that oldest packet
  and derives the mask from the same sample of the protected packet restores the
  header and recovers the full packet number.
\<close>

theorem header_protection_roundtrip:
  fixes packno lu nif max_packno :: u64
  assumes sender: "lu \<le> packno" "uint packno - uint lu < 2 ^ 30" "uint nif < 2 ^ 30"
    and bounds: "uint packno < 2 ^ 62" "uint max_packno < 2 ^ 62"
    and receiver: "uint lu \<le> uint max_packno + 1" "uint max_packno \<le> uint packno + uint nif"
    and bits: "bits = ietf_v1_calc_packno_bits packno lu nif" "len = iquic_packno_bits2len bits"
    and header: "0 < off" "off + 4 \<le> length dst" "unat (dst ! 0 AND 3) = bits"
      "take len (drop off dst) = write_packno packno bits"
    and enc: "enc = apply_hp_immediately hp_gen_mask ql dst off len"
  shows "strip_hp ql (Some max_packno) (hp_gen_mask (take 16 (drop (off + 4) enc))) enc off
           = (dst, len, packno)"
  using assms by (rule hp_roundtrip)

theorem header_protection_roundtrip_witness:
  "let dst = [65, 9, 1, 44] @ replicate 20 7;
       enc = apply_hp_immediately (map (\<lambda>b. b XOR 85)) False dst 2 2
   in enc \<noteq> dst \<and> strip_hp False (Some 255) (map (\<lambda>b. b XOR 85) (take 16 (drop (2 + 4) enc))) enc 2 = (dst, 2, 300)"
proof -
  let ?dst = "[65, 9, 1, 44] @ replicate 20 7 :: bytes" let ?g = "map (\<lambda>b :: u8. b XOR 85)"
  have b: "ietf_v1_calc_packno_bits 300 200 50 = 1" "iquic_packno_bits2len 1 = 2"
    by code_simp+
  have h: "take 2 (drop 2 ?dst) = write_packno 300 1" "unat (?dst ! 0 AND 3) = 1" "2 + 4 \<le> length ?dst"
    by code_simp+
  have "apply_hp_immediately ?g False ?dst 2 2 \<noteq> ?dst" by code_simp
  moreover have "strip_hp False (Some 255) (?g (take 16 (drop (2 + 4) (apply_hp_immediately ?g False ?dst 2 2))))
      (apply_hp_immediately ?g False ?dst 2 2) 2 = (?dst, 2, 300)"
    by (rule header_protection_roundtrip [OF _ _ _ _ _ _ _ b(1) [symmetric] b(2) [symmetric] _ h(3,2,1) refl])
      simp_all
  ultimately show ?thesis unfolding Let_def by (rule conjI)
qed

end
