(* ===== verification/Frames.thy ===== *)
theory Frames
  imports Varint "HOL-Library.Monad_Syntax"
begin

text \<open>
  The control frames of \<^verbatim>\<open>lsquic_parse_ietf_v1.c\<close> and the frame type table of
  \<^verbatim>\<open>lsquic_parse_iquic_common.c\<close>.  A generator takes the space in the output buffer and
  returns the bytes it writes, or \<^const>\<open>None\<close> where the C function returns \<^verbatim>\<open>-1\<close>; a
  parser takes the rest of the packet and returns the number of bytes used and the
  fields.  A parser with two error codes returns the code on the left of a sum.
\<close>

section \<open>Cursor primitives\<close>

text \<open>\<^verbatim>\<open>r = vint_read(p, end, &v); if (r < 0) return -1; p += r;\<close>\<close>

definition vread :: "bytes \<Rightarrow> (u64 \<times> bytes) option" where
  "vread p = (case lsquic_varint_read p of None \<Rightarrow> None | Some (r, v) \<Rightarrow> Some (v, drop r p))"

text \<open>\<^verbatim>\<open>bits = vint_val2bits(v); vint_write(p, v, bits, 1 << bits); p += 1 << bits;\<close>\<close>

definition vwrite :: "u64 \<Rightarrow> bytes" where
  "vwrite v = vint_write v (vint_val2bits v) (2 ^ vint_val2bits v)"

text \<open>The memory image of a \<^verbatim>\<open>uint64_t\<close> on a little-endian host, for plain \<^verbatim>\<open>memcpy\<close>.\<close>

definition host_bytes :: "u64 \<Rightarrow> bytes" where
  "host_bytes v = rev (be_bytes 8 v)"

definition host_read :: "bytes \<Rightarrow> u64" where
  "host_read bs = be_read (rev bs)"

section \<open>Frame types\<close>

datatype quic_frame_type =
    QUIC_FRAME_INVALID | QUIC_FRAME_STREAM | QUIC_FRAME_ACK | QUIC_FRAME_PADDING
  | QUIC_FRAME_RST_STREAM | QUIC_FRAME_CONNECTION_CLOSE | QUIC_FRAME_GOAWAY
  | QUIC_FRAME_WINDOW_UPDATE | QUIC_FRAME_BLOCKED | QUIC_FRAME_STOP_WAITING | QUIC_FRAME_PING
  | QUIC_FRAME_MAX_DATA | QUIC_FRAME_MAX_STREAM_DATA | QUIC_FRAME_MAX_STREAMS
  | QUIC_FRAME_STREAM_BLOCKED | QUIC_FRAME_STREAMS_BLOCKED | QUIC_FRAME_NEW_CONNECTION_ID
  | QUIC_FRAME_STOP_SENDING | QUIC_FRAME_PATH_CHALLENGE | QUIC_FRAME_PATH_RESPONSE
  | QUIC_FRAME_CRYPTO | QUIC_FRAME_RETIRE_CONNECTION_ID | QUIC_FRAME_NEW_TOKEN
  | QUIC_FRAME_HANDSHAKE_DONE | QUIC_FRAME_ACK_FREQUENCY | QUIC_FRAME_TIMESTAMP
  | QUIC_FRAME_DATAGRAM

definition lsquic_iquic_byte2type :: "quic_frame_type list" where
  "lsquic_iquic_byte2type =
     [QUIC_FRAME_PADDING, QUIC_FRAME_PING, QUIC_FRAME_ACK, QUIC_FRAME_ACK,
      QUIC_FRAME_RST_STREAM, QUIC_FRAME_STOP_SENDING, QUIC_FRAME_CRYPTO, QUIC_FRAME_NEW_TOKEN,
      QUIC_FRAME_STREAM, QUIC_FRAME_STREAM, QUIC_FRAME_STREAM, QUIC_FRAME_STREAM,
      QUIC_FRAME_STREAM, QUIC_FRAME_STREAM, QUIC_FRAME_STREAM, QUIC_FRAME_STREAM,
      QUIC_FRAME_MAX_DATA, QUIC_FRAME_MAX_STREAM_DATA, QUIC_FRAME_MAX_STREAMS, QUIC_FRAME_MAX_STREAMS,
      QUIC_FRAME_BLOCKED, QUIC_FRAME_STREAM_BLOCKED, QUIC_FRAME_STREAMS_BLOCKED, QUIC_FRAME_STREAMS_BLOCKED,
      QUIC_FRAME_NEW_CONNECTION_ID, QUIC_FRAME_RETIRE_CONNECTION_ID,
      QUIC_FRAME_PATH_CHALLENGE, QUIC_FRAME_PATH_RESPONSE,
      QUIC_FRAME_CONNECTION_CLOSE, QUIC_FRAME_CONNECTION_CLOSE, QUIC_FRAME_HANDSHAKE_DONE]
     @ replicate 17 QUIC_FRAME_INVALID
     @ [QUIC_FRAME_DATAGRAM, QUIC_FRAME_DATAGRAM]
     @ replicate 14 QUIC_FRAME_INVALID"

definition FRAME_TYPE_ACK_FREQUENCY :: u64 where "FRAME_TYPE_ACK_FREQUENCY = 0xAF"
definition FRAME_TYPE_TIMESTAMP :: u64 where "FRAME_TYPE_TIMESTAMP = 0x2F5"

definition ietf_v1_parse_frame_type :: "bytes \<Rightarrow> quic_frame_type" where
  "ietf_v1_parse_frame_type buf =
     (if length buf > 0 \<and> buf ! 0 < 0x40 then lsquic_iquic_byte2type ! unat (buf ! 0)
      else case lsquic_varint_read buf of
        None \<Rightarrow> QUIC_FRAME_INVALID
      | Some (s, val) \<Rightarrow>
          (if s > 0 \<and> s = 2 ^ vint_val2bits val then
             if val = FRAME_TYPE_ACK_FREQUENCY then QUIC_FRAME_ACK_FREQUENCY
             else if val = FRAME_TYPE_TIMESTAMP then QUIC_FRAME_TIMESTAMP
             else QUIC_FRAME_INVALID
           else QUIC_FRAME_INVALID))"

section \<open>RESET_STREAM, STOP_SENDING, NEW_TOKEN, PING\<close>

definition ietf_v1_rst_frame_size :: "u64 \<Rightarrow> u64 \<Rightarrow> u64 \<Rightarrow> nat" where
  "ietf_v1_rst_frame_size stream_id error_code final_size =
     1 + vint_size stream_id + vint_size error_code + vint_size final_size"

definition ietf_v1_gen_rst_frame :: "nat \<Rightarrow> u64 \<Rightarrow> u64 \<Rightarrow> u64 \<Rightarrow> bytes option" where
  "ietf_v1_gen_rst_frame buf_len stream_id final_size error_code =
     (if buf_len < ietf_v1_rst_frame_size stream_id error_code final_size then None
      else Some ([0x04] @ vwrite stream_id @ vwrite error_code @ vwrite final_size))"

definition ietf_v1_parse_rst_frame :: "bytes \<Rightarrow> (nat \<times> u64 \<times> u64 \<times> u64) option" where
  "ietf_v1_parse_rst_frame buf = do {
     (stream_id, p) \<leftarrow> vread (drop 1 buf);
     (error_code, p) \<leftarrow> vread p;
     (final_size, p) \<leftarrow> vread p;
     Some (length buf - length p, stream_id, final_size, error_code) }"

definition ietf_v1_parse_stop_sending_frame :: "bytes \<Rightarrow> (nat \<times> u64 \<times> u64) option" where
  "ietf_v1_parse_stop_sending_frame buf = do {
     (stream_id, p) \<leftarrow> vread (drop 1 buf);
     (error_code, p) \<leftarrow> vread p;
     Some (length buf - length p, stream_id, error_code) }"

definition ietf_v1_two_varints_size :: "u64 \<Rightarrow> u64 \<Rightarrow> nat" where
  "ietf_v1_two_varints_size val0 val1 = 1 + 2 ^ vint_val2bits val0 + 2 ^ vint_val2bits val1"

definition ietf_v1_gen_two_varints :: "nat \<Rightarrow> u8 \<Rightarrow> u64 \<Rightarrow> u64 \<Rightarrow> bytes option" where
  "ietf_v1_gen_two_varints len type val0 val1 =
     (if 1 + 2 ^ vint_val2bits val0 + 2 ^ vint_val2bits val1 > len then None
      else Some ([type] @ vwrite val0 @ vwrite val1))"

definition ietf_v1_parse_two_varints :: "bytes \<Rightarrow> (nat \<times> u64 \<times> u64) option" where
  "ietf_v1_parse_two_varints buf =
     (if length buf < 2 then None
      else do {
        (val0, p) \<leftarrow> vread (drop 1 buf);
        (val1, p) \<leftarrow> vread p;
        Some (length buf - length p, val0, val1) })"

definition ietf_v1_gen_stop_sending_frame :: "nat \<Rightarrow> u64 \<Rightarrow> u64 \<Rightarrow> bytes option" where
  "ietf_v1_gen_stop_sending_frame len stream_id error_code =
     ietf_v1_gen_two_varints len 0x05 stream_id error_code"

definition ietf_v1_stop_sending_frame_size :: "u64 \<Rightarrow> u64 \<Rightarrow> nat" where
  "ietf_v1_stop_sending_frame_size val error_code = 1 + vint_size val + vint_size error_code"

definition ietf_v1_new_token_frame_size :: "nat \<Rightarrow> nat" where
  "ietf_v1_new_token_frame_size token_sz = 1 + 2 ^ vint_val2bits (of_nat token_sz) + token_sz"

definition ietf_v1_gen_new_token_frame :: "nat \<Rightarrow> bytes \<Rightarrow> bytes option" where
  "ietf_v1_gen_new_token_frame buf_sz token =
     (let token_sz = length token in
      if buf_sz < 1 + 2 ^ vint_val2bits (of_nat token_sz) + token_sz then None
      else Some ([0x07] @ vwrite (of_nat token_sz) @ token))"

definition ietf_v1_parse_new_token_frame :: "bytes \<Rightarrow> (nat \<times> bytes) option" where
  "ietf_v1_parse_new_token_frame buf = do {
     (token_size, p) \<leftarrow> vread (drop 1 buf);
     if unat token_size > length p then None
     else Some (length buf - length (drop (unat token_size) p), take (unat token_size) p) }"

definition ietf_v1_gen_ping_frame :: "nat \<Rightarrow> bytes option" where
  "ietf_v1_gen_ping_frame buf_len = (if buf_len > 0 then Some [0x01] else None)"

section \<open>CONNECTION_CLOSE\<close>

definition ietf_v1_connect_close_frame_size :: "bool \<Rightarrow> u32 \<Rightarrow> u32 \<Rightarrow> nat \<Rightarrow> nat" where
  "ietf_v1_connect_close_frame_size app_error error_code frame_type reason_len =
     1 + 2 ^ vint_val2bits (ucast error_code)
       + (if app_error then 0 else 2 ^ vint_val2bits (ucast frame_type))
       + 2 ^ vint_val2bits (of_nat reason_len) + reason_len"

definition ietf_v1_gen_connect_close_frame :: "nat \<Rightarrow> bool \<Rightarrow> u32 \<Rightarrow> bytes \<Rightarrow> bytes option" where
  "ietf_v1_gen_connect_close_frame buf_len app_error error_code reason =
     (let reason_len = length reason;
          needed = 1 + 2 ^ vint_val2bits (ucast error_code) + (if app_error then 0 else 1)
                   + 2 ^ vint_val2bits (of_nat reason_len) + reason_len
      in if buf_len < needed then None
         else Some ([0x1C + of_bool app_error] @ vwrite (ucast error_code)
                    @ (if app_error then [] else [0]) @ vwrite (of_nat reason_len) @ reason))"

text \<open>The reason is described by its length and its offset from the start of the frame (a \<^verbatim>\<open>uint8_t\<close>).\<close>

definition ietf_v1_parse_connect_close_frame :: "bytes \<Rightarrow> int + (nat \<times> bool \<times> u64 \<times> u16 \<times> u8)" where
  "ietf_v1_parse_connect_close_frame buf =
     (case do {
        (error_code, p) \<leftarrow> vread (drop 1 buf);
        p \<leftarrow> (if buf ! 0 = 0x1D then Some p else map_option snd (vread p));
        (len, p) \<leftarrow> vread p;
        if len > 0xFFFF then None else Some (error_code, len, p) }
      of None \<Rightarrow> Inl (-1)
       | Some (error_code, len, p) \<Rightarrow>
           (let off = length buf - length p in
            if length buf < off + unat len then Inl (-2)
            else Inr (off + unat len, buf ! 0 = 0x1D, error_code, ucast len, of_nat off)))"

section \<open>PATH_CHALLENGE and PATH_RESPONSE\<close>

definition ietf_v1_path_chal_frame_size :: nat where
  "ietf_v1_path_chal_frame_size = 1 + 8"

definition ietf_v1_gen_path_chal_frame :: "nat \<Rightarrow> u64 \<Rightarrow> bytes option" where
  "ietf_v1_gen_path_chal_frame len chal =
     (if len \<ge> 1 + 8 then Some ([0x1A] @ host_bytes chal) else None)"

definition ietf_v1_parse_path_chal_frame :: "bytes \<Rightarrow> (nat \<times> u64) option" where
  "ietf_v1_parse_path_chal_frame buf =
     (if length buf \<ge> 9 then Some (9, host_read (take 8 (drop 1 buf))) else None)"

definition ietf_v1_path_resp_frame_size :: nat where
  "ietf_v1_path_resp_frame_size = 1 + 8"

definition ietf_v1_gen_path_resp_frame :: "nat \<Rightarrow> u64 \<Rightarrow> bytes option" where
  "ietf_v1_gen_path_resp_frame len resp =
     (if len \<ge> 1 + 8 then Some ([0x1B] @ host_bytes resp) else None)"

definition ietf_v1_parse_path_resp_frame :: "bytes \<Rightarrow> (nat \<times> u64) option" where
  "ietf_v1_parse_path_resp_frame buf = ietf_v1_parse_path_chal_frame buf"

section \<open>Frames with one integer\<close>

definition ietf_v1_parse_one_varint :: "bytes \<Rightarrow> (nat \<times> u64) option" where
  "ietf_v1_parse_one_varint buf =
     (case lsquic_varint_read (drop 1 buf) of
        Some (s, val) \<Rightarrow> Some (1 + s, val)
      | None \<Rightarrow> None)"

definition ietf_v1_gen_one_varint :: "nat \<Rightarrow> u8 \<Rightarrow> u64 \<Rightarrow> bytes option" where
  "ietf_v1_gen_one_varint len type val =
     (if 1 + 2 ^ vint_val2bits val > len then None else Some ([type] @ vwrite val))"

definition ietf_v1_gen_blocked_frame :: "nat \<Rightarrow> u64 \<Rightarrow> bytes option" where
  "ietf_v1_gen_blocked_frame buf_len off = ietf_v1_gen_one_varint buf_len 0x14 off"

definition ietf_v1_parse_blocked_frame :: "bytes \<Rightarrow> (nat \<times> u64) option" where
  "ietf_v1_parse_blocked_frame buf = ietf_v1_parse_one_varint buf"

definition ietf_v1_blocked_frame_size :: "u64 \<Rightarrow> nat" where
  "ietf_v1_blocked_frame_size off = 1 + vint_size off"

definition ietf_v1_parse_max_data :: "bytes \<Rightarrow> (nat \<times> u64) option" where
  "ietf_v1_parse_max_data buf = ietf_v1_parse_one_varint buf"

definition ietf_v1_gen_max_data_frame :: "nat \<Rightarrow> u64 \<Rightarrow> bytes option" where
  "ietf_v1_gen_max_data_frame len val = ietf_v1_gen_one_varint len 0x10 val"

definition ietf_v1_max_data_frame_size :: "u64 \<Rightarrow> nat" where
  "ietf_v1_max_data_frame_size val = 1 + vint_size val"

definition ietf_v1_parse_retire_cid_frame :: "bytes \<Rightarrow> (nat \<times> u64) option" where
  "ietf_v1_parse_retire_cid_frame buf = ietf_v1_parse_one_varint buf"

definition ietf_v1_gen_retire_cid_frame :: "nat \<Rightarrow> u64 \<Rightarrow> bytes option" where
  "ietf_v1_gen_retire_cid_frame len val = ietf_v1_gen_one_varint len 0x19 val"

definition ietf_v1_retire_cid_frame_size :: "u64 \<Rightarrow> nat" where
  "ietf_v1_retire_cid_frame_size val = 1 + vint_size val"

datatype stream_dir = SD_BIDI | SD_UNI

definition ietf_v1_gen_streams_blocked_frame :: "nat \<Rightarrow> stream_dir \<Rightarrow> u64 \<Rightarrow> bytes option" where
  "ietf_v1_gen_streams_blocked_frame len sd limit =
     ietf_v1_gen_one_varint len (0x16 + of_bool (sd = SD_UNI)) limit"

definition ietf_v1_parse_streams_blocked_frame :: "bytes \<Rightarrow> (nat \<times> stream_dir \<times> u64) option" where
  "ietf_v1_parse_streams_blocked_frame buf =
     (case ietf_v1_parse_one_varint buf of
        Some (s, limit) \<Rightarrow> Some (s, if buf ! 0 = 0x16 then SD_BIDI else SD_UNI, limit)
      | None \<Rightarrow> None)"

definition ietf_v1_streams_blocked_frame_size :: "u64 \<Rightarrow> nat" where
  "ietf_v1_streams_blocked_frame_size limit = 1 + vint_size limit"

definition ietf_v1_parse_max_streams_frame :: "bytes \<Rightarrow> (nat \<times> stream_dir \<times> u64) option" where
  "ietf_v1_parse_max_streams_frame buf =
     (case ietf_v1_parse_one_varint buf of
        Some (s, max_streams) \<Rightarrow> Some (s, if buf ! 0 = 0x12 then SD_BIDI else SD_UNI, max_streams)
      | None \<Rightarrow> None)"

definition ietf_v1_gen_max_streams_frame :: "nat \<Rightarrow> stream_dir \<Rightarrow> u64 \<Rightarrow> bytes option" where
  "ietf_v1_gen_max_streams_frame len sd limit =
     ietf_v1_gen_one_varint len (0x12 + of_bool (sd = SD_UNI)) limit"

definition ietf_v1_max_streams_frame_size :: "u64 \<Rightarrow> nat" where
  "ietf_v1_max_streams_frame_size limit = 1 + vint_size limit"

section \<open>Frames with two integers\<close>

definition ietf_v1_parse_stream_blocked_frame :: "bytes \<Rightarrow> (nat \<times> u64 \<times> u64) option" where
  "ietf_v1_parse_stream_blocked_frame buf = ietf_v1_parse_two_varints buf"

definition ietf_v1_stream_blocked_frame_size :: "u64 \<Rightarrow> u64 \<Rightarrow> nat" where
  "ietf_v1_stream_blocked_frame_size stream_id off = ietf_v1_two_varints_size stream_id off"

definition ietf_v1_gen_stream_blocked_frame :: "nat \<Rightarrow> u64 \<Rightarrow> u64 \<Rightarrow> bytes option" where
  "ietf_v1_gen_stream_blocked_frame len stream_id off = ietf_v1_gen_two_varints len 0x15 stream_id off"

definition ietf_v1_gen_max_stream_data_frame :: "nat \<Rightarrow> u64 \<Rightarrow> u64 \<Rightarrow> bytes option" where
  "ietf_v1_gen_max_stream_data_frame len stream_id off = ietf_v1_gen_two_varints len 0x11 stream_id off"

definition ietf_v1_max_stream_data_frame_size :: "u64 \<Rightarrow> u64 \<Rightarrow> nat" where
  "ietf_v1_max_stream_data_frame_size stream_id off = ietf_v1_two_varints_size stream_id off"

definition ietf_v1_parse_max_stream_data_frame :: "bytes \<Rightarrow> (nat \<times> u64 \<times> u64) option" where
  "ietf_v1_parse_max_stream_data_frame buf = ietf_v1_parse_two_varints buf"

section \<open>NEW_CONNECTION_ID\<close>

definition MAX_CID_LEN :: nat where "MAX_CID_LEN = 20"
definition IQUIC_SRESET_TOKEN_SZ :: nat where "IQUIC_SRESET_TOKEN_SZ = 16"

definition ietf_v1_parse_new_conn_id :: "bytes \<Rightarrow> int + (nat \<times> u64 \<times> u64 \<times> bytes \<times> bytes)" where
  "ietf_v1_parse_new_conn_id buf =
     (case do { (seqno, p) \<leftarrow> vread (drop 1 buf); (retire_prior_to, p) \<leftarrow> vread p; Some (seqno, retire_prior_to, p) }
      of None \<Rightarrow> Inl (-1)
       | Some (seqno, retire_prior_to, p) \<Rightarrow>
           (if p = [] then Inl (-1)
            else let cid_len = unat (p ! 0); p = drop 1 p in
              if cid_len = 0 \<or> cid_len > MAX_CID_LEN then Inl (-2)
              else if length p < cid_len + IQUIC_SRESET_TOKEN_SZ then Inl (-1)
              else let cid = take cid_len p; p = drop cid_len p;
                       reset_token = take IQUIC_SRESET_TOKEN_SZ p; p = drop IQUIC_SRESET_TOKEN_SZ p
                   in Inr (length buf - length p, seqno, retire_prior_to, cid, reset_token)))"

definition ietf_v1_new_connection_id_frame_size :: "u32 \<Rightarrow> nat \<Rightarrow> nat" where
  "ietf_v1_new_connection_id_frame_size seqno scid_len =
     1 + 2 ^ vint_val2bits (ucast seqno) + 1 + 1 + scid_len + IQUIC_SRESET_TOKEN_SZ"

definition ietf_v1_gen_new_connection_id_frame :: "nat \<Rightarrow> u32 \<Rightarrow> bytes \<Rightarrow> bytes \<Rightarrow> bytes option" where
  "ietf_v1_gen_new_connection_id_frame buf_sz seqno cid token =
     (if buf_sz < ietf_v1_new_connection_id_frame_size seqno (length cid) then None
      else Some ([0x18] @ vwrite (ucast seqno) @ [0] @ [of_nat (length cid)] @ cid @ token))"

section \<open>HANDSHAKE_DONE and the extension frames\<close>

definition ietf_v1_gen_handshake_done_frame :: "nat \<Rightarrow> bytes option" where
  "ietf_v1_gen_handshake_done_frame buf_len = (if buf_len > 0 then Some [0x1E] else None)"

text \<open>The parser asserts that the frame type is there.\<close>

definition ietf_v1_parse_handshake_done_frame :: "bytes \<Rightarrow> nat option" where
  "ietf_v1_parse_handshake_done_frame buf = (if buf \<noteq> [] \<and> buf ! 0 = 0x1E then Some 1 else None)"

definition ietf_v1_handshake_done_frame_size :: nat where
  "ietf_v1_handshake_done_frame_size = 1"

text \<open>The first value is the frame type; the loop of the size function runs from the last value down.\<close>

definition ietf_v1_frame_with_varints_size :: "u64 list \<Rightarrow> nat" where
  "ietf_v1_frame_with_varints_size vals =
     fold (\<lambda>val size. size + 2 ^ vint_val2bits val) (rev (tl vals)) (2 ^ vint_val2bits (hd vals))"

definition ietf_v1_gen_frame_with_varints :: "nat \<Rightarrow> u64 list \<Rightarrow> bytes option" where
  "ietf_v1_gen_frame_with_varints len vals =
     (if ietf_v1_frame_with_varints_size vals > len then None
      else Some (fold (\<lambda>val p. p @ vwrite val) vals []))"

fun vreads :: "nat \<Rightarrow> bytes \<Rightarrow> (u64 list \<times> bytes) option" where
  "vreads 0 p = Some ([], p)"
| "vreads (Suc n) p = do { (val, p) \<leftarrow> vread p; (vals, p) \<leftarrow> vreads n p; Some (val # vals, p) }"

definition ietf_v1_parse_frame_with_varints :: "bytes \<Rightarrow> u64 \<Rightarrow> nat \<Rightarrow> (nat \<times> u64 list) option" where
  "ietf_v1_parse_frame_with_varints buf frame_type count = do {
     (vals, p) \<leftarrow> vreads count (drop (2 ^ vint_val2bits frame_type) buf);
     Some (length buf - length p, vals) }"

definition ietf_v1_gen_ack_frequency_frame :: "nat \<Rightarrow> u64 \<Rightarrow> u64 \<Rightarrow> u64 \<Rightarrow> bool \<Rightarrow> bytes option" where
  "ietf_v1_gen_ack_frequency_frame buf_len seqno pack_tol upd_mad ignore =
     (case ietf_v1_gen_frame_with_varints buf_len [FRAME_TYPE_ACK_FREQUENCY, seqno, pack_tol, upd_mad] of
        None \<Rightarrow> None
      | Some buf \<Rightarrow> if length buf > 0 \<and> length buf < buf_len then Some (buf @ [of_bool ignore]) else None)"

definition ietf_v1_parse_ack_frequency_frame :: "bytes \<Rightarrow> (nat \<times> u64 \<times> u64 \<times> u64 \<times> bool) option" where
  "ietf_v1_parse_ack_frequency_frame buf = do {
     (sz, vals) \<leftarrow> ietf_v1_parse_frame_with_varints buf FRAME_TYPE_ACK_FREQUENCY 3;
     if sz > 0 \<and> sz < length buf \<and> buf ! sz < 2
     then Some (sz + 1, vals ! 0, vals ! 1, vals ! 2, buf ! sz \<noteq> 0) else None }"

definition ietf_v1_ack_frequency_frame_size :: "u64 \<Rightarrow> u64 \<Rightarrow> u64 \<Rightarrow> nat" where
  "ietf_v1_ack_frequency_frame_size seqno pack_tol upd_mad =
     1 + ietf_v1_frame_with_varints_size [FRAME_TYPE_ACK_FREQUENCY, seqno, pack_tol, upd_mad]"

definition ietf_v1_gen_timestamp_frame :: "nat \<Rightarrow> u64 \<Rightarrow> bytes option" where
  "ietf_v1_gen_timestamp_frame buf_len timestamp =
     ietf_v1_gen_frame_with_varints buf_len [FRAME_TYPE_TIMESTAMP, timestamp]"

definition ietf_v1_parse_timestamp_frame :: "bytes \<Rightarrow> (nat \<times> u64) option" where
  "ietf_v1_parse_timestamp_frame buf = do {
     (sz, vals) \<leftarrow> ietf_v1_parse_frame_with_varints buf FRAME_TYPE_TIMESTAMP 1;
     Some (sz, vals ! 0) }"

section \<open>Cursor lemmas\<close>

named_theorems frame_defs
named_theorems frame_simps

definition vint_ok :: "u64 \<Rightarrow> bool" where
  "vint_ok v \<longleftrightarrow> v \<le> VINT_MAX_VALUE"

lemma vint_ok_nat: "vint_ok v \<longleftrightarrow> unat v < 4611686018427387904"
  unfolding vint_ok_def VINT_MAX_VALUE_def word_le_nat_alt by auto

lemma length_vwrite [frame_simps]: "length (vwrite v) = vint_size v"
  using vint_val2bits_le [of v] power_increasing [of "vint_val2bits v" 3 "2::nat"]
  by (simp add: vwrite_def vint_size_def)

lemma vint_size_pow [frame_simps]: "2 ^ vint_val2bits v = vint_size v"
  by (simp add: vint_size_def)

lemma vint_size_pos [simp]: "0 < vint_size v" "Suc 0 \<le> vint_size v" "vint_size v \<noteq> 0"
  by (simp_all add: vint_size_def Suc_le_eq)

lemma varint_read_vwrite:
  "vint_ok v \<Longrightarrow> lsquic_varint_read (vwrite v @ rest) = Some (vint_size v, v)"
  unfolding vwrite_def vint_size_def
  by (intro varint_read_write vint_val2bits_le vint_val2bits_fits) (simp add: vint_ok_nat)

lemma vread_vwrite [frame_simps]: "vint_ok v \<Longrightarrow> vread (vwrite v @ rest) = Some (v, rest)"
  by (simp add: vread_def varint_read_vwrite length_vwrite)

lemma vread_vwrite_Nil [frame_simps]: "vint_ok v \<Longrightarrow> vread (vwrite v) = Some (v, [])"
  using vread_vwrite [of v "[]"] by simp

lemma vread_small [frame_simps]: "b < 64 \<Longrightarrow> vread (b # rest) = Some (ucast b, rest)"
proof -
  assume "b < 64"
  then have "unat b div 64 = 0" by (simp add: word_less_nat_alt)
  then have "unat (drop_bit 6 b) = 0" by (simp add: unat_div drop_bit_eq_div)
  then show ?thesis by (simp add: vread_def lsquic_varint_read_def)
qed

lemma vint_ok_ucast [frame_simps]: "vint_ok (ucast (v :: u32))"
  using unat_lt_exp [of 62 v] by (simp add: vint_ok_nat unat_ucast_up)

lemma vint_ok_of_nat [frame_simps]: "n < 4611686018427387904 \<Longrightarrow> vint_ok (of_nat n)"
  by (simp add: vint_ok_nat unat_of_nat)

lemma unat_of_nat_vint [frame_simps]: "n < 4611686018427387904 \<Longrightarrow> unat (of_nat n :: u64) = n"
  by (simp add: unat_of_nat)

lemma length_host_bytes [frame_simps]: "length (host_bytes v) = 8"
  by (simp add: host_bytes_def)

lemma host_read_bytes [frame_simps]: "host_read (host_bytes v) = v"
  by (simp add: host_read_def host_bytes_def be_read_be_bytes take_bit_word_eq_self)

lemma vread_shorter: "vread p = Some (v, q) \<Longrightarrow> length q < length p"
  by (auto simp: vread_def dest: lsquic_varint_read_len split: option.splits)

text \<open>The table is consulted for one-byte types only.\<close>

lemma frame_type_byte [frame_simps]:
  "b < 64 \<Longrightarrow> ietf_v1_parse_frame_type (b # rest) = lsquic_iquic_byte2type ! unat b"
  by (simp add: ietf_v1_parse_frame_type_def)

lemma frame_type_long [frame_simps]:
  "vint_ok v \<Longrightarrow> 64 \<le> v \<Longrightarrow> ietf_v1_parse_frame_type (vwrite v @ rest) =
     (if v = FRAME_TYPE_ACK_FREQUENCY then QUIC_FRAME_ACK_FREQUENCY
      else if v = FRAME_TYPE_TIMESTAMP then QUIC_FRAME_TIMESTAMP else QUIC_FRAME_INVALID)"
proof -
  assume v: "vint_ok v" "64 \<le> v"
  have "vint_size v \<noteq> 1" using v(2) by (simp add: vint_size_def vint_val2bits_nat word_le_nat_alt)
  then have "\<not> (vwrite v @ rest) ! 0 < 64"
  proof (rule contrapos_nn)
    assume "(vwrite v @ rest) ! 0 < 64"
    then have "lsquic_varint_read (vwrite v @ rest) = Some (1, ucast ((vwrite v @ rest) ! 0))"
      using vread_small [of "(vwrite v @ rest) ! 0" "drop 1 (vwrite v @ rest)"] length_vwrite [of v]
      by (auto simp: lsquic_varint_read_def unat_div drop_bit_eq_div word_less_nat_alt)
    then show "vint_size v = 1" using varint_read_vwrite [OF v(1)] by simp
  qed
  then show ?thesis
    using varint_read_vwrite [OF v(1), of rest]
    by (simp add: ietf_v1_parse_frame_type_def vint_size_pow)
qed

section \<open>The frame codec contract\<close>

text \<open>
  What the users of the \<^verbatim>\<open>parse_funcs\<close> table rely on: the size function announces the
  space the generator needs and uses, the parser gives the fields back whatever
  follows the frame, and the frame type is recognised.
\<close>

locale frame_codec =
  fixes gen :: "nat \<Rightarrow> 'a \<Rightarrow> bytes option"
    and parse :: "bytes \<Rightarrow> (nat \<times> 'a) option"
    and size :: "'a \<Rightarrow> nat"
    and valid :: "'a \<Rightarrow> bool"
    and ftype :: "'a \<Rightarrow> quic_frame_type"
  assumes size_pos: "0 < size a"
    and gen_none: "valid a \<Longrightarrow> gen n a = None \<longleftrightarrow> n < size a"
    and gen_len: "valid a \<Longrightarrow> gen n a = Some fr \<Longrightarrow> length fr = size a"
    and parse_gen: "valid a \<Longrightarrow> gen n a = Some fr \<Longrightarrow> parse (fr @ rest) = Some (size a, a)"
    and gen_type: "valid a \<Longrightarrow> gen n a = Some fr \<Longrightarrow> ietf_v1_parse_frame_type (fr @ rest) = ftype a"
begin

lemma gen_fits:
  assumes "valid a" "size a \<le> n"
  shows "\<exists>fr. gen n a = Some fr \<and> length fr = size a \<and>
     (\<forall>rest. parse (fr @ rest) = Some (size a, a) \<and> ietf_v1_parse_frame_type (fr @ rest) = ftype a)"
  using assms gen_none [of a n] gen_len [of a n] parse_gen [of a n] gen_type [of a n]
  by (cases "gen n a") auto

lemma gen_inj:
  assumes "valid a" "valid b" "gen n a = Some fr" "gen m b = Some fr"
  shows "a = b"
  using parse_gen [OF assms(1,3), of "[]"] parse_gen [OF assms(2,4), of "[]"] by simp

end

end
