(* ===== verification/Frame_Codecs.thy ===== *)
theory Frame_Codecs
  imports Frames
begin

text \<open>
  The control frames as implementations of the contract \<open>frame_codec\<close>: one
  interpretation per frame of the \<^verbatim>\<open>parse_funcs\<close> table.
\<close>

lemma one_varint_codec:
  assumes "type < 64" "lsquic_iquic_byte2type ! unat type = ftype"
  shows "frame_codec (\<lambda>n. ietf_v1_gen_one_varint n type) ietf_v1_parse_one_varint
    (\<lambda>v. 1 + vint_size v) vint_ok (\<lambda>_. ftype)"
  using assms
  by unfold_locales
    (auto simp: ietf_v1_gen_one_varint_def ietf_v1_parse_one_varint_def varint_read_vwrite
       frame_simps split: if_splits)

lemma two_varints_codec:
  assumes "type < 64" "lsquic_iquic_byte2type ! unat type = ftype"
  shows "frame_codec (\<lambda>n (v, w). ietf_v1_gen_two_varints n type v w) ietf_v1_parse_two_varints
    (\<lambda>(v, w). 1 + vint_size v + vint_size w) (\<lambda>(v, w). vint_ok v \<and> vint_ok w) (\<lambda>_. ftype)"
  using assms
  by unfold_locales
    (auto simp: ietf_v1_gen_two_varints_def ietf_v1_parse_two_varints_def
       frame_simps split: if_splits)

interpretation blocked: frame_codec ietf_v1_gen_blocked_frame ietf_v1_parse_blocked_frame
  ietf_v1_blocked_frame_size vint_ok "\<lambda>_. QUIC_FRAME_BLOCKED"
  unfolding ietf_v1_gen_blocked_frame_def [abs_def] ietf_v1_parse_blocked_frame_def [abs_def] ietf_v1_blocked_frame_size_def [abs_def]
  by (rule one_varint_codec) (simp_all add: lsquic_iquic_byte2type_def)

interpretation max_data: frame_codec ietf_v1_gen_max_data_frame ietf_v1_parse_max_data
  ietf_v1_max_data_frame_size vint_ok "\<lambda>_. QUIC_FRAME_MAX_DATA"
  unfolding ietf_v1_gen_max_data_frame_def [abs_def] ietf_v1_parse_max_data_def [abs_def] ietf_v1_max_data_frame_size_def [abs_def]
  by (rule one_varint_codec) (simp_all add: lsquic_iquic_byte2type_def)

interpretation retire_cid: frame_codec ietf_v1_gen_retire_cid_frame ietf_v1_parse_retire_cid_frame
  ietf_v1_retire_cid_frame_size vint_ok "\<lambda>_. QUIC_FRAME_RETIRE_CONNECTION_ID"
  unfolding ietf_v1_gen_retire_cid_frame_def [abs_def] ietf_v1_parse_retire_cid_frame_def [abs_def] ietf_v1_retire_cid_frame_size_def [abs_def]
  by (rule one_varint_codec) (simp_all add: lsquic_iquic_byte2type_def)

interpretation stream_blocked: frame_codec
  "\<lambda>n (id, off). ietf_v1_gen_stream_blocked_frame n id off" ietf_v1_parse_stream_blocked_frame
  "\<lambda>(id, off). ietf_v1_stream_blocked_frame_size id off" "\<lambda>(v, w). vint_ok v \<and> vint_ok w"
  "\<lambda>_. QUIC_FRAME_STREAM_BLOCKED"
  unfolding ietf_v1_gen_stream_blocked_frame_def [abs_def] ietf_v1_parse_stream_blocked_frame_def [abs_def]
    ietf_v1_stream_blocked_frame_size_def ietf_v1_two_varints_size_def vint_size_pow
  by (rule two_varints_codec) (simp_all add: lsquic_iquic_byte2type_def)

interpretation max_stream_data: frame_codec
  "\<lambda>n (id, off). ietf_v1_gen_max_stream_data_frame n id off" ietf_v1_parse_max_stream_data_frame
  "\<lambda>(id, off). ietf_v1_max_stream_data_frame_size id off" "\<lambda>(v, w). vint_ok v \<and> vint_ok w"
  "\<lambda>_. QUIC_FRAME_MAX_STREAM_DATA"
  unfolding ietf_v1_gen_max_stream_data_frame_def [abs_def] ietf_v1_parse_max_stream_data_frame_def [abs_def]
    ietf_v1_max_stream_data_frame_size_def ietf_v1_two_varints_size_def vint_size_pow
  by (rule two_varints_codec) (simp_all add: lsquic_iquic_byte2type_def)

lemma stop_sending_two:
  "buf \<noteq> [] \<Longrightarrow> ietf_v1_parse_stop_sending_frame buf = ietf_v1_parse_two_varints buf"
  by (cases buf rule: remdups_adj.cases)
    (auto simp: ietf_v1_parse_stop_sending_frame_def ietf_v1_parse_two_varints_def vread_def)

interpretation stop_sending: frame_codec
  "\<lambda>n (id, code). ietf_v1_gen_stop_sending_frame n id code" ietf_v1_parse_stop_sending_frame
  "\<lambda>(id, code). ietf_v1_stop_sending_frame_size id code" "\<lambda>(v, w). vint_ok v \<and> vint_ok w"
  "\<lambda>_. QUIC_FRAME_STOP_SENDING"
  by unfold_locales
    (auto simp: ietf_v1_gen_stop_sending_frame_def ietf_v1_gen_two_varints_def ietf_v1_parse_stop_sending_frame_def
       ietf_v1_stop_sending_frame_size_def frame_simps lsquic_iquic_byte2type_def split: if_splits)

interpretation rst: frame_codec
  "\<lambda>n (id, final_size, code). ietf_v1_gen_rst_frame n id final_size code" ietf_v1_parse_rst_frame
  "\<lambda>(id, final_size, code). ietf_v1_rst_frame_size id code final_size"
  "\<lambda>(u, v, w). vint_ok u \<and> vint_ok v \<and> vint_ok w" "\<lambda>_. QUIC_FRAME_RST_STREAM"
  by unfold_locales
    (auto simp: ietf_v1_gen_rst_frame_def ietf_v1_parse_rst_frame_def
       ietf_v1_rst_frame_size_def frame_simps lsquic_iquic_byte2type_def split: if_splits)


lemma ucast_back [frame_simps]: "ucast (ucast (a :: u32) :: u64) = a"
  by (rule bit_word_eqI) (auto simp: bit_simps)

lemma dir_types:
  "(0x16 + of_bool (sd = SD_UNI) :: u8) < 64" "(0x12 + of_bool (sd = SD_UNI) :: u8) < 64"
  "lsquic_iquic_byte2type ! unat (0x16 + of_bool (sd = SD_UNI) :: u8) = QUIC_FRAME_STREAMS_BLOCKED"
  "lsquic_iquic_byte2type ! unat (0x12 + of_bool (sd = SD_UNI) :: u8) = QUIC_FRAME_MAX_STREAMS"
  by (cases sd; simp add: lsquic_iquic_byte2type_def)+

interpretation streams_blocked: frame_codec
  "\<lambda>n (sd, limit). ietf_v1_gen_streams_blocked_frame n sd limit" ietf_v1_parse_streams_blocked_frame
  "\<lambda>(sd, limit). ietf_v1_streams_blocked_frame_size limit" "\<lambda>(sd, limit). vint_ok limit"
  "\<lambda>_. QUIC_FRAME_STREAMS_BLOCKED"
  by unfold_locales
    (auto simp: ietf_v1_gen_streams_blocked_frame_def ietf_v1_gen_one_varint_def varint_read_vwrite dir_types
       ietf_v1_parse_streams_blocked_frame_def ietf_v1_parse_one_varint_def ietf_v1_streams_blocked_frame_size_def
       frame_simps simp del: of_bool_eq_iff split: if_splits, metis stream_dir.exhaust)

interpretation max_streams: frame_codec
  "\<lambda>n (sd, limit). ietf_v1_gen_max_streams_frame n sd limit" ietf_v1_parse_max_streams_frame
  "\<lambda>(sd, limit). ietf_v1_max_streams_frame_size limit" "\<lambda>(sd, limit). vint_ok limit"
  "\<lambda>_. QUIC_FRAME_MAX_STREAMS"
  by unfold_locales
    (auto simp: ietf_v1_gen_max_streams_frame_def ietf_v1_gen_one_varint_def varint_read_vwrite dir_types
       ietf_v1_parse_max_streams_frame_def ietf_v1_parse_one_varint_def ietf_v1_max_streams_frame_size_def
       frame_simps simp del: of_bool_eq_iff split: if_splits, metis stream_dir.exhaust)

interpretation path_chal: frame_codec ietf_v1_gen_path_chal_frame ietf_v1_parse_path_chal_frame
  "\<lambda>_. ietf_v1_path_chal_frame_size" "\<lambda>_. True" "\<lambda>_. QUIC_FRAME_PATH_CHALLENGE"
  by unfold_locales
    (auto simp: ietf_v1_gen_path_chal_frame_def ietf_v1_parse_path_chal_frame_def
       ietf_v1_path_chal_frame_size_def frame_simps lsquic_iquic_byte2type_def split: if_splits)

interpretation path_resp: frame_codec ietf_v1_gen_path_resp_frame ietf_v1_parse_path_resp_frame
  "\<lambda>_. ietf_v1_path_resp_frame_size" "\<lambda>_. True" "\<lambda>_. QUIC_FRAME_PATH_RESPONSE"
  by unfold_locales
    (auto simp: ietf_v1_gen_path_resp_frame_def ietf_v1_parse_path_resp_frame_def ietf_v1_parse_path_chal_frame_def
       ietf_v1_path_resp_frame_size_def frame_simps lsquic_iquic_byte2type_def split: if_splits)

interpretation new_token: frame_codec ietf_v1_gen_new_token_frame ietf_v1_parse_new_token_frame
  "\<lambda>token. ietf_v1_new_token_frame_size (length token)" "\<lambda>token. length token < 4611686018427387904"
  "\<lambda>_. QUIC_FRAME_NEW_TOKEN"
  by unfold_locales
    (auto simp: ietf_v1_gen_new_token_frame_def ietf_v1_parse_new_token_frame_def Let_def
       ietf_v1_new_token_frame_size_def frame_simps lsquic_iquic_byte2type_def split: if_splits)

interpretation handshake_done: frame_codec "\<lambda>n (_ :: unit). ietf_v1_gen_handshake_done_frame n"
  "\<lambda>buf. map_option (\<lambda>n. (n, ())) (ietf_v1_parse_handshake_done_frame buf)"
  "\<lambda>_. ietf_v1_handshake_done_frame_size" "\<lambda>_. True" "\<lambda>_. QUIC_FRAME_HANDSHAKE_DONE"
  by unfold_locales
    (auto simp: ietf_v1_gen_handshake_done_frame_def ietf_v1_parse_handshake_done_frame_def
       ietf_v1_handshake_done_frame_size_def frame_simps lsquic_iquic_byte2type_def split: if_splits)

text \<open>
  Two generators take a narrower argument than the field their parser reads: the sequence number of NEW_CONNECTION_ID
  (whose Retire Prior To is always written as zero) and the error code of CONNECTION_CLOSE are \<^verbatim>\<open>unsigned\<close>.
\<close>

definition is_unsigned :: "u64 \<Rightarrow> bool" where
  "is_unsigned v \<longleftrightarrow> v \<le> 0xFFFFFFFF"

lemma ucast_unsigned [frame_simps]: "is_unsigned v \<Longrightarrow> ucast (ucast v :: u32) = v"
proof -
  assume "is_unsigned v"
  then have "uint v < 2 ^ 32" by (simp add: is_unsigned_def word_le_def)
  then have "uint (ucast (ucast v :: u32) :: u64) = uint v"
    by (simp add: unsigned_ucast_eq unsigned_take_bit_eq take_bit_int_eq_self)
  then show ?thesis by (simp add: word_uint_eq_iff)
qed

lemma unsigned_vint_ok [frame_simps]: "is_unsigned v \<Longrightarrow> vint_ok v"
  by (simp add: is_unsigned_def vint_ok_def VINT_MAX_VALUE_def word_le_nat_alt)

interpretation new_conn_id: frame_codec
  "\<lambda>n (seqno, rpt :: u64, cid, token). ietf_v1_gen_new_connection_id_frame n (ucast seqno) cid token"
  "\<lambda>buf. case ietf_v1_parse_new_conn_id buf of Inl _ \<Rightarrow> None
     | Inr (n, seqno, rpt, cid, token) \<Rightarrow> Some (n, seqno, rpt, cid, token)"
  "\<lambda>(seqno, rpt, cid, token). ietf_v1_new_connection_id_frame_size (ucast seqno) (length cid)"
  "\<lambda>(seqno, rpt, cid, token). is_unsigned seqno \<and> rpt = 0
     \<and> 0 < length cid \<and> length cid \<le> MAX_CID_LEN \<and> length token = IQUIC_SRESET_TOKEN_SZ"
  "\<lambda>_. QUIC_FRAME_NEW_CONNECTION_ID"
  by unfold_locales
    (auto simp: ietf_v1_gen_new_connection_id_frame_def ietf_v1_parse_new_conn_id_def Let_def MAX_CID_LEN_def
       ietf_v1_new_connection_id_frame_size_def frame_simps lsquic_iquic_byte2type_def unat_of_nat split: if_splits)

lemma parse_connect_close_gen:
  assumes "length reason \<le> 65535" "ietf_v1_gen_connect_close_frame n app_error error_code reason = Some fr"
  shows "\<exists>off. ietf_v1_parse_connect_close_frame (fr @ rest)
      = Inr (length fr, app_error, ucast error_code, of_nat (length reason), of_nat off)
    \<and> off + length reason = length fr \<and> off < 256 \<and> drop off fr = reason"
proof -
  define hd where "hd = [0x1C + of_bool app_error] @ vwrite (ucast error_code)
      @ (if app_error then [] else [0]) @ vwrite (of_nat (length reason))"
  have fr: "fr = hd @ reason"
    using assms(2) by (simp add: ietf_v1_gen_connect_close_frame_def Let_def hd_def split: if_splits)
  have hd: "length hd < 256"
    using vint_size_cases [of "ucast error_code"] vint_size_cases [of "of_nat (length reason)"]
    by (auto simp: hd_def frame_simps)
  have len: "unat (of_nat (length reason) :: u64) = length reason" "vint_ok (of_nat (length reason))"
    using assms(1) by (simp_all add: frame_simps)
  have u: "ucast (of_nat (length reason) :: u64) = (of_nat (length reason) :: u16)"
    by (rule bit_word_eqI) (auto simp: bit_simps)
  have "ietf_v1_parse_connect_close_frame (fr @ rest)
      = Inr (length hd + length reason, app_error, ucast error_code, of_nat (length reason), of_nat (length hd))"
    using assms(1) len unfolding fr hd_def
    by (cases app_error) (simp_all add: ietf_v1_parse_connect_close_frame_def frame_simps Let_def u word_less_nat_alt)
  then show ?thesis using hd by (intro exI [of _ "length hd"]) (simp add: fr)
qed

interpretation connect_close: frame_codec
  "\<lambda>n (app_error, error_code, reason). ietf_v1_gen_connect_close_frame n app_error (ucast error_code) reason"
  "\<lambda>buf. case ietf_v1_parse_connect_close_frame buf of Inl _ \<Rightarrow> None
     | Inr (n, app_error, error_code, reason_len, reason_off) \<Rightarrow>
         Some (n, app_error, error_code, take (unat reason_len) (drop (unat reason_off) buf))"
  "\<lambda>(app_error, error_code, reason). ietf_v1_connect_close_frame_size app_error (ucast error_code) 0 (length reason)"
  "\<lambda>(app_error, error_code, reason). is_unsigned error_code \<and> length reason \<le> 65535"
  "\<lambda>_. QUIC_FRAME_CONNECTION_CLOSE"
proof unfold_locales
  fix a :: "bool \<times> u64 \<times> bytes" and n fr rest
  obtain app code reason where a: "a = (app, code, reason)" by (cases a)
  have z: "vint_size 0 = 1" by (simp add: vint_size_def vint_val2bits_nat)
  let ?size = "\<lambda>(app_error, error_code, reason). ietf_v1_connect_close_frame_size app_error (ucast error_code) 0 (length reason)"
  let ?gen = "\<lambda>n (app_error, error_code, reason). ietf_v1_gen_connect_close_frame n app_error (ucast error_code) reason"
  show "0 < ?size a" by (simp add: a ietf_v1_connect_close_frame_size_def)
  assume "case a of (app_error, error_code, reason) \<Rightarrow> is_unsigned error_code \<and> length reason \<le> 65535"
  then have r: "length reason \<le> 65535" and c: "ucast (ucast code :: u32) = code" by (simp_all add: a frame_simps)
  show "?gen n a = None \<longleftrightarrow> n < ?size a"
    by (auto simp: a ietf_v1_gen_connect_close_frame_def ietf_v1_connect_close_frame_size_def Let_def frame_simps z)
  assume g: "?gen n a = Some fr"
  show l: "length fr = ?size a"
    using g by (auto simp: a ietf_v1_gen_connect_close_frame_def ietf_v1_connect_close_frame_size_def Let_def
        frame_simps z split: if_splits)
  show "ietf_v1_parse_frame_type (fr @ rest) = QUIC_FRAME_CONNECTION_CLOSE"
    using g by (cases app) (auto simp: a ietf_v1_gen_connect_close_frame_def Let_def frame_simps
        lsquic_iquic_byte2type_def split: if_splits)
  from g have "ietf_v1_gen_connect_close_frame n app (ucast code) reason = Some fr" by (simp add: a)
  from parse_connect_close_gen [OF r this, of rest] obtain off where
    p: "ietf_v1_parse_connect_close_frame (fr @ rest) = Inr (length fr, app, code, of_nat (length reason), of_nat off)"
      "off + length reason = length fr" "off < 256" "drop off fr = reason" unfolding c by blast
  have "unat (of_nat off :: u8) = off" "unat (of_nat (length reason) :: u16) = length reason"
    using p(3) r by (simp_all add: unat_of_nat)
  with p l show "(case ietf_v1_parse_connect_close_frame (fr @ rest) of Inl _ \<Rightarrow> None
     | Inr (n, app_error, error_code, reason_len, reason_off) \<Rightarrow>
         Some (n, app_error, error_code, take (unat reason_len) (drop (unat reason_off) (fr @ rest))))
     = Some (?size a, a)"
    by (simp add: a frame_simps)
qed

lemma with_varints_size: "vals \<noteq> [] \<Longrightarrow> ietf_v1_frame_with_varints_size vals = sum_list (map vint_size vals)"
proof -
  have "fold (\<lambda>val size. size + 2 ^ vint_val2bits val) vs k = k + sum_list (map vint_size vs)" for vs k
    by (induction vs arbitrary: k) (simp_all add: frame_simps)
  moreover assume "vals \<noteq> []"
  ultimately show ?thesis
    by (cases vals) (simp_all add: ietf_v1_frame_with_varints_size_def frame_simps rev_map [symmetric] sum_list_rev)
qed

lemma with_varints_gen: "fold (\<lambda>val p. p @ vwrite val) vals acc = acc @ concat (map vwrite vals)"
  by (induction vals arbitrary: acc) simp_all

lemma vreads_vwrites:
  "\<forall>v \<in> set vals. vint_ok v \<Longrightarrow> vreads (length vals) (concat (map vwrite vals) @ rest) = Some (vals, rest)"
  by (induction vals) (simp_all add: frame_simps)

lemma length_vwrites: "length (concat (map vwrite vals)) = sum_list (map vint_size vals)"
  by (induction vals) (simp_all add: frame_simps)

lemma with_varints_parse:
  "\<forall>v \<in> set vals. vint_ok v \<Longrightarrow>
     ietf_v1_parse_frame_with_varints (vwrite t @ concat (map vwrite vals) @ rest) t (length vals)
       = Some (vint_size t + sum_list (map vint_size vals), vals)"
  by (simp add: ietf_v1_parse_frame_with_varints_def frame_simps vreads_vwrites length_vwrites)

lemma ext_types:
  "vint_ok FRAME_TYPE_ACK_FREQUENCY" "64 \<le> FRAME_TYPE_ACK_FREQUENCY"
  "vint_ok FRAME_TYPE_TIMESTAMP" "64 \<le> FRAME_TYPE_TIMESTAMP" "FRAME_TYPE_TIMESTAMP \<noteq> FRAME_TYPE_ACK_FREQUENCY"
  by (simp_all add: FRAME_TYPE_ACK_FREQUENCY_def FRAME_TYPE_TIMESTAMP_def vint_ok_nat)

interpretation timestamp: frame_codec ietf_v1_gen_timestamp_frame ietf_v1_parse_timestamp_frame
  "\<lambda>v. vint_size FRAME_TYPE_TIMESTAMP + vint_size v" vint_ok "\<lambda>_. QUIC_FRAME_TIMESTAMP"
proof unfold_locales
  show "ietf_v1_parse_timestamp_frame (fr @ rest) = Some (vint_size FRAME_TYPE_TIMESTAMP + vint_size a, a)"
    if "vint_ok a" "ietf_v1_gen_timestamp_frame n a = Some fr" for a n fr rest
    using that with_varints_parse [of "[a]" FRAME_TYPE_TIMESTAMP rest]
    by (auto simp: ietf_v1_gen_timestamp_frame_def ietf_v1_parse_timestamp_frame_def with_varints_gen
        ietf_v1_gen_frame_with_varints_def split: if_splits)
qed (auto simp: ietf_v1_gen_timestamp_frame_def ietf_v1_gen_frame_with_varints_def with_varints_size
      with_varints_gen frame_simps ext_types split: if_splits)

interpretation ack_frequency: frame_codec
  "\<lambda>n (seqno, tol, mad, ignore). ietf_v1_gen_ack_frequency_frame n seqno tol mad ignore"
  ietf_v1_parse_ack_frequency_frame
  "\<lambda>(seqno, tol, mad, ignore). ietf_v1_ack_frequency_frame_size seqno tol mad"
  "\<lambda>(seqno, tol, mad, ignore). vint_ok seqno \<and> vint_ok tol \<and> vint_ok mad"
  "\<lambda>_. QUIC_FRAME_ACK_FREQUENCY"
proof unfold_locales
  fix a :: "u64 \<times> u64 \<times> u64 \<times> bool" and n fr rest
  obtain s t m i where a: "a = (s, t, m, i)" by (cases a) 
  assume "case a of (seqno, tol, mad, ignore) \<Rightarrow> vint_ok seqno \<and> vint_ok tol \<and> vint_ok mad"
    and "(case a of (seqno, tol, mad, ignore) \<Rightarrow> ietf_v1_gen_ack_frequency_frame n seqno tol mad ignore) = Some fr"
  then show "ietf_v1_parse_ack_frequency_frame (fr @ rest) =
      Some (case a of (seqno, tol, mad, ignore) \<Rightarrow> ietf_v1_ack_frequency_frame_size seqno tol mad, a)"
    using with_varints_parse [of "[s, t, m]" FRAME_TYPE_ACK_FREQUENCY "of_bool i # rest"]
    by (auto simp: a ietf_v1_gen_ack_frequency_frame_def ietf_v1_parse_ack_frequency_frame_def with_varints_gen
        ietf_v1_gen_frame_with_varints_def ietf_v1_ack_frequency_frame_size_def with_varints_size nth_append
        frame_simps eval_nat_numeral split: if_splits)
qed (auto simp: ietf_v1_gen_ack_frequency_frame_def ietf_v1_gen_frame_with_varints_def with_varints_size
      ietf_v1_ack_frequency_frame_size_def with_varints_gen frame_simps ext_types split: if_splits)

end

