(* ===== verification/Packet_Frames.thy ===== *)
theory Packet_Frames
  imports Frame_Codecs
begin

text \<open>
  From frames to packets.  The control frames as one datatype with the entries of the
  table \<^verbatim>\<open>lsquic_parse_funcs_ietf_v1\<close>, the table of the frames that are legal at each encryption
  level (\<^verbatim>\<open>lsquic_parse_common.c\<close>), and the loop over the frames of a packet
  (\<^verbatim>\<open>lsquic_full_conn_ietf.c\<close>).  The handlers are reached through a table of function
  pointers; calling one is an argument of the loop, and the theory \<open>Frame_Handlers\<close> gives it.
\<close>

section \<open>Definitions\<close>

unbundle bit_operations_syntax

datatype control_frame =
    F_BLOCKED u64
  | F_MAX_DATA u64
  | F_RETIRE_CID u64
  | F_STREAM_BLOCKED u64 u64
  | F_MAX_STREAM_DATA u64 u64
  | F_STOP_SENDING u64 u64
  | F_RST_STREAM u64 u64 u64
  | F_STREAMS_BLOCKED stream_dir u64
  | F_MAX_STREAMS stream_dir u64
  | F_PATH_CHAL u64
  | F_PATH_RESP u64
  | F_NEW_TOKEN bytes
  | F_HANDSHAKE_DONE
  | F_NEW_CONN_ID u64 u64 bytes bytes
  | F_CONNECT_CLOSE bool u64 bytes
  | F_TIMESTAMP u64
  | F_ACK_FREQUENCY u64 u64 u64 bool

fun pf_gen_frame :: "nat \<Rightarrow> control_frame \<Rightarrow> bytes option" where
  "pf_gen_frame n (F_BLOCKED off) = ietf_v1_gen_blocked_frame n off"
| "pf_gen_frame n (F_MAX_DATA v) = ietf_v1_gen_max_data_frame n v"
| "pf_gen_frame n (F_RETIRE_CID v) = ietf_v1_gen_retire_cid_frame n v"
| "pf_gen_frame n (F_STREAM_BLOCKED sid off) = ietf_v1_gen_stream_blocked_frame n sid off"
| "pf_gen_frame n (F_MAX_STREAM_DATA sid off) = ietf_v1_gen_max_stream_data_frame n sid off"
| "pf_gen_frame n (F_STOP_SENDING sid code) = ietf_v1_gen_stop_sending_frame n sid code"
| "pf_gen_frame n (F_RST_STREAM sid sz code) = ietf_v1_gen_rst_frame n sid sz code"
| "pf_gen_frame n (F_STREAMS_BLOCKED sd limit) = ietf_v1_gen_streams_blocked_frame n sd limit"
| "pf_gen_frame n (F_MAX_STREAMS sd limit) = ietf_v1_gen_max_streams_frame n sd limit"
| "pf_gen_frame n (F_PATH_CHAL chal) = ietf_v1_gen_path_chal_frame n chal"
| "pf_gen_frame n (F_PATH_RESP resp) = ietf_v1_gen_path_resp_frame n resp"
| "pf_gen_frame n (F_NEW_TOKEN token) = ietf_v1_gen_new_token_frame n token"
| "pf_gen_frame n F_HANDSHAKE_DONE = ietf_v1_gen_handshake_done_frame n"
| "pf_gen_frame n (F_NEW_CONN_ID seqno rpt cid token) = ietf_v1_gen_new_connection_id_frame n (ucast seqno) cid token"
| "pf_gen_frame n (F_CONNECT_CLOSE app code reason) = ietf_v1_gen_connect_close_frame n app (ucast code) reason"
| "pf_gen_frame n (F_TIMESTAMP v) = ietf_v1_gen_timestamp_frame n v"
| "pf_gen_frame n (F_ACK_FREQUENCY seqno tol mad ign) = ietf_v1_gen_ack_frequency_frame n seqno tol mad ign"

definition with_fields :: "('a \<Rightarrow> control_frame) \<Rightarrow> (nat \<times> 'a) option \<Rightarrow> (nat \<times> control_frame) option" where
  "with_fields F r = (case r of None \<Rightarrow> None | Some (n, x) \<Rightarrow> Some (n, F x))"

text \<open>The parser called for a frame type; no entry of the table parses the other types.\<close>

fun pf_parse_frame :: "quic_frame_type \<Rightarrow> bytes \<Rightarrow> (nat \<times> control_frame) option" where
  "pf_parse_frame QUIC_FRAME_BLOCKED buf = with_fields F_BLOCKED (ietf_v1_parse_blocked_frame buf)"
| "pf_parse_frame QUIC_FRAME_MAX_DATA buf = with_fields F_MAX_DATA (ietf_v1_parse_max_data buf)"
| "pf_parse_frame QUIC_FRAME_RETIRE_CONNECTION_ID buf = with_fields F_RETIRE_CID (ietf_v1_parse_retire_cid_frame buf)"
| "pf_parse_frame QUIC_FRAME_STREAM_BLOCKED buf =
     with_fields (\<lambda>(id, off). F_STREAM_BLOCKED id off) (ietf_v1_parse_stream_blocked_frame buf)"
| "pf_parse_frame QUIC_FRAME_MAX_STREAM_DATA buf =
     with_fields (\<lambda>(id, off). F_MAX_STREAM_DATA id off) (ietf_v1_parse_max_stream_data_frame buf)"
| "pf_parse_frame QUIC_FRAME_STOP_SENDING buf =
     with_fields (\<lambda>(id, code). F_STOP_SENDING id code) (ietf_v1_parse_stop_sending_frame buf)"
| "pf_parse_frame QUIC_FRAME_RST_STREAM buf =
     with_fields (\<lambda>(id, sz, code). F_RST_STREAM id sz code) (ietf_v1_parse_rst_frame buf)"
| "pf_parse_frame QUIC_FRAME_STREAMS_BLOCKED buf =
     with_fields (\<lambda>(sd, limit). F_STREAMS_BLOCKED sd limit) (ietf_v1_parse_streams_blocked_frame buf)"
| "pf_parse_frame QUIC_FRAME_MAX_STREAMS buf =
     with_fields (\<lambda>(sd, limit). F_MAX_STREAMS sd limit) (ietf_v1_parse_max_streams_frame buf)"
| "pf_parse_frame QUIC_FRAME_PATH_CHALLENGE buf = with_fields F_PATH_CHAL (ietf_v1_parse_path_chal_frame buf)"
| "pf_parse_frame QUIC_FRAME_PATH_RESPONSE buf = with_fields F_PATH_RESP (ietf_v1_parse_path_resp_frame buf)"
| "pf_parse_frame QUIC_FRAME_NEW_TOKEN buf = with_fields F_NEW_TOKEN (ietf_v1_parse_new_token_frame buf)"
| "pf_parse_frame QUIC_FRAME_HANDSHAKE_DONE buf =
     with_fields (\<lambda>_. F_HANDSHAKE_DONE) (map_option (\<lambda>n. (n, ())) (ietf_v1_parse_handshake_done_frame buf))"
| "pf_parse_frame QUIC_FRAME_NEW_CONNECTION_ID buf =
     with_fields (\<lambda>(seqno, rpt, cid, token). F_NEW_CONN_ID seqno rpt cid token)
       (case ietf_v1_parse_new_conn_id buf of Inl _ \<Rightarrow> None
        | Inr (n, seqno, rpt, cid, token) \<Rightarrow> Some (n, seqno, rpt, cid, token))"
| "pf_parse_frame QUIC_FRAME_CONNECTION_CLOSE buf =
     with_fields (\<lambda>(app, code, reason). F_CONNECT_CLOSE app code reason)
       (case ietf_v1_parse_connect_close_frame buf of Inl _ \<Rightarrow> None
        | Inr (n, app_error, error_code, reason_len, reason_off) \<Rightarrow>
            Some (n, app_error, error_code, take (unat reason_len) (drop (unat reason_off) buf)))"
| "pf_parse_frame QUIC_FRAME_TIMESTAMP buf = with_fields F_TIMESTAMP (ietf_v1_parse_timestamp_frame buf)"
| "pf_parse_frame QUIC_FRAME_ACK_FREQUENCY buf =
     with_fields (\<lambda>(seqno, tol, mad, ign). F_ACK_FREQUENCY seqno tol mad ign) (ietf_v1_parse_ack_frequency_frame buf)"
| "pf_parse_frame _ buf = None"

text \<open>
  The table has no size function for TIMESTAMP; the size given for it is what its generator requires of the
  buffer.
\<close>

fun pf_frame_size :: "control_frame \<Rightarrow> nat" where
  "pf_frame_size (F_BLOCKED off) = ietf_v1_blocked_frame_size off"
| "pf_frame_size (F_MAX_DATA v) = ietf_v1_max_data_frame_size v"
| "pf_frame_size (F_RETIRE_CID v) = ietf_v1_retire_cid_frame_size v"
| "pf_frame_size (F_STREAM_BLOCKED sid off) = ietf_v1_stream_blocked_frame_size sid off"
| "pf_frame_size (F_MAX_STREAM_DATA sid off) = ietf_v1_max_stream_data_frame_size sid off"
| "pf_frame_size (F_STOP_SENDING sid code) = ietf_v1_stop_sending_frame_size sid code"
| "pf_frame_size (F_RST_STREAM sid sz code) = ietf_v1_rst_frame_size sid code sz"
| "pf_frame_size (F_STREAMS_BLOCKED sd limit) = ietf_v1_streams_blocked_frame_size limit"
| "pf_frame_size (F_MAX_STREAMS sd limit) = ietf_v1_max_streams_frame_size limit"
| "pf_frame_size (F_PATH_CHAL chal) = ietf_v1_path_chal_frame_size"
| "pf_frame_size (F_PATH_RESP resp) = ietf_v1_path_resp_frame_size"
| "pf_frame_size (F_NEW_TOKEN token) = ietf_v1_new_token_frame_size (length token)"
| "pf_frame_size F_HANDSHAKE_DONE = ietf_v1_handshake_done_frame_size"
| "pf_frame_size (F_NEW_CONN_ID seqno rpt cid token) = ietf_v1_new_connection_id_frame_size (ucast seqno) (length cid)"
| "pf_frame_size (F_CONNECT_CLOSE app code reason) = ietf_v1_connect_close_frame_size app (ucast code) 0 (length reason)"
| "pf_frame_size (F_TIMESTAMP v) = vint_size FRAME_TYPE_TIMESTAMP + vint_size v"
| "pf_frame_size (F_ACK_FREQUENCY seqno tol mad ign) = ietf_v1_ack_frequency_frame_size seqno tol mad"

text \<open>The field values that can be given to the generators.\<close>

fun frame_ok :: "control_frame \<Rightarrow> bool" where
  "frame_ok (F_BLOCKED v) = vint_ok v"
| "frame_ok (F_MAX_DATA v) = vint_ok v"
| "frame_ok (F_RETIRE_CID v) = vint_ok v"
| "frame_ok (F_STREAM_BLOCKED v w) = (vint_ok v \<and> vint_ok w)"
| "frame_ok (F_MAX_STREAM_DATA v w) = (vint_ok v \<and> vint_ok w)"
| "frame_ok (F_STOP_SENDING v w) = (vint_ok v \<and> vint_ok w)"
| "frame_ok (F_RST_STREAM u v w) = (vint_ok u \<and> vint_ok v \<and> vint_ok w)"
| "frame_ok (F_STREAMS_BLOCKED sd v) = vint_ok v"
| "frame_ok (F_MAX_STREAMS sd v) = vint_ok v"
| "frame_ok (F_PATH_CHAL _) = True"
| "frame_ok (F_PATH_RESP _) = True"
| "frame_ok (F_NEW_TOKEN token) = (length token < 4611686018427387904)"
| "frame_ok F_HANDSHAKE_DONE = True"
| "frame_ok (F_NEW_CONN_ID seqno rpt cid token) =
     (is_unsigned seqno \<and> rpt = 0 \<and> 0 < length cid \<and> length cid \<le> MAX_CID_LEN \<and> length token = IQUIC_SRESET_TOKEN_SZ)"
| "frame_ok (F_CONNECT_CLOSE _ code reason) = (is_unsigned code \<and> length reason \<le> 65535)"
| "frame_ok (F_TIMESTAMP v) = vint_ok v"
| "frame_ok (F_ACK_FREQUENCY s t m _) = (vint_ok s \<and> vint_ok t \<and> vint_ok m)"

fun frame_type :: "control_frame \<Rightarrow> quic_frame_type" where
  "frame_type (F_BLOCKED _) = QUIC_FRAME_BLOCKED"
| "frame_type (F_MAX_DATA _) = QUIC_FRAME_MAX_DATA"
| "frame_type (F_RETIRE_CID _) = QUIC_FRAME_RETIRE_CONNECTION_ID"
| "frame_type (F_STREAM_BLOCKED _ _) = QUIC_FRAME_STREAM_BLOCKED"
| "frame_type (F_MAX_STREAM_DATA _ _) = QUIC_FRAME_MAX_STREAM_DATA"
| "frame_type (F_STOP_SENDING _ _) = QUIC_FRAME_STOP_SENDING"
| "frame_type (F_RST_STREAM _ _ _) = QUIC_FRAME_RST_STREAM"
| "frame_type (F_STREAMS_BLOCKED _ _) = QUIC_FRAME_STREAMS_BLOCKED"
| "frame_type (F_MAX_STREAMS _ _) = QUIC_FRAME_MAX_STREAMS"
| "frame_type (F_PATH_CHAL _) = QUIC_FRAME_PATH_CHALLENGE"
| "frame_type (F_PATH_RESP _) = QUIC_FRAME_PATH_RESPONSE"
| "frame_type (F_NEW_TOKEN _) = QUIC_FRAME_NEW_TOKEN"
| "frame_type F_HANDSHAKE_DONE = QUIC_FRAME_HANDSHAKE_DONE"
| "frame_type (F_NEW_CONN_ID _ _ _ _) = QUIC_FRAME_NEW_CONNECTION_ID"
| "frame_type (F_CONNECT_CLOSE _ _ _) = QUIC_FRAME_CONNECTION_CLOSE"
| "frame_type (F_TIMESTAMP _) = QUIC_FRAME_TIMESTAMP"
| "frame_type (F_ACK_FREQUENCY _ _ _ _) = QUIC_FRAME_ACK_FREQUENCY"

definition parse_one_frame :: "bytes \<Rightarrow> (nat \<times> control_frame) option" where
  "parse_one_frame buf = pf_parse_frame (ietf_v1_parse_frame_type buf) buf"

datatype enc_level = ENC_LEV_CLEAR | ENC_LEV_EARLY | ENC_LEV_INIT | ENC_LEV_FORW

datatype lsquic_version = LSQVER_043 | LSQVER_046 | LSQVER_050 | LSQVER_ID27 | LSQVER_ID29 | LSQVER_I001 | LSQVER_VERNEG

text \<open>The number of an enumerator; a frame type bit is \<^verbatim>\<open>1 << type\<close>.\<close>

fun frame_num :: "quic_frame_type \<Rightarrow> nat" where
  "frame_num QUIC_FRAME_INVALID = 0" | "frame_num QUIC_FRAME_STREAM = 1" | "frame_num QUIC_FRAME_ACK = 2"
| "frame_num QUIC_FRAME_PADDING = 3" | "frame_num QUIC_FRAME_RST_STREAM = 4"
| "frame_num QUIC_FRAME_CONNECTION_CLOSE = 5" | "frame_num QUIC_FRAME_GOAWAY = 6"
| "frame_num QUIC_FRAME_WINDOW_UPDATE = 7" | "frame_num QUIC_FRAME_BLOCKED = 8"
| "frame_num QUIC_FRAME_STOP_WAITING = 9" | "frame_num QUIC_FRAME_PING = 10"
| "frame_num QUIC_FRAME_MAX_DATA = 11" | "frame_num QUIC_FRAME_MAX_STREAM_DATA = 12"
| "frame_num QUIC_FRAME_MAX_STREAMS = 13" | "frame_num QUIC_FRAME_STREAM_BLOCKED = 14"
| "frame_num QUIC_FRAME_STREAMS_BLOCKED = 15" | "frame_num QUIC_FRAME_NEW_CONNECTION_ID = 16"
| "frame_num QUIC_FRAME_STOP_SENDING = 17" | "frame_num QUIC_FRAME_PATH_CHALLENGE = 18"
| "frame_num QUIC_FRAME_PATH_RESPONSE = 19" | "frame_num QUIC_FRAME_CRYPTO = 20"
| "frame_num QUIC_FRAME_RETIRE_CONNECTION_ID = 21" | "frame_num QUIC_FRAME_NEW_TOKEN = 22"
| "frame_num QUIC_FRAME_HANDSHAKE_DONE = 23" | "frame_num QUIC_FRAME_ACK_FREQUENCY = 24"
| "frame_num QUIC_FRAME_TIMESTAMP = 25" | "frame_num QUIC_FRAME_DATAGRAM = 26"

definition quic_ft_bit :: "quic_frame_type \<Rightarrow> u32" where
  "quic_ft_bit t = push_bit (frame_num t) 1"

definition ft_bits :: "quic_frame_type list \<Rightarrow> u32" where
  "ft_bits ts = foldr (\<lambda>t m. quic_ft_bit t OR m) ts 0"

definition handshake_frames :: "quic_frame_type list" where
  "handshake_frames = [QUIC_FRAME_CRYPTO, QUIC_FRAME_PADDING, QUIC_FRAME_PING, QUIC_FRAME_ACK, QUIC_FRAME_CONNECTION_CLOSE]"

definition early_frames :: "quic_frame_type list" where
  "early_frames = [QUIC_FRAME_PADDING, QUIC_FRAME_PING, QUIC_FRAME_STREAM, QUIC_FRAME_RST_STREAM, QUIC_FRAME_BLOCKED,
     QUIC_FRAME_MAX_DATA, QUIC_FRAME_MAX_STREAM_DATA, QUIC_FRAME_MAX_STREAMS, QUIC_FRAME_STREAM_BLOCKED,
     QUIC_FRAME_STREAMS_BLOCKED, QUIC_FRAME_NEW_CONNECTION_ID, QUIC_FRAME_STOP_SENDING, QUIC_FRAME_PATH_CHALLENGE,
     QUIC_FRAME_DATAGRAM, QUIC_FRAME_RETIRE_CONNECTION_ID]"

definition forw_frames :: "quic_frame_type list" where
  "forw_frames = [QUIC_FRAME_CRYPTO, QUIC_FRAME_PADDING, QUIC_FRAME_PING, QUIC_FRAME_ACK, QUIC_FRAME_CONNECTION_CLOSE,
     QUIC_FRAME_STREAM, QUIC_FRAME_RST_STREAM, QUIC_FRAME_BLOCKED, QUIC_FRAME_MAX_DATA, QUIC_FRAME_MAX_STREAM_DATA,
     QUIC_FRAME_MAX_STREAMS, QUIC_FRAME_STREAM_BLOCKED, QUIC_FRAME_STREAMS_BLOCKED, QUIC_FRAME_NEW_CONNECTION_ID,
     QUIC_FRAME_STOP_SENDING, QUIC_FRAME_PATH_CHALLENGE, QUIC_FRAME_PATH_RESPONSE, QUIC_FRAME_HANDSHAKE_DONE,
     QUIC_FRAME_ACK_FREQUENCY, QUIC_FRAME_RETIRE_CONNECTION_ID, QUIC_FRAME_NEW_TOKEN, QUIC_FRAME_TIMESTAMP,
     QUIC_FRAME_DATAGRAM]"

text \<open>The rows of the other versions are zero.\<close>

fun lsquic_legal_frames_by_level :: "lsquic_version \<Rightarrow> enc_level \<Rightarrow> u32" where
  "lsquic_legal_frames_by_level LSQVER_I001 ENC_LEV_CLEAR = ft_bits handshake_frames"
| "lsquic_legal_frames_by_level LSQVER_I001 ENC_LEV_EARLY = ft_bits (QUIC_FRAME_CONNECTION_CLOSE # early_frames)"
| "lsquic_legal_frames_by_level LSQVER_I001 ENC_LEV_INIT = ft_bits handshake_frames"
| "lsquic_legal_frames_by_level LSQVER_I001 ENC_LEV_FORW = ft_bits forw_frames"
| "lsquic_legal_frames_by_level LSQVER_ID29 ENC_LEV_CLEAR = ft_bits handshake_frames"
| "lsquic_legal_frames_by_level LSQVER_ID29 ENC_LEV_EARLY =
     ft_bits (QUIC_FRAME_CONNECTION_CLOSE # QUIC_FRAME_PATH_RESPONSE # early_frames)"
| "lsquic_legal_frames_by_level LSQVER_ID29 ENC_LEV_INIT = ft_bits handshake_frames"
| "lsquic_legal_frames_by_level LSQVER_ID29 ENC_LEV_FORW = ft_bits forw_frames"
| "lsquic_legal_frames_by_level LSQVER_ID27 ENC_LEV_CLEAR = ft_bits handshake_frames"
| "lsquic_legal_frames_by_level LSQVER_ID27 ENC_LEV_EARLY = ft_bits (QUIC_FRAME_PATH_RESPONSE # early_frames)"
| "lsquic_legal_frames_by_level LSQVER_ID27 ENC_LEV_INIT = ft_bits handshake_frames"
| "lsquic_legal_frames_by_level LSQVER_ID27 ENC_LEV_FORW = ft_bits forw_frames"
| "lsquic_legal_frames_by_level _ _ = 0"

datatype process_frame_f =
    PROCESS_PADDING_FRAME | PROCESS_RST_STREAM_FRAME | PROCESS_CONNECTION_CLOSE_FRAME | PROCESS_MAX_DATA_FRAME
  | PROCESS_MAX_STREAM_DATA_FRAME | PROCESS_MAX_STREAMS_FRAME | PROCESS_PING_FRAME | PROCESS_BLOCKED_FRAME
  | PROCESS_STREAM_BLOCKED_FRAME | PROCESS_STREAMS_BLOCKED_FRAME | PROCESS_NEW_CONNECTION_ID_FRAME
  | PROCESS_NEW_TOKEN_FRAME | PROCESS_STOP_SENDING_FRAME | PROCESS_ACK_FRAME | PROCESS_PATH_CHALLENGE_FRAME
  | PROCESS_PATH_RESPONSE_FRAME | PROCESS_RETIRE_CONNECTION_ID_FRAME | PROCESS_STREAM_FRAME
  | PROCESS_CRYPTO_FRAME | PROCESS_HANDSHAKE_DONE_FRAME | PROCESS_ACK_FREQUENCY_FRAME
  | PROCESS_TIMESTAMP_FRAME | PROCESS_DATAGRAM_FRAME

text \<open>\<^const>\<open>None\<close> is a null pointer.\<close>

fun process_frames :: "quic_frame_type \<Rightarrow> process_frame_f option" where
  "process_frames QUIC_FRAME_PADDING = Some PROCESS_PADDING_FRAME"
| "process_frames QUIC_FRAME_RST_STREAM = Some PROCESS_RST_STREAM_FRAME"
| "process_frames QUIC_FRAME_CONNECTION_CLOSE = Some PROCESS_CONNECTION_CLOSE_FRAME"
| "process_frames QUIC_FRAME_MAX_DATA = Some PROCESS_MAX_DATA_FRAME"
| "process_frames QUIC_FRAME_MAX_STREAM_DATA = Some PROCESS_MAX_STREAM_DATA_FRAME"
| "process_frames QUIC_FRAME_MAX_STREAMS = Some PROCESS_MAX_STREAMS_FRAME"
| "process_frames QUIC_FRAME_PING = Some PROCESS_PING_FRAME"
| "process_frames QUIC_FRAME_BLOCKED = Some PROCESS_BLOCKED_FRAME"
| "process_frames QUIC_FRAME_STREAM_BLOCKED = Some PROCESS_STREAM_BLOCKED_FRAME"
| "process_frames QUIC_FRAME_STREAMS_BLOCKED = Some PROCESS_STREAMS_BLOCKED_FRAME"
| "process_frames QUIC_FRAME_NEW_CONNECTION_ID = Some PROCESS_NEW_CONNECTION_ID_FRAME"
| "process_frames QUIC_FRAME_NEW_TOKEN = Some PROCESS_NEW_TOKEN_FRAME"
| "process_frames QUIC_FRAME_STOP_SENDING = Some PROCESS_STOP_SENDING_FRAME"
| "process_frames QUIC_FRAME_ACK = Some PROCESS_ACK_FRAME"
| "process_frames QUIC_FRAME_PATH_CHALLENGE = Some PROCESS_PATH_CHALLENGE_FRAME"
| "process_frames QUIC_FRAME_PATH_RESPONSE = Some PROCESS_PATH_RESPONSE_FRAME"
| "process_frames QUIC_FRAME_RETIRE_CONNECTION_ID = Some PROCESS_RETIRE_CONNECTION_ID_FRAME"
| "process_frames QUIC_FRAME_STREAM = Some PROCESS_STREAM_FRAME"
| "process_frames QUIC_FRAME_CRYPTO = Some PROCESS_CRYPTO_FRAME"
| "process_frames QUIC_FRAME_HANDSHAKE_DONE = Some PROCESS_HANDSHAKE_DONE_FRAME"
| "process_frames QUIC_FRAME_ACK_FREQUENCY = Some PROCESS_ACK_FREQUENCY_FRAME"
| "process_frames QUIC_FRAME_TIMESTAMP = Some PROCESS_TIMESTAMP_FRAME"
| "process_frames QUIC_FRAME_DATAGRAM = Some PROCESS_DATAGRAM_FRAME"
| "process_frames _ = None"

text \<open>
  How the processing of a packet ends: all frames processed, one of the two aborts of the
  connection, or a call through a null pointer.
\<close>

datatype packet_outcome = PACKET_OK | ABORT_PARSING_FRAME | ABORT_NO_FRAMES | NULL_CALL

text \<open>
  The processing of one frame: its type is added to \<^verbatim>\<open>pi_frame_types\<close>, then the handler
  returns the connection and the number of bytes it used.
\<close>

definition process_packet_frame ::
  "(process_frame_f \<Rightarrow> 'c \<Rightarrow> bytes \<Rightarrow> 'c \<times> nat) \<Rightarrow> lsquic_version \<Rightarrow> enc_level \<Rightarrow> 'c \<times> u32 \<Rightarrow> bytes \<Rightarrow> (('c \<times> u32) \<times> nat) option" where
  "process_packet_frame call ver lev s p =
     (let (conn, frame_types) = s; type = ietf_v1_parse_frame_type p in
      if lsquic_legal_frames_by_level ver lev AND quic_ft_bit type \<noteq> 0 then
        case process_frames type of
          None \<Rightarrow> None
        | Some f \<Rightarrow>
            (let frame_types = frame_types OR quic_ft_bit type; (conn, len) = call f conn p in
             Some ((conn, frame_types), len))
      else Some (s, 0))"

function frames_loop ::
  "(process_frame_f \<Rightarrow> 'c \<Rightarrow> bytes \<Rightarrow> 'c \<times> nat) \<Rightarrow> lsquic_version \<Rightarrow> enc_level \<Rightarrow> 'c \<times> u32 \<Rightarrow> bytes \<Rightarrow> ('c \<times> u32) \<times> packet_outcome" where
  "frames_loop call ver lev s p =
     (if p = [] then (s, PACKET_OK)
      else case process_packet_frame call ver lev s p of
        None \<Rightarrow> (s, NULL_CALL)
      | Some (s, len) \<Rightarrow>
          if len > 0 then frames_loop call ver lev s (drop len p) else (s, ABORT_PARSING_FRAME))"
  by pat_completeness auto
termination by (relation "measure (\<lambda>(_, _, _, _, p). length p)") auto

declare frames_loop.simps [simp del]

definition parse_regular_packet ::
  "(process_frame_f \<Rightarrow> 'c \<Rightarrow> bytes \<Rightarrow> 'c \<times> nat) \<Rightarrow> lsquic_version \<Rightarrow> enc_level \<Rightarrow> 'c \<times> u32 \<Rightarrow> bytes \<Rightarrow> ('c \<times> u32) \<times> packet_outcome" where
  "parse_regular_packet call ver lev s payload =
     (if payload \<noteq> [] then frames_loop call ver lev s payload else (s, ABORT_NO_FRAMES))"

section \<open>The codec of all control frames\<close>

lemmas codec_gen_none = blocked.gen_none max_data.gen_none retire_cid.gen_none stream_blocked.gen_none [of "(a, b)" for a b, simplified]
  max_stream_data.gen_none [of "(a, b)" for a b, simplified] stop_sending.gen_none [of "(a, b)" for a b, simplified] rst.gen_none [of "(a, b, c)" for a b c, simplified] streams_blocked.gen_none [of "(a, b)" for a b, simplified] max_streams.gen_none [of "(a, b)" for a b, simplified]
  path_chal.gen_none path_resp.gen_none new_token.gen_none handshake_done.gen_none new_conn_id.gen_none [of "(a, b, c, d)" for a b c d, simplified]
  connect_close.gen_none [of "(a, b, c)" for a b c, simplified] timestamp.gen_none ack_frequency.gen_none [of "(a, b, c, d)" for a b c d, simplified]

lemmas codec_gen_len = blocked.gen_len max_data.gen_len retire_cid.gen_len stream_blocked.gen_len [of "(a, b)" for a b, simplified]
  max_stream_data.gen_len [of "(a, b)" for a b, simplified] stop_sending.gen_len [of "(a, b)" for a b, simplified] rst.gen_len [of "(a, b, c)" for a b c, simplified] streams_blocked.gen_len [of "(a, b)" for a b, simplified] max_streams.gen_len [of "(a, b)" for a b, simplified]
  path_chal.gen_len path_resp.gen_len new_token.gen_len handshake_done.gen_len new_conn_id.gen_len [of "(a, b, c, d)" for a b c d, simplified]
  connect_close.gen_len [of "(a, b, c)" for a b c, simplified] timestamp.gen_len ack_frequency.gen_len [of "(a, b, c, d)" for a b c d, simplified]

lemmas codec_parse_gen = blocked.parse_gen max_data.parse_gen retire_cid.parse_gen stream_blocked.parse_gen [of "(a, b)" for a b, simplified]
  max_stream_data.parse_gen [of "(a, b)" for a b, simplified] stop_sending.parse_gen [of "(a, b)" for a b, simplified] rst.parse_gen [of "(a, b, c)" for a b c, simplified] streams_blocked.parse_gen [of "(a, b)" for a b, simplified] max_streams.parse_gen [of "(a, b)" for a b, simplified]
  path_chal.parse_gen path_resp.parse_gen new_token.parse_gen handshake_done.parse_gen [simplified] new_conn_id.parse_gen [of "(a, b, c, d)" for a b c d, simplified]
  connect_close.parse_gen [of "(a, b, c)" for a b c, simplified] timestamp.parse_gen ack_frequency.parse_gen [of "(a, b, c, d)" for a b c d, simplified]

lemmas codec_gen_type = blocked.gen_type max_data.gen_type retire_cid.gen_type stream_blocked.gen_type [of "(a, b)" for a b, simplified]
  max_stream_data.gen_type [of "(a, b)" for a b, simplified] stop_sending.gen_type [of "(a, b)" for a b, simplified] rst.gen_type [of "(a, b, c)" for a b c, simplified] streams_blocked.gen_type [of "(a, b)" for a b, simplified] max_streams.gen_type [of "(a, b)" for a b, simplified]
  path_chal.gen_type path_resp.gen_type new_token.gen_type handshake_done.gen_type new_conn_id.gen_type [of "(a, b, c, d)" for a b c d, simplified]
  connect_close.gen_type [of "(a, b, c)" for a b c, simplified] timestamp.gen_type ack_frequency.gen_type [of "(a, b, c, d)" for a b c d, simplified]

lemmas codec_size_pos = blocked.size_pos max_data.size_pos retire_cid.size_pos stream_blocked.size_pos [of "(a, b)" for a b, simplified]
  max_stream_data.size_pos [of "(a, b)" for a b, simplified] stop_sending.size_pos [of "(a, b)" for a b, simplified] rst.size_pos [of "(a, b, c)" for a b c, simplified] streams_blocked.size_pos [of "(a, b)" for a b, simplified] max_streams.size_pos [of "(a, b)" for a b, simplified]
  path_chal.size_pos path_resp.size_pos new_token.size_pos handshake_done.size_pos new_conn_id.size_pos [of "(a, b, c, d)" for a b c d, simplified]
  connect_close.size_pos [of "(a, b, c)" for a b c, simplified] timestamp.size_pos ack_frequency.size_pos [of "(a, b, c, d)" for a b c d, simplified]

lemma pf_gen_type: "frame_ok f \<Longrightarrow> pf_gen_frame n f = Some fr \<Longrightarrow> ietf_v1_parse_frame_type (fr @ rest) = frame_type f"
  by (cases f) (auto intro: codec_gen_type)

lemma pf_gen_len: "frame_ok f \<Longrightarrow> pf_gen_frame n f = Some fr \<Longrightarrow> length fr = pf_frame_size f"
  by (cases f) (auto intro: codec_gen_len)

lemma pf_gen_none: "frame_ok f \<Longrightarrow> pf_gen_frame n f = None \<longleftrightarrow> n < pf_frame_size f"
  by (cases f) (simp_all add: codec_gen_none)

lemma pf_size_pos: "0 < pf_frame_size f"
  by (cases f) (simp_all add: codec_size_pos)

lemma with_fieldsI: "r = Some (n, x) \<Longrightarrow> f = F x \<Longrightarrow> with_fields F r = Some (n, f)"
  by (simp add: with_fields_def)

lemma pf_parse_gen:
  "frame_ok f \<Longrightarrow> pf_gen_frame n f = Some fr \<Longrightarrow> pf_parse_frame (frame_type f) (fr @ rest) = Some (pf_frame_size f, f)"
  by (cases f) (auto intro!: with_fieldsI intro: codec_parse_gen)

interpretation control: frame_codec pf_gen_frame parse_one_frame pf_frame_size frame_ok frame_type
  by unfold_locales (auto simp: parse_one_frame_def pf_size_pos pf_gen_none pf_gen_len pf_gen_type pf_parse_gen)

section \<open>The loop over the frames\<close>

lemma bit_ft_bits: "bit (ft_bits ts) k \<longleftrightarrow> (\<exists>t \<in> set ts. frame_num t = k)"
proof -
  have "frame_num t < 32" for t by (cases t) simp_all
  then show ?thesis by (induction ts) (auto simp: ft_bits_def quic_ft_bit_def bit_simps)
qed

lemma frame_num_inj: "frame_num t = frame_num u \<longleftrightarrow> t = u"
  by (cases t; cases u) simp_all

lemma and_ft_bit: "m AND quic_ft_bit t \<noteq> 0 \<longleftrightarrow> bit m (frame_num t)"
proof -
  have n: "frame_num t < 32" by (cases t) simp_all
  have "bit (m AND quic_ft_bit t) k \<longleftrightarrow> k = frame_num t \<and> bit m k" for k
    using n by (auto simp: quic_ft_bit_def bit_simps)
  then show ?thesis by (metis bit_eqI bit_0_eq bot_apply bot_bool_def)
qed

lemma legal_ft_bits: "ft_bits ts AND quic_ft_bit t \<noteq> 0 \<longleftrightarrow> t \<in> set ts"
  by (auto simp: and_ft_bit bit_ft_bits frame_num_inj)

lemma legal_has_handler:
  "lsquic_legal_frames_by_level ver lev AND quic_ft_bit t \<noteq> 0 \<Longrightarrow> process_frames t \<noteq> None"
  by (cases "(ver, lev)" rule: lsquic_legal_frames_by_level.cases)
    (auto simp: legal_ft_bits handshake_frames_def early_frames_def forw_frames_def)

lemma frames_loop_no_null: "snd (frames_loop call ver lev s p) \<noteq> NULL_CALL"
proof (induction call ver lev s p rule: frames_loop.induct)
  case (1 call ver lev s p)
  show ?case
  proof (cases "p = [] \<or> process_packet_frame call ver lev s p = None")
    case True
    then show ?thesis
      using legal_has_handler [of ver lev "ietf_v1_parse_frame_type p"]
      by (auto simp: frames_loop.simps [of _ _ _ _ p] process_packet_frame_def Let_def split: if_splits prod.splits option.splits)
  next
    case False
    then show ?thesis using 1 by (auto simp: frames_loop.simps [of _ _ _ _ p] split: if_splits)
  qed
qed

definition sent_as :: "control_frame \<Rightarrow> bytes \<Rightarrow> bool" where
  "sent_as f fr \<longleftrightarrow> frame_ok f \<and> pf_gen_frame (length fr) f = Some fr"

lemma sent_nonempty: "sent_as f fr \<Longrightarrow> 0 < length fr"
  using pf_gen_len [of f "length fr" fr] pf_size_pos [of f] by (simp add: sent_as_def)

lemma sent_type: "sent_as f fr \<Longrightarrow> ietf_v1_parse_frame_type (fr @ rest) = frame_type f"
  using pf_gen_type [of f "length fr" fr] by (simp add: sent_as_def)

lemma sent_parse: "sent_as f fr \<Longrightarrow> pf_parse_frame (frame_type f) (fr @ rest) = Some (length fr, f)"
  using pf_parse_gen [of f "length fr" fr] pf_gen_len [of f "length fr" fr] by (simp add: sent_as_def)

text \<open>
  What the loop relies on: a handler called on a generated frame reacts to the fields of the frame, and returns its
  length when the connection accepts the frame and zero when it refuses it.
\<close>

definition used :: "nat \<Rightarrow> 'c \<times> bool \<Rightarrow> 'c \<times> nat" where
  "used n = (\<lambda>(conn, accepted). (conn, if accepted then n else 0))"

text \<open>The reactions to the frames of a packet, in order, up to the first frame that is refused.\<close>

fun react_all :: "(control_frame \<Rightarrow> 'c \<Rightarrow> 'c \<times> bool) \<Rightarrow> control_frame list \<Rightarrow> 'c \<times> u32 \<Rightarrow> ('c \<times> u32) \<times> bool" where
  "react_all react [] s = (s, True)"
| "react_all react (f # fs) (conn, types) =
     (let (conn, accepted) = react f conn; types = types OR quic_ft_bit (frame_type f) in
      if accepted then react_all react fs (conn, types) else ((conn, types), False))"

locale frame_handlers =
  fixes call :: "process_frame_f \<Rightarrow> 'c \<Rightarrow> bytes \<Rightarrow> 'c \<times> nat"
    and react :: "control_frame \<Rightarrow> 'c \<Rightarrow> 'c \<times> bool"
  assumes call_sent: "sent_as f fr \<Longrightarrow> process_frames (frame_type f) = Some h
    \<Longrightarrow> call h conn (fr @ rest) = used (length fr) (react f conn)"
begin

lemma process_sent_frame:
  assumes "sent_as f fr" "lsquic_legal_frames_by_level ver lev AND quic_ft_bit (frame_type f) \<noteq> 0" "react f conn = (conn', ok)"
  shows "process_packet_frame call ver lev (conn, types) (fr @ rest)
    = Some ((conn', types OR quic_ft_bit (frame_type f)), if ok then length fr else 0)"
proof -
  obtain h where h: "process_frames (frame_type f) = Some h" using legal_has_handler [OF assms(2)] by auto
  show ?thesis
    using assms(2,3) call_sent [OF assms(1) h, of conn rest] sent_type [OF assms(1), of rest] h
    by (simp add: process_packet_frame_def used_def)
qed

lemma frames_loop_sent:
  assumes "list_all2 sent_as fs frs"
    and "\<forall>f \<in> set fs. lsquic_legal_frames_by_level ver lev AND quic_ft_bit (frame_type f) \<noteq> 0"
  shows "frames_loop call ver lev s (concat frs @ rest)
    = (case react_all react fs s of (s', True) \<Rightarrow> frames_loop call ver lev s' rest | (s', False) \<Rightarrow> (s', ABORT_PARSING_FRAME))"
  using assms
proof (induction arbitrary: s rule: list_all2_induct)
  case (Cons f fs fr frs)
  obtain conn types where s: "s = (conn, types)" by (cases s)
  obtain conn' ok where r: "react f conn = (conn', ok)" by (cases "react f conn")
  have "process_packet_frame call ver lev s (fr @ concat frs @ rest)
      = Some ((conn', types OR quic_ft_bit (frame_type f)), if ok then length fr else 0)"
    using process_sent_frame [OF Cons(1) _ r] Cons(4) s by simp
  then show ?case
    using Cons(3,4) sent_nonempty [OF Cons(1)] by (cases ok) (auto simp: frames_loop.simps [of _ _ _ _ "fr @ _"] s r)
qed simp

end

section \<open>Properties\<close>

text \<open>
  C34. Every control frame: the generator succeeds exactly when the size announced for the frame fits
  the buffer, writes exactly that many bytes, and the receiver, whatever follows the frame, recognises
  its type and parses the same fields from the same bytes.
\<close>

theorem control_frame_roundtrip:
  assumes "frame_ok f"
  shows "(pf_gen_frame n f = None \<longleftrightarrow> n < pf_frame_size f)
    \<and> (\<forall>fr. pf_gen_frame n f = Some fr \<longrightarrow> length fr = pf_frame_size f
        \<and> (\<forall>rest. ietf_v1_parse_frame_type (fr @ rest) = frame_type f
             \<and> pf_parse_frame (frame_type f) (fr @ rest) = Some (length fr, f)))"
  using pf_gen_none [OF assms] pf_gen_len [OF assms] pf_gen_type [OF assms] pf_parse_gen [OF assms] by auto

theorem control_frame_roundtrip_witness:
  "pf_gen_frame 20 (F_RST_STREAM 5 1000 7) = Some [4, 5, 7, 0x43, 0xE8]
   \<and> pf_parse_frame QUIC_FRAME_RST_STREAM ([4, 5, 7, 0x43, 0xE8] @ [1, 2]) = Some (5, F_RST_STREAM 5 1000 7)"
proof -
  have g: "pf_gen_frame 20 (F_RST_STREAM 5 1000 7) = Some [4, 5, 7, 0x43, 0xE8]" by code_simp
  have "frame_ok (F_RST_STREAM 5 1000 7)" by code_simp
  from control_frame_roundtrip [OF this, of 20] g show ?thesis by simp
qed

text \<open>
  C35. No packet, whatever its bytes, version, encryption level and handlers, makes the frame loop call
  through a null entry of the handler table: every frame type that is legal somewhere has a handler.
\<close>

theorem no_null_handler: "snd (parse_regular_packet call ver lev s payload) \<noteq> NULL_CALL"
  by (simp add: parse_regular_packet_def frames_loop_no_null)

end
