(* ===== verification/Stream_Frames.thy ===== *)
theory Stream_Frames
  imports Frames
begin

text \<open>
  The frames that carry data, of \<^verbatim>\<open>lsquic_parse_ietf_v1.c\<close>: STREAM, CRYPTO and
  DATAGRAM.  The callback that fills the frame (\<^verbatim>\<open>gsf_read\<close>, \<^verbatim>\<open>user_callback\<close>) is
  an argument: it is given the space and returns the data it wrote.
\<close>

section \<open>Definitions\<close>

record stream_frame =
  sf_stream_id :: u64
  sf_fin :: bool
  sf_offset :: u64
  sf_size :: u16
  sf_data :: bytes     \<comment> \<open>the bytes from \<^verbatim>\<open>df_data\<close> on, to the end of the packet\<close>

text \<open>The outcomes of a generator with a read callback.\<close>

datatype gsf_result =
    GSF_FRAME bytes      \<comment> \<open>p - buf bytes were written\<close>
  | GSF_NEED nat         \<comment> \<open>the negated number of bytes needed, or -1\<close>
  | GSF_NOTHING          \<comment> \<open>return 0: the callback had no data\<close>
  | GSF_ASSERT           \<comment> \<open>a failed assertion\<close>

definition stream_type :: "nat \<Rightarrow> nat \<Rightarrow> bool \<Rightarrow> u8" where
  "stream_type olen dlen fin =
     0x08 OR push_bit 2 (of_bool (olen \<noteq> 0)) OR push_bit 1 (of_bool (dlen \<noteq> 0)) OR of_bool fin"

text \<open>\<^verbatim>\<open>n_avail\<close> is an \<^verbatim>\<open>unsigned\<close>: it wraps when the buffer is shorter than the header.\<close>

definition ietf_v1_gen_stream_frame ::
  "nat \<Rightarrow> u64 \<Rightarrow> u64 \<Rightarrow> bool \<Rightarrow> nat \<Rightarrow> (nat \<Rightarrow> bytes \<times> bool) \<Rightarrow> gsf_result" where
  "ietf_v1_gen_stream_frame buf_len stream_id offset fin sz gsf_read =
     (let sbits = vint_val2bits stream_id; slen = 2 ^ sbits;
          obits = vint_val2bits offset; olen = (if offset \<noteq> 0 then 2 ^ obits else 0);
          head = vint_write stream_id sbits slen @ (if olen \<noteq> 0 then vint_write offset obits olen else [])
      in if \<not> fin \<and> sz = 0 then GSF_ASSERT
         else if \<not> fin then
           (let n_avail = of_nat buf_len - of_nat (1 + slen + olen) :: u32;
                dbits = vint_val2bits (of_nat sz);
                (dlen, sz) =
                  (if sz < unat n_avail then
                     let dlen = 2 ^ dbits; n_avail = n_avail - of_nat dlen
                     in (dlen, if sz > unat n_avail then unat n_avail else sz)
                   else (0, unat n_avail))
            in if 1 + olen + slen + dlen + 1 > buf_len then GSF_NEED (1 + olen + slen + dlen + 1)
               else let (data, fin) = gsf_read sz; nr = length data
                    in if nr = 0 then GSF_NOTHING
                       else if nr > sz then GSF_ASSERT
                       else GSF_FRAME ([stream_type olen dlen fin] @ head
                              @ (if dlen \<noteq> 0 then vint_write (of_nat nr) dbits dlen else []) @ data))
         else
           (let dlen = of_bool (1 + slen + olen < buf_len)
            in if 1 + slen + olen + dlen > buf_len then GSF_NEED (1 + slen + olen + dlen)
               else GSF_FRAME ([stream_type olen dlen fin] @ head @ (if dlen \<noteq> 0 then [0] else []))))"

definition ietf_v1_parse_stream_frame :: "bytes \<Rightarrow> (nat \<times> stream_frame) option" where
  "ietf_v1_parse_stream_frame buf =
     (if length buf < 1 then None
      else let type = buf ! 0 in do {
        (stream_id, p) \<leftarrow> vread (drop 1 buf);
        (offset, p) \<leftarrow> (if type AND 4 \<noteq> 0 then vread p else Some (0, p));
        (data_sz, p) \<leftarrow> (if type AND 2 \<noteq> 0 then do {
                           (data_sz, p) \<leftarrow> vread p;
                           if unat data_sz > length p then None else Some (data_sz, p) }
                         else Some (of_nat (length p), p));
        if VINT_MAX_VALUE - offset < data_sz then None
        else Some (length buf - length p + unat data_sz,
               \<lparr>sf_stream_id = stream_id, sf_fin = type AND 1 \<noteq> 0, sf_offset = offset,
                sf_size = ucast data_sz, sf_data = p\<rparr>) })"

definition lsquic_ietf_v1_gen_crypto_frame ::
  "u8 \<Rightarrow> nat \<Rightarrow> u64 \<Rightarrow> nat \<Rightarrow> (nat \<Rightarrow> bytes) \<Rightarrow> gsf_result" where
  "lsquic_ietf_v1_gen_crypto_frame first_byte buf_len offset sz gsf_read =
     (let obits = vint_val2bits offset; olen = 2 ^ obits;
          dbits = vint_val2bits (of_nat sz); dlen = 2 ^ dbits
      in if 1 + olen + dlen + of_bool (dlen > 0) > buf_len then GSF_NEED 1
         else let n_avail = buf_len - 1 - olen - dlen;
                  sz = (if n_avail < sz then n_avail else sz);
                  data = gsf_read sz; nr = length data
              in if nr = 0 \<or> nr > sz then GSF_ASSERT
                 else GSF_FRAME ([first_byte] @ vint_write offset obits olen
                        @ vint_write (of_nat nr) dbits dlen @ data))"

definition ietf_v1_gen_crypto_frame :: "nat \<Rightarrow> u64 \<Rightarrow> nat \<Rightarrow> (nat \<Rightarrow> bytes) \<Rightarrow> gsf_result" where
  "ietf_v1_gen_crypto_frame buf_len offset sz gsf_read =
     lsquic_ietf_v1_gen_crypto_frame 0x6 buf_len offset sz gsf_read"

definition lsquic_ietf_v1_parse_crypto_frame :: "bytes \<Rightarrow> (nat \<times> stream_frame) option" where
  "lsquic_ietf_v1_parse_crypto_frame buf =
     (if length buf < 1 then None
      else do {
        (offset, p) \<leftarrow> vread (drop 1 buf);
        (data_sz, p) \<leftarrow> vread p;
        if unat data_sz > length p then None
        else if VINT_MAX_VALUE - offset < data_sz then None
        else Some (length buf - length p + unat data_sz,
               \<lparr>sf_stream_id = NOT 0, sf_fin = False, sf_offset = offset,
                sf_size = ucast data_sz, sf_data = p\<rparr>) })"

text \<open>The assertion on the type byte is the \<open>buf ! 0 = 6\<close> of the frame dispatcher.\<close>

definition ietf_v1_parse_crypto_frame :: "bytes \<Rightarrow> (nat \<times> stream_frame) option" where
  "ietf_v1_parse_crypto_frame buf =
     (if length buf > 0 then lsquic_ietf_v1_parse_crypto_frame buf else None)"

text \<open>Shrinking and finishing a frame that is already in a packet; the flag is the return value.\<close>

definition ietf_v1_dec_stream_frame_size :: "bytes \<Rightarrow> nat \<Rightarrow> bool \<times> bytes" where
  "ietf_v1_dec_stream_frame_size buf new_size =
     (let type = buf ! 0; i = 1 in
      if type AND 2 = 0 then (True, buf)
      else let i = i + 2 ^ unat (drop_bit 6 (buf ! i));
               i = (if type AND 4 \<noteq> 0 then i + 2 ^ unat (drop_bit 6 (buf ! i)) else i);
               bits = unat (drop_bit 6 (buf ! i))
           in (False, take i buf @ vint_write (of_nat new_size) bits (2 ^ bits) @ drop (i + 2 ^ bits) buf))"

definition ietf_v1_turn_on_fin :: "bytes \<Rightarrow> bytes" where
  "ietf_v1_turn_on_fin buf = buf[0 := buf ! 0 OR 1]"

definition ietf_v1_calc_stream_frame_header_sz :: "u64 \<Rightarrow> u64 \<Rightarrow> u32 \<Rightarrow> nat" where
  "ietf_v1_calc_stream_frame_header_sz stream_id offset data_sz =
     (if offset \<noteq> 0 then 1 + 2 ^ vint_val2bits stream_id + 2 ^ vint_val2bits (ucast data_sz) + 2 ^ vint_val2bits offset
      else 1 + 2 ^ vint_val2bits (ucast data_sz) + 2 ^ vint_val2bits stream_id)"

definition ietf_v1_calc_crypto_frame_header_sz :: "u64 \<Rightarrow> u32 \<Rightarrow> nat" where
  "ietf_v1_calc_crypto_frame_header_sz offset data_sz =
     1 + 2 ^ vint_val2bits offset + 2 ^ vint_val2bits (ucast data_sz)"

definition ietf_v1_parse_datagram_frame :: "bytes \<Rightarrow> (nat \<times> bytes) option" where
  "ietf_v1_parse_datagram_frame buf =
     (if buf = [] \<or> \<not> (buf ! 0 = 0x30 \<or> buf ! 0 = 0x31) then None
      else if buf ! 0 AND 1 \<noteq> 0 then
        (case lsquic_varint_read (drop 1 buf) of
           Some (s, len) \<Rightarrow>
             (if 1 + s + unat len \<le> length buf
              then Some (1 + s + unat len, take (unat len) (drop (1 + s) buf)) else None)
         | None \<Rightarrow> None)
      else Some (length buf, drop 1 buf))"

definition ietf_v1_datagram_frame_size :: "nat \<Rightarrow> nat" where
  "ietf_v1_datagram_frame_size sz = 1 + vint_size (of_nat sz) + sz"

text \<open>\<open>user_callback\<close> returns the datagram it wrote, or \<^const>\<open>None\<close> for a negative value.\<close>

definition ietf_v1_gen_datagram_frame ::
  "nat \<Rightarrow> nat \<Rightarrow> nat \<Rightarrow> (nat \<Rightarrow> bytes option) \<Rightarrow> bytes option" where
  "ietf_v1_gen_datagram_frame bufsz min_sz max_sz user_callback =
     (let bits = (if min_sz \<noteq> 0 then vint_val2bits (of_nat min_sz) else vint_val2bits (of_nat bufsz));
          len_sz = 2 ^ bits
      in if 1 + len_sz + min_sz > bufsz then None
         else case user_callback (if min_sz \<noteq> 0 then min_sz else min (bufsz - 1 - len_sz) max_sz) of
                Some data \<Rightarrow> Some ([0x31] @ vint_write (of_nat (length data)) bits len_sz @ data)
              | None \<Rightarrow> None)"

section \<open>Reading a frame image\<close>

lemma vread_vint_write [frame_simps]:
  "bits \<le> 3 \<Longrightarrow> unat v < 2 ^ vint_bits2shift bits \<Longrightarrow> vread (vint_write v bits (2 ^ bits) @ rest) = Some (v, rest)"
proof -
  assume b: "bits \<le> 3" "unat v < 2 ^ vint_bits2shift bits"
  have "(2::nat) ^ bits \<le> 2 ^ 3" using b(1) by (rule power_increasing) simp
  then show ?thesis using varint_read_write [OF b, of rest] by (simp add: vread_def)
qed

lemma length_vint_write_pow [frame_simps]: "bits \<le> 3 \<Longrightarrow> length (vint_write v bits (2 ^ bits)) = 2 ^ bits"
  using power_increasing [of bits 3 "2::nat"] by simp

lemma stream_type_bits [frame_simps]:
  "stream_type olen dlen fin AND 4 = 0 \<longleftrightarrow> olen = 0"
  "stream_type olen dlen fin AND 2 = 0 \<longleftrightarrow> dlen = 0"
  "stream_type olen dlen fin AND 1 = 0 \<longleftrightarrow> \<not> fin"
  by (simp_all add: stream_type_def of_bool_def)

lemma stream_type_range: "stream_type olen dlen fin < 64"
  "lsquic_iquic_byte2type ! unat (stream_type olen dlen fin) = QUIC_FRAME_STREAM"
  by (simp_all add: stream_type_def of_bool_def lsquic_iquic_byte2type_def)

lemma max_offset_check:
  assumes "unat off + n < 4611686018427387904"
  shows "\<not> VINT_MAX_VALUE - off < of_nat n"
proof -
  have o: "unat off \<le> 4611686018427387903" using assms by simp
  then have "off \<le> VINT_MAX_VALUE" by (simp add: VINT_MAX_VALUE_def word_le_nat_alt)
  then have "unat (VINT_MAX_VALUE - off) = 4611686018427387903 - unat off"
    by (simp add: unat_sub VINT_MAX_VALUE_def)
  then show ?thesis using assms by (simp add: word_less_nat_alt unat_of_nat)
qed

text \<open>The image of a STREAM frame whose length field is absent or has the size \<open>2 ^ bits\<close>.\<close>

definition stream_image :: "u64 \<Rightarrow> u64 \<Rightarrow> nat option \<Rightarrow> bool \<Rightarrow> bytes \<Rightarrow> bytes" where
  "stream_image stream_id offset lbits fin data =
     [stream_type (if offset \<noteq> 0 then vint_size offset else 0) (case lbits of None \<Rightarrow> 0 | Some b \<Rightarrow> 2 ^ b) fin]
     @ vwrite stream_id @ (if offset \<noteq> 0 then vwrite offset else [])
     @ (case lbits of None \<Rightarrow> [] | Some b \<Rightarrow> vint_write (of_nat (length data)) b (2 ^ b)) @ data"

definition lbits_fit :: "nat option \<Rightarrow> nat \<Rightarrow> bool" where
  "lbits_fit lbits n \<longleftrightarrow> (case lbits of None \<Rightarrow> True | Some b \<Rightarrow> b \<le> 3 \<and> n < 2 ^ vint_bits2shift b)"

lemma bits2shift_62: "b \<le> 3 \<Longrightarrow> n < 2 ^ vint_bits2shift b \<Longrightarrow> n < (4611686018427387904 :: nat)"
proof -
  assume b: "b \<le> 3" "n < 2 ^ vint_bits2shift b"
  have "(2::nat) ^ (3 + b) \<le> 2 ^ (3 + 3)" using b(1) by (intro power_increasing) simp_all
  then have "vint_bits2shift b \<le> 62" by (simp add: vint_bits2shift_def)
  then have "(2::nat) ^ vint_bits2shift b \<le> 2 ^ 62" by (rule power_increasing) simp
  with b(2) show ?thesis by simp
qed

lemma parse_stream_image:
  assumes "vint_ok stream_id" "unat offset + length data < 4611686018427387904"
    and l: "lbits_fit lbits (length data)" "lbits = None \<longrightarrow> rest = []"
  shows "ietf_v1_parse_stream_frame (stream_image stream_id offset lbits fin data @ rest)
     = Some (length (stream_image stream_id offset lbits fin data),
         \<lparr>sf_stream_id = stream_id, sf_fin = fin, sf_offset = offset,
          sf_size = of_nat (length data), sf_data = data @ rest\<rparr>)"
proof -
  have o: "vint_ok offset" using assms(2) by (simp add: vint_ok_nat)
  have n: "unat (of_nat (length data) :: u64) = length data" using assms(2) by (simp add: unat_of_nat)
  have u: "ucast (of_nat (length data) :: u64) = (of_nat (length data) :: u16)"
    by (rule bit_word_eqI) (auto simp: bit_simps)
  show ?thesis
    using assms o n max_offset_check [OF assms(2)]
    by (auto simp: ietf_v1_parse_stream_frame_def stream_image_def lbits_fit_def Let_def frame_simps u
        split: option.splits)
qed

lemma stream_image_type:
  "ietf_v1_parse_frame_type (stream_image stream_id offset lbits fin data @ rest) = QUIC_FRAME_STREAM"
  by (simp add: stream_image_def frame_simps stream_type_range)

section \<open>What the generators write\<close>

lemma vint_write_0: "vint_write 0 0 (Suc 0) = [0]"
  by (simp add: vint_write_def be_bytes_def upt_rec)

lemma vwrite_fold: "vint_write v (vint_val2bits v) (vint_size v) = vwrite v"
  by (simp add: vwrite_def vint_size_def)

lemma length_vint_write_size [frame_simps]:
  "length (vint_write v (vint_val2bits w) (vint_size w)) = vint_size w"
  using length_vint_write_pow [OF vint_val2bits_le, of v w] by (simp add: vint_size_def)

lemma val2bits_fit:
  assumes "n \<le> m" "m < 4611686018427387904"
  shows "n < 2 ^ vint_bits2shift (vint_val2bits (of_nat m))"
  using vint_val2bits_fits [of "of_nat m"] assms by (simp add: unat_of_nat)

text \<open>The space left after the header, when there is room for one.\<close>

lemma u32_sub: "a \<le> b \<Longrightarrow> b < 4294967296 \<Longrightarrow> unat (of_nat b - of_nat a :: u32) = b - a"
proof -
  assume ab: "a \<le> b" "b < 4294967296"
  then have e: "of_nat b - of_nat a = (of_nat (b - a) :: u32)" by (simp add: of_nat_diff)
  show ?thesis unfolding e unat_of_nat using ab by simp
qed

lemma u32_sub2: "of_nat b - of_nat a - of_nat c = (of_nat b - of_nat (a + c) :: u32)"
  by simp

lemma gen_stream_frame_image:
  assumes buf: "buf_len < 4294967296"
    and gen: "ietf_v1_gen_stream_frame buf_len stream_id offset fin sz gsf_read = GSF_FRAME fr"
  shows "\<exists>lbits fin' data. fr = stream_image stream_id offset lbits fin' data \<and> lbits_fit lbits (length data)
     \<and> length fr \<le> buf_len
     \<and> (if fin then data = [] \<and> fin' else \<exists>k \<le> sz. gsf_read k = (data, fin') \<and> 0 < length data \<and> length data \<le> k)"
proof -
  let ?h = "1 + vint_size stream_id + (if offset \<noteq> 0 then vint_size offset else 0)"
  show ?thesis
  proof (cases fin)
    case True
    with gen have fr: "fr = stream_image stream_id offset (if ?h < buf_len then Some 0 else None) True []"
      and len: "?h + of_bool (?h < buf_len) \<le> buf_len"
      by (auto simp: ietf_v1_gen_stream_frame_def stream_image_def Let_def vint_size_pow vwrite_fold
          vint_write_0 split: if_splits)
    have "length fr = ?h + of_bool (?h < buf_len)" unfolding fr by (simp add: stream_image_def frame_simps)
    with fr len True show ?thesis
      by (intro exI [of _ "if ?h < buf_len then Some 0 else None"] exI [of _ True] exI [of _ "[]"])
        (auto simp: lbits_fit_def)
  next
    case False
    define n_avail where "n_avail = (of_nat buf_len - of_nat ?h :: u32)"
    define b where "b = vint_val2bits (of_nat sz)"
    define dlen where "dlen = (if sz < unat n_avail then vint_size (of_nat sz) else 0)"
    define k where "k = (if sz < unat n_avail then min sz (unat (n_avail - of_nat dlen)) else unat n_avail)"
    obtain data fin' where rd: "gsf_read k = (data, fin')" by (cases "gsf_read k")
    from False gen have le: "?h + dlen + 1 \<le> buf_len" and dat: "0 < length data" "length data \<le> k"
      and fr: "fr = [stream_type (if offset \<noteq> 0 then vint_size offset else 0) dlen fin'] @ vwrite stream_id
        @ (if offset \<noteq> 0 then vwrite offset else [])
        @ (if dlen \<noteq> 0 then vint_write (of_nat (length data)) b dlen else []) @ data"
      using rd unfolding k_def dlen_def n_avail_def b_def
      by (auto simp: ietf_v1_gen_stream_frame_def Let_def vint_size_pow vwrite_fold min_def split: if_splits prod.splits)
    have n: "unat n_avail = buf_len - ?h" unfolding n_avail_def using le buf by (intro u32_sub) simp_all
    have n2: "unat (n_avail - of_nat dlen) = buf_len - ?h - dlen"
      unfolding n_avail_def u32_sub2 using u32_sub [of "?h + dlen" buf_len] le buf by linarith
    have k: "k \<le> sz" "k + ?h + dlen \<le> buf_len"
      using n n2 le by (auto simp: k_def dlen_def)
    let ?l = "if sz < unat n_avail then Some b else None"
    have img: "fr = stream_image stream_id offset ?l fin' data"
      unfolding fr stream_image_def by (simp add: dlen_def b_def vint_size_pow)
    have fit: "lbits_fit ?l (length data)"
      using dat(2) k(1) n buf by (auto simp: lbits_fit_def b_def intro!: val2bits_fit)
    have "length fr = ?h + dlen + length data"
      using fit unfolding img by (auto simp: stream_image_def frame_simps lbits_fit_def dlen_def b_def)
    then have "length fr \<le> buf_len" using k(2) dat(2) by linarith
    with img fit dat k(1) rd False show ?thesis
      by (intro exI [of _ ?l] exI [of _ fin'] exI [of _ data]) auto
  qed
qed


lemma gen_crypto_frame_image:
  assumes buf: "buf_len < 4611686018427387904" and sz: "sz < 4611686018427387904"
    and gen: "lsquic_ietf_v1_gen_crypto_frame first_byte buf_len offset sz gsf_read = GSF_FRAME fr"
  shows "\<exists>k b data. fr = [first_byte] @ vwrite offset @ vint_write (of_nat (length data)) b (2 ^ b) @ data
     \<and> b \<le> 3 \<and> length data < 2 ^ vint_bits2shift b \<and> length fr \<le> buf_len
     \<and> k \<le> sz \<and> gsf_read k = data \<and> 0 < length data \<and> length data \<le> k"
proof -
  define b where "b = vint_val2bits (of_nat sz)"
  define n_avail where "n_avail = buf_len - 1 - vint_size offset - 2 ^ b"
  define k where "k = (if n_avail < sz then n_avail else sz)"
  from gen have sp: "1 + vint_size offset + 2 ^ b + 1 \<le> buf_len" and d: "0 < length (gsf_read k)" "length (gsf_read k) \<le> k"
    and fr: "fr = [first_byte] @ vwrite offset @ vint_write (of_nat (length (gsf_read k))) b (2 ^ b) @ gsf_read k"
    unfolding k_def n_avail_def b_def
    by (auto simp: lsquic_ietf_v1_gen_crypto_frame_def Let_def vint_size_pow vwrite_fold split: if_splits)
  have b: "b \<le> 3" by (simp add: b_def)
  have k: "k \<le> sz" "k \<le> n_avail" by (auto simp: k_def)
  then have f: "length (gsf_read k) < 2 ^ vint_bits2shift b"
    unfolding b_def using d(2) sz by (intro val2bits_fit) simp_all
  have "length fr = 1 + vint_size offset + 2 ^ b + length (gsf_read k)"
    unfolding fr using b by (simp add: frame_simps del: vint_size_pow)
  then have "length fr \<le> buf_len" using k(2) d(2) sp unfolding n_avail_def by linarith
  with fr b f k(1) d show ?thesis by blast
qed

lemma parse_crypto_image:
  fixes first_byte :: u8
  assumes "unat offset + length data < 4611686018427387904" "b \<le> 3" "length data < 2 ^ vint_bits2shift b"
  defines "fr \<equiv> [first_byte] @ vwrite offset @ vint_write (of_nat (length data)) b (2 ^ b) @ data"
  shows "lsquic_ietf_v1_parse_crypto_frame (fr @ rest) = Some (length fr,
     \<lparr>sf_stream_id = NOT 0, sf_fin = False, sf_offset = offset, sf_size = of_nat (length data), sf_data = data @ rest\<rparr>)"
proof -
  have o: "vint_ok offset" using assms(1) by (simp add: vint_ok_nat)
  have n: "unat (of_nat (length data) :: u64) = length data" using assms(1) by (simp add: unat_of_nat)
  have u: "ucast (of_nat (length data) :: u64) = (of_nat (length data) :: u16)"
    by (rule bit_word_eqI) (auto simp: bit_simps)
  show ?thesis
    using assms(1-3) o n max_offset_check [OF assms(1)] unfolding fr_def
    by (simp add: lsquic_ietf_v1_parse_crypto_frame_def frame_simps u)
qed

lemma gen_datagram_frame_image:
  assumes gen: "ietf_v1_gen_datagram_frame bufsz min_sz max_sz user_callback = Some fr"
    and buf: "bufsz < 4611686018427387904"
    and cb: "\<And>k data. user_callback k = Some data \<Longrightarrow> length data \<le> k"
  shows "\<exists>k data. user_callback k = Some data \<and> (min_sz = 0 \<longrightarrow> k \<le> max_sz) \<and> (min_sz \<noteq> 0 \<longrightarrow> k = min_sz)
     \<and> length fr \<le> bufsz \<and> ietf_v1_parse_datagram_frame (fr @ rest) = Some (length fr, data)"
proof -
  define b where "b = (if min_sz \<noteq> 0 then vint_val2bits (of_nat min_sz) else vint_val2bits (of_nat bufsz))"
  define k where "k = (if min_sz \<noteq> 0 then min_sz else min (bufsz - 1 - 2 ^ b) max_sz)"
  from gen obtain data where sp: "1 + 2 ^ b + min_sz \<le> bufsz" and d: "user_callback k = Some data"
    and fr: "fr = [0x31] @ vint_write (of_nat (length data)) b (2 ^ b) @ data"
    unfolding ietf_v1_gen_datagram_frame_def Let_def b_def [symmetric] k_def [symmetric]
    by (auto split: if_splits option.splits)
  have b: "b \<le> 3" by (simp add: b_def)
  have n: "length data \<le> k" using cb [OF d] .
  have k: "1 + 2 ^ b + k \<le> bufsz" using sp by (auto simp: k_def)
  have f: "length data < 2 ^ vint_bits2shift b"
    using n k buf by (auto simp: b_def k_def intro!: val2bits_fit)
  have l: "length fr = 1 + 2 ^ b + length data" unfolding fr using b by (simp add: frame_simps del: vint_size_pow)
  have d62: "unat (of_nat (length data) :: u64) = length data"
    using n k buf by (simp add: unat_of_nat)
  have "lsquic_varint_read (vint_write (of_nat (length data)) b (2 ^ b) @ data @ rest) = Some (2 ^ b, of_nat (length data))"
    using b f d62 by (intro varint_read_write) simp_all
  then have "ietf_v1_parse_datagram_frame (fr @ rest) = Some (length fr, data)"
    using b d62 l unfolding fr by (simp add: ietf_v1_parse_datagram_frame_def frame_simps)
  with d l k n show ?thesis by (intro exI [of _ k] exI [of _ data]) (auto simp: k_def)
qed

section \<open>Editing a frame in place\<close>

lemma read_announced:
  "lsquic_varint_read p = Some (n, v) \<Longrightarrow> n = 2 ^ unat (drop_bit 6 (p ! 0))"
  by (cases p) (auto simp: lsquic_varint_read_Cons vint_announced_def Let_def split: if_splits)

lemma vint_write_tag:
  assumes "bits \<le> 3" "unat v < 2 ^ vint_bits2shift bits"
  shows "unat (drop_bit 6 ((vint_write v bits (2 ^ bits) @ rest) ! 0)) = bits"
  using read_announced [OF varint_read_write [OF assms, of rest]] by simp

lemma vwrite_tag: "vint_ok v \<Longrightarrow> 2 ^ unat (drop_bit 6 ((vwrite v @ rest) ! 0)) = vint_size v"
  using read_announced [OF varint_read_vwrite] by simp

lemma dec_stream_image:
  assumes ok: "vint_ok stream_id" "vint_ok offset"
    and b: "b \<le> 3" "length data < 2 ^ vint_bits2shift b" and n: "n \<le> length data"
  shows "ietf_v1_dec_stream_frame_size (stream_image stream_id offset (Some b) fin data @ rest) n
     = (False, stream_image stream_id offset (Some b) fin (take n data) @ drop n data @ rest)"
proof -
  define t where "t = stream_type (if offset \<noteq> 0 then vint_size offset else 0) (2 ^ b) fin"
  define offb where "offb = (if offset \<noteq> 0 then vwrite offset else [])"
  define lenb where "lenb = vint_write (of_nat (length data)) b (2 ^ b)"
  let ?buf = "[t] @ vwrite stream_id @ offb @ lenb @ data @ rest"
  have buf: "stream_image stream_id offset (Some b) fin data @ rest = ?buf"
    by (simp add: stream_image_def t_def offb_def lenb_def)
  have d62: "unat (of_nat (length data) :: u64) = length data"
    using bits2shift_62 [OF b] by (simp add: unat_of_nat)
  have i1: "1 + 2 ^ unat (drop_bit 6 (?buf ! 1)) = length ([t] @ vwrite stream_id)"
    using vwrite_tag [OF ok(1), of "offb @ lenb @ data @ rest"] by (simp add: length_vwrite)
  have "?buf ! length ([t] @ vwrite stream_id) = (offb @ lenb @ data @ rest) ! 0"
    by (simp add: nth_append)
  moreover have "offset \<noteq> 0 \<longrightarrow> 2 ^ unat (drop_bit 6 ((offb @ lenb @ data @ rest) ! 0)) = vint_size offset"
    using vwrite_tag [OF ok(2), of "lenb @ data @ rest"] by (simp add: offb_def)
  ultimately have i2: "(if offset \<noteq> 0 then length ([t] @ vwrite stream_id) + 2 ^ unat (drop_bit 6 (?buf ! length ([t] @ vwrite stream_id)))
       else length ([t] @ vwrite stream_id)) = length ([t] @ vwrite stream_id @ offb)"
    by (auto simp: offb_def length_vwrite)
  have "?buf ! length ([t] @ vwrite stream_id @ offb) = (lenb @ data @ rest) ! 0"
    by (simp add: nth_append)
  then have tag: "unat (drop_bit 6 (?buf ! length ([t] @ vwrite stream_id @ offb))) = b"
    using vint_write_tag [OF b(1), of "of_nat (length data)" "data @ rest"] b(2) d62 unfolding lenb_def by simp
  have ll: "length lenb = 2 ^ b" using b(1) by (simp add: lenb_def length_vint_write_pow)
  have t: "t AND 2 \<noteq> 0" "(t AND 4 \<noteq> 0) = (offset \<noteq> 0)" by (simp_all add: t_def frame_simps)
  have t0: "?buf ! 0 = t" by simp
  have "ietf_v1_dec_stream_frame_size ?buf n
      = (False, ([t] @ vwrite stream_id @ offb) @ vint_write (of_nat n) b (2 ^ b) @ data @ rest)"
    unfolding ietf_v1_dec_stream_frame_size_def Let_def t0 t(2) i1 i2 tag using t(1) ll by simp
  then show ?thesis using n unfolding buf by (simp add: stream_image_def t_def offb_def min_def)
qed

lemma turn_on_fin_image:
  "ietf_v1_turn_on_fin (stream_image stream_id offset lbits fin data @ rest)
     = stream_image stream_id offset lbits True data @ rest"
proof -
  have "stream_type olen dlen fin OR 1 = stream_type olen dlen True" for olen dlen
    by (simp add: stream_type_def of_bool_def)
  then show ?thesis by (simp add: ietf_v1_turn_on_fin_def stream_image_def)
qed

lemma header_sz_image:
  assumes "lbits = Some (vint_val2bits (of_nat (length data))) \<or> lbits = None" "length data < 4294967296"
  shows "length (stream_image stream_id offset lbits fin data)
     \<le> ietf_v1_calc_stream_frame_header_sz stream_id offset (of_nat (length data)) + length data"
proof -
  have "ucast (of_nat (length data) :: u32) = (of_nat (length data) :: u64)"
    using assms(2) by (intro word_unat_eq_iff [THEN iffD2]) (simp add: unat_ucast_up unat_of_nat)
  then show ?thesis using assms(1)
    by (auto simp: stream_image_def ietf_v1_calc_stream_frame_header_sz_def frame_simps)
qed

section \<open>Properties\<close>

text \<open>
  C24. A STREAM frame written into a buffer fits the buffer, and parsing it gives the
  stream, the offset, the data the read callback delivered and the FIN flag; a frame
  with a length field is delimited whatever follows it, one without extends to the
  end of the packet.
\<close>

theorem stream_frame_roundtrip:
  assumes "buf_len < 65536" "vint_ok stream_id" "unat offset + buf_len < 4611686018427387904"
    and "ietf_v1_gen_stream_frame buf_len stream_id offset fin sz gsf_read = GSF_FRAME fr"
    and "fr ! 0 AND 2 = 0 \<longrightarrow> rest = []"
  shows "length fr \<le> buf_len \<and>
    (\<exists>data fin'. (if fin then data = [] \<and> fin' else \<exists>k \<le> sz. gsf_read k = (data, fin') \<and> 0 < length data \<and> length data \<le> k)
     \<and> ietf_v1_parse_stream_frame (fr @ rest) = Some (length fr,
         \<lparr>sf_stream_id = stream_id, sf_fin = fin', sf_offset = offset,
          sf_size = of_nat (length data), sf_data = data @ rest\<rparr>))"
proof -
  have "buf_len < 4294967296" using assms(1) by simp
  from gen_stream_frame_image [OF this assms(4)] obtain lbits fin' data where
    g: "fr = stream_image stream_id offset lbits fin' data" "lbits_fit lbits (length data)" "length fr \<le> buf_len"
      "if fin then data = [] \<and> fin' else \<exists>k \<le> sz. gsf_read k = (data, fin') \<and> 0 < length data \<and> length data \<le> k"
    by blast
  have "length data \<le> length fr" unfolding g(1) by (simp add: stream_image_def)
  then have o: "unat offset + length data < 4611686018427387904" using assms(3) g(3) by simp
  have r: "lbits = None \<longrightarrow> rest = []"
    using assms(5) by (auto simp: g(1) stream_image_def frame_simps)
  from parse_stream_image [OF assms(2) o g(2) r, of fin'] g show ?thesis by blast
qed

theorem stream_frame_roundtrip_witness:
  "ietf_v1_gen_stream_frame 100 4 7 False 3 (\<lambda>k. (take k [1, 2, 3], True)) = GSF_FRAME [15, 4, 7, 3, 1, 2, 3] \<and>
   (\<exists>f. ietf_v1_parse_stream_frame ([15, 4, 7, 3, 1, 2, 3] @ [9]) = Some (length [15, 4, 7, 3, 1, 2, 3 :: u8], f)
      \<and> sf_stream_id f = 4 \<and> sf_offset f = 7)"
proof -
  have g: "ietf_v1_gen_stream_frame 100 4 7 False 3 (\<lambda>k. (take k [1, 2, 3], True)) = GSF_FRAME [15, 4, 7, 3, 1, 2, 3]"
    by code_simp
  from stream_frame_roundtrip [OF _ _ _ g, of "[9]"] obtain f where
    "ietf_v1_parse_stream_frame ([15, 4, 7, 3, 1, 2, 3] @ [9]) = Some (length [15, 4, 7, 3, 1, 2, 3 :: u8], f)"
    "sf_stream_id f = 4" "sf_offset f = 7"
    by (fastforce simp: vint_ok_nat)
  with g show ?thesis by blast
qed

text \<open>
  C25. A CRYPTO frame fits the buffer and parses back to the offset and the data, whatever
  follows it, for every first byte (the type differs between protocol versions).
\<close>

theorem crypto_frame_roundtrip:
  assumes "buf_len < 65536" "sz < 4611686018427387904" "unat offset + buf_len < 4611686018427387904"
    and "lsquic_ietf_v1_gen_crypto_frame first_byte buf_len offset sz gsf_read = GSF_FRAME fr"
  shows "length fr \<le> buf_len \<and>
    (\<exists>k \<le> sz. 0 < length (gsf_read k) \<and> length (gsf_read k) \<le> k \<and>
       lsquic_ietf_v1_parse_crypto_frame (fr @ rest) = Some (length fr,
         \<lparr>sf_stream_id = NOT 0, sf_fin = False, sf_offset = offset,
          sf_size = of_nat (length (gsf_read k)), sf_data = gsf_read k @ rest\<rparr>))"
proof -
  have "buf_len < 4611686018427387904" using assms(1) by simp
  from gen_crypto_frame_image [OF this assms(2,4)] obtain k b where
    g: "fr = [first_byte] @ vwrite offset @ vint_write (of_nat (length (gsf_read k))) b (2 ^ b) @ gsf_read k"
      "b \<le> 3" "length (gsf_read k) < 2 ^ vint_bits2shift b" "length fr \<le> buf_len" "k \<le> sz"
      "0 < length (gsf_read k)" "length (gsf_read k) \<le> k"
    by blast
  have "length (gsf_read k) \<le> length fr" unfolding g(1) by simp
  then have "unat offset + length (gsf_read k) < 4611686018427387904" using assms(3) g(4) by simp
  from parse_crypto_image [OF this g(2,3), of first_byte rest] g show ?thesis by auto
qed

theorem crypto_frame_roundtrip_witness:
  "lsquic_ietf_v1_gen_crypto_frame 6 100 5 3 (\<lambda>k. take k [1, 2, 3]) = GSF_FRAME [6, 5, 3, 1, 2, 3] \<and>
   (\<exists>f. lsquic_ietf_v1_parse_crypto_frame ([6, 5, 3, 1, 2, 3] @ [9]) = Some (length [6, 5, 3, 1, 2, 3 :: u8], f) \<and> sf_offset f = 5)"
proof -
  have g: "lsquic_ietf_v1_gen_crypto_frame 6 100 5 3 (\<lambda>k. take k [1, 2, 3]) = GSF_FRAME [6, 5, 3, 1, 2, 3]"
    by code_simp
  from crypto_frame_roundtrip [OF _ _ _ g, of "[9]"] obtain f where
    "lsquic_ietf_v1_parse_crypto_frame ([6, 5, 3, 1, 2, 3] @ [9]) = Some (length [6, 5, 3, 1, 2, 3 :: u8], f)" "sf_offset f = 5"
    by fastforce
  with g show ?thesis by blast
qed

text \<open>
  C26. Shrinking a STREAM frame in place: with a length field, the frame then parses with the
  new size at the same position, its other fields unchanged, and the bytes behind the
  shrunk frame stay where they were.
\<close>

theorem dec_stream_frame_size_correct:
  assumes "vint_ok stream_id" "unat offset + length data < 4611686018427387904"
    and "b \<le> 3" "length data < 2 ^ vint_bits2shift b" "n \<le> length data"
    and "ietf_v1_dec_stream_frame_size (stream_image stream_id offset (Some b) fin data @ rest) n = (no_len, buf)"
  shows "\<not> no_len \<and> ietf_v1_parse_stream_frame buf =
     Some (length (stream_image stream_id offset (Some b) fin data) - (length data - n),
       \<lparr>sf_stream_id = stream_id, sf_fin = fin, sf_offset = offset, sf_size = of_nat n, sf_data = data @ rest\<rparr>)"
proof -
  have o: "vint_ok offset" using assms(2) by (simp add: vint_ok_nat)
  from dec_stream_image [OF assms(1) o assms(3,4,5), of fin rest] assms(6)
  have buf: "\<not> no_len" "buf = stream_image stream_id offset (Some b) fin (take n data) @ drop n data @ rest"
    by simp_all
  have n: "length (take n data) = n" using assms(5) by simp
  have "unat offset + length (take n data) < 4611686018427387904" "lbits_fit (Some b) (length (take n data))"
    using assms(2-5) by (simp_all add: lbits_fit_def)
  from parse_stream_image [OF assms(1) this, of "drop n data @ rest" fin] buf n assms(3,5)
  show ?thesis by (simp add: stream_image_def length_vint_write_pow)
qed

theorem dec_stream_frame_size_correct_witness:
  "ietf_v1_dec_stream_frame_size (stream_image 4 7 (Some 1) False [1, 2, 3] @ [9]) 2 = (False, [14, 4, 7, 64, 2, 1, 2, 3, 9]) \<and>
   ietf_v1_parse_stream_frame [14, 4, 7, 64, 2, 1, 2, 3, 9] =
     Some (length (stream_image 4 7 (Some 1) False [1, 2, 3]) - (length [1, 2, 3 :: u8] - 2),
       \<lparr>sf_stream_id = 4, sf_fin = False, sf_offset = 7, sf_size = of_nat 2, sf_data = [1, 2, 3] @ [9]\<rparr>)"
proof -
  have d: "ietf_v1_dec_stream_frame_size (stream_image 4 7 (Some 1) False [1, 2, 3] @ [9]) 2 = (False, [14, 4, 7, 64, 2, 1, 2, 3, 9])"
    by code_simp
  from dec_stream_frame_size_correct [OF _ _ _ _ _ d] d show ?thesis by (simp add: vint_ok_nat)
qed

text \<open>
  C27. A DATAGRAM frame whose callback respects the space it is given fits the buffer and
  parses back to the datagram, whatever follows it.
\<close>

theorem datagram_frame_roundtrip:
  assumes "bufsz < 4611686018427387904"
    and "\<And>k data. user_callback k = Some data \<Longrightarrow> length data \<le> k"
    and "ietf_v1_gen_datagram_frame bufsz min_sz max_sz user_callback = Some fr"
  shows "\<exists>k data. user_callback k = Some data \<and> (min_sz = 0 \<longrightarrow> k \<le> max_sz) \<and> (min_sz \<noteq> 0 \<longrightarrow> k = min_sz)
     \<and> length fr \<le> bufsz \<and> ietf_v1_parse_datagram_frame (fr @ rest) = Some (length fr, data)"
  using assms(3,1,2) by (rule gen_datagram_frame_image)

theorem datagram_frame_roundtrip_witness:
  "ietf_v1_gen_datagram_frame 20 0 5 (\<lambda>k. Some (replicate k 8)) = Some [49, 5, 8, 8, 8, 8, 8] \<and>
   (\<exists>data. ietf_v1_parse_datagram_frame ([49, 5, 8, 8, 8, 8, 8] @ [1]) = Some (length [49, 5, 8, 8, 8, 8, 8 :: u8], data))"
proof -
  have g: "ietf_v1_gen_datagram_frame 20 0 5 (\<lambda>k. Some (replicate k 8)) = Some [49, 5, 8, 8, 8, 8, 8]"
    by code_simp
  from datagram_frame_roundtrip [OF _ _ g, of "[1]"] g show ?thesis by fastforce
qed

end
