(* ===== verification/Frame_Handlers.thy ===== *)
theory Frame_Handlers
  imports Packet_Frames Stream_Frames
begin

text \<open>
  The frame handlers of a connection (\<^verbatim>\<open>lsquic_full_conn_ietf.c\<close>): what each does with the frame it is called on,
  every check before and after the frame is parsed, the errors it reports to the peer and the fields of the
  connection it changes.  What the handlers delegate to the streams, to the tables of connection IDs and paths, to the
  encryption session and to the callbacks of the application is the argument \<open>ops\<close>: those functions are given the whole
  connection and may change any of it, and the loops over streams and tables report whether the frame is acceptable.
\<close>

section \<open>Definitions\<close>

unbundle bit_operations_syntax

datatype trans_error_code = TEC_STREAM_STATE_ERROR | TEC_FRAME_ENCODING_ERROR | TEC_PROTOCOL_VIOLATION

text \<open>
  The fields the handlers read and write; flags of \<^verbatim>\<open>ifc_flags\<close>, \<^verbatim>\<open>ifc_mflags\<close> and \<^verbatim>\<open>ifc_send_flags\<close>
  are booleans.  The remaining state of the connection is \<open>ifc_rest\<close>.
\<close>

record 'r ietf_full_conn =
  ifc_server :: bool            \<comment> \<open>\<^verbatim>\<open>IFC_SERVER\<close>\<close>
  ifc_delayed_acks :: bool      \<comment> \<open>\<^verbatim>\<open>IFC_DELAYED_ACKS\<close>\<close>
  ifc_datagrams :: bool         \<comment> \<open>\<^verbatim>\<open>IFC_DATAGRAMS\<close>\<close>
  ifc_recv_close :: bool        \<comment> \<open>\<^verbatim>\<open>IFC_RECV_CLOSE\<close>\<close>
  ifc_closing :: bool           \<comment> \<open>\<^verbatim>\<open>IFC_CLOSING\<close>\<close>
  ifc_ack_had_miss :: bool      \<comment> \<open>\<^verbatim>\<open>IFC_ACK_HAD_MISS\<close>\<close>
  ifc_ignore_missing :: bool    \<comment> \<open>\<^verbatim>\<open>MF_IGNORE_MISSING\<close>\<close>
  ifc_send_max_data :: bool     \<comment> \<open>\<^verbatim>\<open>SF_SEND_MAX_DATA\<close>\<close>
  ifc_send_path_resp :: "nat \<Rightarrow> bool"   \<comment> \<open>\<^verbatim>\<open>SF_SEND_PATH_RESP << path\<close>\<close>
  ifc_in_error :: bool          \<comment> \<open>\<^verbatim>\<open>IFC_ERROR\<close>\<close>
  ifc_error :: "trans_error_code option"
  cc_max :: u64
  ifc_max_allowed_stream_id :: "nat \<Rightarrow> u64"
  ifc_last_max_data_off_sent :: u64
  ifc_max_ack_freq_seqno :: u32
  ifc_max_retx_since_last_ack :: u32
  ifc_max_ack_delay :: u64
  ifc_last_retire_prior_to :: u32
  ifc_scid_seqno :: u32
  cop_inc_chal :: "nat \<Rightarrow> u64"  \<comment> \<open>of each path\<close>
  cur_dcid_len :: nat
  es_scid_len :: nat
  last_tick :: u64
  last_prog :: u64
  ifc_rest :: 'r

record 'r conn_ops =
  rst_stream_in :: "u64 \<Rightarrow> u64 \<Rightarrow> u64 \<Rightarrow> 'r ietf_full_conn \<Rightarrow> 'r ietf_full_conn \<times> bool"
  stop_sending_in :: "u64 \<Rightarrow> u64 \<Rightarrow> 'r ietf_full_conn \<Rightarrow> 'r ietf_full_conn \<times> bool"
  window_update_in :: "u64 \<Rightarrow> u64 \<Rightarrow> 'r ietf_full_conn \<Rightarrow> 'r ietf_full_conn \<times> bool"
  peer_blocked_in :: "u64 \<Rightarrow> u64 \<Rightarrow> 'r ietf_full_conn \<Rightarrow> 'r ietf_full_conn"
  retire_seqno :: "u64 \<Rightarrow> 'r ietf_full_conn \<Rightarrow> 'r ietf_full_conn"
  retire_dcids_prior_to :: "u64 \<Rightarrow> 'r ietf_full_conn \<Rightarrow> 'r ietf_full_conn \<times> bool"
  insert_new_dcid :: "u64 \<Rightarrow> bytes \<Rightarrow> bytes \<Rightarrow> bool \<Rightarrow> 'r ietf_full_conn \<Rightarrow> 'r ietf_full_conn \<times> bool"
  retire_cid_in :: "u64 \<Rightarrow> 'r ietf_full_conn \<Rightarrow> 'r ietf_full_conn \<times> bool"
  path_response_in :: "u64 \<Rightarrow> 'r ietf_full_conn \<Rightarrow> 'r ietf_full_conn \<times> bool"
  handshake_confirmed :: "'r ietf_full_conn \<Rightarrow> 'r ietf_full_conn"
  on_new_token :: "bytes \<Rightarrow> 'r ietf_full_conn \<Rightarrow> 'r ietf_full_conn"
  on_conncloseframe_received :: "bool \<Rightarrow> u64 \<Rightarrow> bytes \<Rightarrow> 'r ietf_full_conn \<Rightarrow> 'r ietf_full_conn"
  on_datagram :: "bytes \<Rightarrow> 'r ietf_full_conn \<Rightarrow> 'r ietf_full_conn"
  data_frame_in :: "process_frame_f \<Rightarrow> 'r ietf_full_conn \<Rightarrow> bytes \<Rightarrow> 'r ietf_full_conn \<times> nat"

definition abort_quietly :: "trans_error_code \<Rightarrow> 'r ietf_full_conn \<Rightarrow> 'r ietf_full_conn" where
  "abort_quietly code conn = conn\<lparr>ifc_error := Some code, ifc_in_error := True\<rparr>"

definition TP_MIN_ACK_DELAY :: u64 where "TP_MIN_ACK_DELAY = 10000"

text \<open>The types of streams: bit 0 is the initiator (1 the server), bit 1 the direction (1 unidirectional).\<close>

definition gen_sit :: "bool \<Rightarrow> stream_dir \<Rightarrow> nat" where
  "gen_sit server sd = of_bool server + 2 * of_bool (sd = SD_UNI)"

definition conn_is_send_only_stream :: "'r ietf_full_conn \<Rightarrow> u64 \<Rightarrow> bool" where
  "conn_is_send_only_stream conn stream_id =
     (let sit = stream_id AND 3 in if ifc_server conn then sit = 3 else sit = 2)"

definition conn_is_receive_only_stream :: "'r ietf_full_conn \<Rightarrow> u64 \<Rightarrow> bool" where
  "conn_is_receive_only_stream conn stream_id =
     (let sit = stream_id AND 3 in if ifc_server conn then sit = 2 else sit = 3)"

subsection \<open>What a handler does once its frame is parsed\<close>

definition got_max_data :: "u64 \<Rightarrow> 'r ietf_full_conn \<Rightarrow> 'r ietf_full_conn \<times> bool" where
  "got_max_data max_data conn = (if max_data > cc_max conn then conn\<lparr>cc_max := max_data\<rparr> else conn, True)"

definition got_blocked :: "u64 \<Rightarrow> 'r ietf_full_conn \<Rightarrow> 'r ietf_full_conn \<times> bool" where
  "got_blocked peer_off conn =
     (if peer_off > ifc_last_max_data_off_sent conn \<and> \<not> ifc_send_max_data conn
      then conn\<lparr>ifc_send_max_data := True\<rparr> else conn, True)"

definition got_max_streams :: "stream_dir \<Rightarrow> u64 \<Rightarrow> 'r ietf_full_conn \<Rightarrow> 'r ietf_full_conn \<times> bool" where
  "got_max_streams sd max_streams conn =
     (let sit = gen_sit (ifc_server conn) sd; max_stream_id = push_bit 2 max_streams in
      if max_stream_id > VINT_MAX_VALUE then (abort_quietly TEC_FRAME_ENCODING_ERROR conn, False)
      else (if max_stream_id > ifc_max_allowed_stream_id conn sit
            then conn\<lparr>ifc_max_allowed_stream_id := (ifc_max_allowed_stream_id conn)(sit := max_stream_id)\<rparr> else conn, True))"

definition got_streams_blocked :: "u64 \<Rightarrow> 'r ietf_full_conn \<Rightarrow> 'r ietf_full_conn \<times> bool" where
  "got_streams_blocked stream_limit conn =
     (let max_stream_id = push_bit 2 stream_limit in
      if max_stream_id > VINT_MAX_VALUE then (abort_quietly TEC_FRAME_ENCODING_ERROR conn, False) else (conn, True))"

definition got_rst_stream :: "'r conn_ops \<Rightarrow> u64 \<Rightarrow> u64 \<Rightarrow> u64 \<Rightarrow> 'r ietf_full_conn \<Rightarrow> 'r ietf_full_conn \<times> bool" where
  "got_rst_stream ops stream_id offset error_code conn =
     (if conn_is_send_only_stream conn stream_id then (abort_quietly TEC_STREAM_STATE_ERROR conn, False)
      else rst_stream_in ops stream_id offset error_code conn)"

definition got_stop_sending :: "'r conn_ops \<Rightarrow> u64 \<Rightarrow> u64 \<Rightarrow> 'r ietf_full_conn \<Rightarrow> 'r ietf_full_conn \<times> bool" where
  "got_stop_sending ops stream_id error_code conn =
     (if conn_is_receive_only_stream conn stream_id then (abort_quietly TEC_STREAM_STATE_ERROR conn, False)
      else stop_sending_in ops stream_id error_code conn)"

definition got_max_stream_data :: "'r conn_ops \<Rightarrow> u64 \<Rightarrow> u64 \<Rightarrow> 'r ietf_full_conn \<Rightarrow> 'r ietf_full_conn \<times> bool" where
  "got_max_stream_data ops stream_id max_data conn =
     (if conn_is_receive_only_stream conn stream_id then (abort_quietly TEC_STREAM_STATE_ERROR conn, False)
      else window_update_in ops stream_id max_data conn)"

definition got_stream_blocked :: "'r conn_ops \<Rightarrow> u64 \<Rightarrow> u64 \<Rightarrow> 'r ietf_full_conn \<Rightarrow> 'r ietf_full_conn \<times> bool" where
  "got_stream_blocked ops stream_id peer_off conn =
     (if conn_is_send_only_stream conn stream_id then (abort_quietly TEC_STREAM_STATE_ERROR conn, False)
      else (peer_blocked_in ops stream_id peer_off conn, True))"

definition got_path_challenge :: "nat \<Rightarrow> u64 \<Rightarrow> 'r ietf_full_conn \<Rightarrow> 'r ietf_full_conn \<times> bool" where
  "got_path_challenge path_id chal conn =
     (conn\<lparr>cop_inc_chal := (cop_inc_chal conn)(path_id := chal),
        ifc_send_path_resp := (ifc_send_path_resp conn)(path_id := True)\<rparr>, True)"

definition got_new_token :: "'r conn_ops \<Rightarrow> bytes \<Rightarrow> 'r ietf_full_conn \<Rightarrow> 'r ietf_full_conn \<times> bool" where
  "got_new_token ops token conn =
     (if token = [] then (abort_quietly TEC_FRAME_ENCODING_ERROR conn, False)
      else if ifc_server conn then (abort_quietly TEC_PROTOCOL_VIOLATION conn, False)
      else (on_new_token ops token conn, True))"

definition got_handshake_done :: "'r conn_ops \<Rightarrow> 'r ietf_full_conn \<Rightarrow> 'r ietf_full_conn \<times> bool" where
  "got_handshake_done ops conn =
     (if ifc_server conn then (abort_quietly TEC_PROTOCOL_VIOLATION conn, False) else (handshake_confirmed ops conn, True))"

definition got_connection_close :: "'r conn_ops \<Rightarrow> bool \<Rightarrow> u64 \<Rightarrow> bytes \<Rightarrow> 'r ietf_full_conn \<Rightarrow> 'r ietf_full_conn \<times> bool" where
  "got_connection_close ops app_error error_code reason conn =
     ((on_conncloseframe_received ops app_error error_code reason conn)\<lparr>ifc_recv_close := True, ifc_closing := True\<rparr>, True)"

text \<open>The counters are 64 bits wide in the frame and \<^verbatim>\<open>unsigned\<close> in the connection.\<close>

definition got_new_connection_id ::
  "'r conn_ops \<Rightarrow> u64 \<Rightarrow> u64 \<Rightarrow> bytes \<Rightarrow> bytes \<Rightarrow> 'r ietf_full_conn \<Rightarrow> 'r ietf_full_conn \<times> bool" where
  "got_new_connection_id ops seqno retire_prior_to cid token conn =
     (if seqno > 0xFFFFFFFF \<or> retire_prior_to > 0xFFFFFFFF then (conn, True)
      else if retire_prior_to > seqno then (abort_quietly TEC_FRAME_ENCODING_ERROR conn, False)
      else if cur_dcid_len conn = 0 then (abort_quietly TEC_PROTOCOL_VIOLATION conn, False)
      else if seqno < ucast (ifc_last_retire_prior_to conn) then (retire_seqno ops seqno conn, True)
      else
        let (conn, update_cur_dcid) =
          (if retire_prior_to > ucast (ifc_last_retire_prior_to conn)
           then retire_dcids_prior_to ops retire_prior_to (conn\<lparr>ifc_last_retire_prior_to := ucast retire_prior_to\<rparr>)
           else (conn, False))
        in insert_new_dcid ops seqno cid token update_cur_dcid conn)"

definition got_retire_connection_id :: "'r conn_ops \<Rightarrow> u64 \<Rightarrow> 'r ietf_full_conn \<Rightarrow> 'r ietf_full_conn \<times> bool" where
  "got_retire_connection_id ops seqno conn =
     (if seqno \<ge> ucast (ifc_scid_seqno conn) then (abort_quietly TEC_PROTOCOL_VIOLATION conn, False)
      else retire_cid_in ops seqno conn)"

definition got_ack_frequency :: "u64 \<Rightarrow> u64 \<Rightarrow> u64 \<Rightarrow> bool \<Rightarrow> 'r ietf_full_conn \<Rightarrow> 'r ietf_full_conn \<times> bool" where
  "got_ack_frequency seqno pack_tol upd_mad ignore conn =
     (if pack_tol = 0 then (abort_quietly TEC_PROTOCOL_VIOLATION conn, False)
      else if upd_mad < TP_MIN_ACK_DELAY then (abort_quietly TEC_PROTOCOL_VIOLATION conn, False)
      else if ifc_max_ack_freq_seqno conn > 0 \<and> seqno \<le> ucast (ifc_max_ack_freq_seqno conn) then (conn, True)
      else
        let conn = conn\<lparr>ifc_max_ack_freq_seqno := ucast seqno\<rparr>;
            conn = (if pack_tol < 0xFFFFFFFF then conn\<lparr>ifc_max_retx_since_last_ack := ucast pack_tol\<rparr> else conn);
            conn = (if upd_mad \<noteq> ifc_max_ack_delay conn then conn\<lparr>ifc_max_ack_delay := upd_mad\<rparr> else conn)
        in (if ignore then conn\<lparr>ifc_ignore_missing := True, ifc_ack_had_miss := False\<rparr>
            else conn\<lparr>ifc_ignore_missing := False\<rparr>, True))"

subsection \<open>The handlers\<close>

definition count_zero_bytes :: "bytes \<Rightarrow> nat" where
  "count_zero_bytes p = length (takeWhile (\<lambda>b. b = 0) p)"

text \<open>A handler that parses its frame and returns zero when it cannot.\<close>

definition on_parsed :: "(nat \<times> 'a) option \<Rightarrow> ('a \<Rightarrow> 'r ietf_full_conn \<Rightarrow> 'r ietf_full_conn \<times> bool)
    \<Rightarrow> 'r ietf_full_conn \<Rightarrow> 'r ietf_full_conn \<times> nat" where
  "on_parsed r got conn = (case r of None \<Rightarrow> (conn, 0) | Some (parsed_len, x) \<Rightarrow> used parsed_len (got x conn))"

definition process_padding_frame :: "'r ietf_full_conn \<Rightarrow> bytes \<Rightarrow> 'r ietf_full_conn \<times> nat" where
  "process_padding_frame conn p = (conn, count_zero_bytes p)"

definition process_ping_frame :: "'r ietf_full_conn \<Rightarrow> bytes \<Rightarrow> 'r ietf_full_conn \<times> nat" where
  "process_ping_frame conn p = (conn\<lparr>last_prog := last_tick conn\<rparr>, 1)"

definition process_max_data_frame :: "'r ietf_full_conn \<Rightarrow> bytes \<Rightarrow> 'r ietf_full_conn \<times> nat" where
  "process_max_data_frame conn p = on_parsed (ietf_v1_parse_max_data p) got_max_data conn"

definition process_blocked_frame :: "'r ietf_full_conn \<Rightarrow> bytes \<Rightarrow> 'r ietf_full_conn \<times> nat" where
  "process_blocked_frame conn p = on_parsed (ietf_v1_parse_blocked_frame p) got_blocked conn"

definition process_max_streams_frame :: "'r ietf_full_conn \<Rightarrow> bytes \<Rightarrow> 'r ietf_full_conn \<times> nat" where
  "process_max_streams_frame conn p = on_parsed (ietf_v1_parse_max_streams_frame p) (\<lambda>(sd, n). got_max_streams sd n) conn"

definition process_streams_blocked_frame :: "'r ietf_full_conn \<Rightarrow> bytes \<Rightarrow> 'r ietf_full_conn \<times> nat" where
  "process_streams_blocked_frame conn p =
     on_parsed (ietf_v1_parse_streams_blocked_frame p) (\<lambda>(sd, n). got_streams_blocked n) conn"

definition process_rst_stream_frame :: "'r conn_ops \<Rightarrow> 'r ietf_full_conn \<Rightarrow> bytes \<Rightarrow> 'r ietf_full_conn \<times> nat" where
  "process_rst_stream_frame ops conn p =
     on_parsed (ietf_v1_parse_rst_frame p) (\<lambda>(id, off, code). got_rst_stream ops id off code) conn"

definition process_stop_sending_frame :: "'r conn_ops \<Rightarrow> 'r ietf_full_conn \<Rightarrow> bytes \<Rightarrow> 'r ietf_full_conn \<times> nat" where
  "process_stop_sending_frame ops conn p =
     on_parsed (ietf_v1_parse_stop_sending_frame p) (\<lambda>(id, code). got_stop_sending ops id code) conn"

definition process_max_stream_data_frame :: "'r conn_ops \<Rightarrow> 'r ietf_full_conn \<Rightarrow> bytes \<Rightarrow> 'r ietf_full_conn \<times> nat" where
  "process_max_stream_data_frame ops conn p =
     on_parsed (ietf_v1_parse_max_stream_data_frame p) (\<lambda>(id, off). got_max_stream_data ops id off) conn"

definition process_stream_blocked_frame :: "'r conn_ops \<Rightarrow> 'r ietf_full_conn \<Rightarrow> bytes \<Rightarrow> 'r ietf_full_conn \<times> nat" where
  "process_stream_blocked_frame ops conn p =
     on_parsed (ietf_v1_parse_stream_blocked_frame p) (\<lambda>(id, off). got_stream_blocked ops id off) conn"

definition process_path_challenge_frame :: "nat \<Rightarrow> 'r ietf_full_conn \<Rightarrow> bytes \<Rightarrow> 'r ietf_full_conn \<times> nat" where
  "process_path_challenge_frame path_id conn p = on_parsed (ietf_v1_parse_path_chal_frame p) (got_path_challenge path_id) conn"

definition process_path_response_frame :: "'r conn_ops \<Rightarrow> 'r ietf_full_conn \<Rightarrow> bytes \<Rightarrow> 'r ietf_full_conn \<times> nat" where
  "process_path_response_frame ops conn p = on_parsed (ietf_v1_parse_path_resp_frame p) (path_response_in ops) conn"

definition process_new_token_frame :: "'r conn_ops \<Rightarrow> 'r ietf_full_conn \<Rightarrow> bytes \<Rightarrow> 'r ietf_full_conn \<times> nat" where
  "process_new_token_frame ops conn p = on_parsed (ietf_v1_parse_new_token_frame p) (got_new_token ops) conn"

definition process_handshake_done_frame :: "'r conn_ops \<Rightarrow> 'r ietf_full_conn \<Rightarrow> bytes \<Rightarrow> 'r ietf_full_conn \<times> nat" where
  "process_handshake_done_frame ops conn p =
     (case ietf_v1_parse_handshake_done_frame p of None \<Rightarrow> (conn, 0)
      | Some parsed_len \<Rightarrow> used parsed_len (got_handshake_done ops conn))"

definition process_connection_close_frame :: "'r conn_ops \<Rightarrow> 'r ietf_full_conn \<Rightarrow> bytes \<Rightarrow> 'r ietf_full_conn \<times> nat" where
  "process_connection_close_frame ops conn p =
     (case ietf_v1_parse_connect_close_frame p of Inl _ \<Rightarrow> (conn, 0)
      | Inr (parsed_len, app_error, error_code, reason_len, reason_off) \<Rightarrow>
          used parsed_len (got_connection_close ops app_error error_code (take (unat reason_len) (drop (unat reason_off) p)) conn))"

definition process_new_connection_id_frame :: "'r conn_ops \<Rightarrow> 'r ietf_full_conn \<Rightarrow> bytes \<Rightarrow> 'r ietf_full_conn \<times> nat" where
  "process_new_connection_id_frame ops conn p =
     (case ietf_v1_parse_new_conn_id p of
        Inl err \<Rightarrow> (if err = -2 then abort_quietly TEC_FRAME_ENCODING_ERROR conn else conn, 0)
      | Inr (parsed_len, seqno, retire_prior_to, cid, token) \<Rightarrow>
          used parsed_len (got_new_connection_id ops seqno retire_prior_to cid token conn))"

definition process_retire_connection_id_frame :: "'r conn_ops \<Rightarrow> 'r ietf_full_conn \<Rightarrow> bytes \<Rightarrow> 'r ietf_full_conn \<times> nat" where
  "process_retire_connection_id_frame ops conn p =
     (if es_scid_len conn = 0 then (abort_quietly TEC_PROTOCOL_VIOLATION conn, 0)
      else on_parsed (ietf_v1_parse_retire_cid_frame p) (got_retire_connection_id ops) conn)"

definition process_ack_frequency_frame :: "'r ietf_full_conn \<Rightarrow> bytes \<Rightarrow> 'r ietf_full_conn \<times> nat" where
  "process_ack_frequency_frame conn p =
     (if \<not> ifc_delayed_acks conn then (abort_quietly TEC_PROTOCOL_VIOLATION conn, 0)
      else on_parsed (ietf_v1_parse_ack_frequency_frame p) (\<lambda>(seqno, tol, mad, ign). got_ack_frequency seqno tol mad ign) conn)"

definition process_timestamp_frame :: "'r ietf_full_conn \<Rightarrow> bytes \<Rightarrow> 'r ietf_full_conn \<times> nat" where
  "process_timestamp_frame conn p = (abort_quietly TEC_PROTOCOL_VIOLATION conn, 0)"

definition process_datagram_frame :: "'r conn_ops \<Rightarrow> 'r ietf_full_conn \<Rightarrow> bytes \<Rightarrow> 'r ietf_full_conn \<times> nat" where
  "process_datagram_frame ops conn p =
     (if \<not> ifc_datagrams conn then (abort_quietly TEC_PROTOCOL_VIOLATION conn, 0)
      else on_parsed (ietf_v1_parse_datagram_frame p) (\<lambda>data conn. (on_datagram ops data conn, True)) conn)"

text \<open>A call through the table.  The handlers of STREAM, ACK and CRYPTO are among the functions of \<open>ops\<close>.\<close>

fun call_handler :: "'r conn_ops \<Rightarrow> nat \<Rightarrow> process_frame_f \<Rightarrow> 'r ietf_full_conn \<Rightarrow> bytes \<Rightarrow> 'r ietf_full_conn \<times> nat" where
  "call_handler ops path_id PROCESS_PADDING_FRAME conn p = process_padding_frame conn p"
| "call_handler ops path_id PROCESS_PING_FRAME conn p = process_ping_frame conn p"
| "call_handler ops path_id PROCESS_MAX_DATA_FRAME conn p = process_max_data_frame conn p"
| "call_handler ops path_id PROCESS_BLOCKED_FRAME conn p = process_blocked_frame conn p"
| "call_handler ops path_id PROCESS_MAX_STREAMS_FRAME conn p = process_max_streams_frame conn p"
| "call_handler ops path_id PROCESS_STREAMS_BLOCKED_FRAME conn p = process_streams_blocked_frame conn p"
| "call_handler ops path_id PROCESS_RST_STREAM_FRAME conn p = process_rst_stream_frame ops conn p"
| "call_handler ops path_id PROCESS_STOP_SENDING_FRAME conn p = process_stop_sending_frame ops conn p"
| "call_handler ops path_id PROCESS_MAX_STREAM_DATA_FRAME conn p = process_max_stream_data_frame ops conn p"
| "call_handler ops path_id PROCESS_STREAM_BLOCKED_FRAME conn p = process_stream_blocked_frame ops conn p"
| "call_handler ops path_id PROCESS_PATH_CHALLENGE_FRAME conn p = process_path_challenge_frame path_id conn p"
| "call_handler ops path_id PROCESS_PATH_RESPONSE_FRAME conn p = process_path_response_frame ops conn p"
| "call_handler ops path_id PROCESS_NEW_TOKEN_FRAME conn p = process_new_token_frame ops conn p"
| "call_handler ops path_id PROCESS_HANDSHAKE_DONE_FRAME conn p = process_handshake_done_frame ops conn p"
| "call_handler ops path_id PROCESS_CONNECTION_CLOSE_FRAME conn p = process_connection_close_frame ops conn p"
| "call_handler ops path_id PROCESS_NEW_CONNECTION_ID_FRAME conn p = process_new_connection_id_frame ops conn p"
| "call_handler ops path_id PROCESS_RETIRE_CONNECTION_ID_FRAME conn p = process_retire_connection_id_frame ops conn p"
| "call_handler ops path_id PROCESS_ACK_FREQUENCY_FRAME conn p = process_ack_frequency_frame conn p"
| "call_handler ops path_id PROCESS_TIMESTAMP_FRAME conn p = process_timestamp_frame conn p"
| "call_handler ops path_id PROCESS_DATAGRAM_FRAME conn p = process_datagram_frame ops conn p"
| "call_handler ops path_id h conn p = data_frame_in ops h conn p"

lemmas handler_defs = process_padding_frame_def process_ping_frame_def process_max_data_frame_def process_blocked_frame_def process_max_streams_frame_def process_streams_blocked_frame_def process_rst_stream_frame_def process_stop_sending_frame_def process_max_stream_data_frame_def process_stream_blocked_frame_def process_path_challenge_frame_def process_path_response_frame_def process_new_token_frame_def process_handshake_done_frame_def process_connection_close_frame_def process_new_connection_id_frame_def process_retire_connection_id_frame_def process_ack_frequency_frame_def process_timestamp_frame_def process_datagram_frame_def

section \<open>The reaction of a connection to a frame\<close>

text \<open>The connection after a frame with given fields, and whether the frame is accepted.\<close>

fun react :: "'r conn_ops \<Rightarrow> nat \<Rightarrow> control_frame \<Rightarrow> 'r ietf_full_conn \<Rightarrow> 'r ietf_full_conn \<times> bool" where
  "react ops path_id (F_BLOCKED off) conn = got_blocked off conn"
| "react ops path_id (F_MAX_DATA v) conn = got_max_data v conn"
| "react ops path_id (F_RETIRE_CID seqno) conn =
     (if es_scid_len conn = 0 then (abort_quietly TEC_PROTOCOL_VIOLATION conn, False) else got_retire_connection_id ops seqno conn)"
| "react ops path_id (F_STREAM_BLOCKED sid off) conn = got_stream_blocked ops sid off conn"
| "react ops path_id (F_MAX_STREAM_DATA sid off) conn = got_max_stream_data ops sid off conn"
| "react ops path_id (F_STOP_SENDING sid code) conn = got_stop_sending ops sid code conn"
| "react ops path_id (F_RST_STREAM sid sz code) conn = got_rst_stream ops sid sz code conn"
| "react ops path_id (F_STREAMS_BLOCKED sd limit) conn = got_streams_blocked limit conn"
| "react ops path_id (F_MAX_STREAMS sd limit) conn = got_max_streams sd limit conn"
| "react ops path_id (F_PATH_CHAL chal) conn = got_path_challenge path_id chal conn"
| "react ops path_id (F_PATH_RESP resp) conn = path_response_in ops resp conn"
| "react ops path_id (F_NEW_TOKEN token) conn = got_new_token ops token conn"
| "react ops path_id F_HANDSHAKE_DONE conn = got_handshake_done ops conn"
| "react ops path_id (F_NEW_CONN_ID seqno rpt cid token) conn = got_new_connection_id ops seqno rpt cid token conn"
| "react ops path_id (F_CONNECT_CLOSE app code reason) conn = got_connection_close ops app code reason conn"
| "react ops path_id (F_TIMESTAMP v) conn = (abort_quietly TEC_PROTOCOL_VIOLATION conn, False)"
| "react ops path_id (F_ACK_FREQUENCY seqno tol mad ign) conn =
     (if \<not> ifc_delayed_acks conn then (abort_quietly TEC_PROTOCOL_VIOLATION conn, False)
      else got_ack_frequency seqno tol mad ign conn)"

lemma with_fields_Some: "with_fields F r = Some (n, f) \<longleftrightarrow> (\<exists>x. r = Some (n, x) \<and> f = F x)"
  by (auto simp: with_fields_def split: option.splits)

lemma handler_reacts:
  assumes "pf_parse_frame (frame_type f) p = Some (n, f)" "process_frames (frame_type f) = Some h"
  shows "call_handler ops path_id h conn p = used n (react ops path_id f conn)"
  using assms by (cases f) (auto simp: handler_defs with_fields_Some on_parsed_def used_def split: sum.splits)

interpretation handlers: frame_handlers "call_handler ops path_id" "react ops path_id" for ops path_id
  by unfold_locales (rule handler_reacts [OF sent_parse])

section \<open>The limits set by the peer\<close>

text \<open>The limit on data and the limits on streams of one connection are no higher than those of another.\<close>

definition limits_le :: "'r ietf_full_conn \<Rightarrow> 'r ietf_full_conn \<Rightarrow> bool" where
  "limits_le c c' \<longleftrightarrow> cc_max c \<le> cc_max c' \<and> (\<forall>sit. ifc_max_allowed_stream_id c sit \<le> ifc_max_allowed_stream_id c' sit)"

text \<open>
  The streams, the tables and the callbacks do not lower them; nor do the handlers of STREAM and ACK.  (The handler
  of CRYPTO sets them when the transport parameters of the peer arrive.)
\<close>

definition keeps_limits :: "'r conn_ops \<Rightarrow> bool" where
  "keeps_limits ops \<longleftrightarrow>
     (\<forall>c i off code. limits_le c (fst (rst_stream_in ops i off code c))) \<and> (\<forall>c i code. limits_le c (fst (stop_sending_in ops i code c)))
   \<and> (\<forall>c i off. limits_le c (fst (window_update_in ops i off c))) \<and> (\<forall>c i off. limits_le c (peer_blocked_in ops i off c))
   \<and> (\<forall>c s. limits_le c (retire_seqno ops s c)) \<and> (\<forall>c s. limits_le c (fst (retire_dcids_prior_to ops s c)))
   \<and> (\<forall>c s cid tok u. limits_le c (fst (insert_new_dcid ops s cid tok u c))) \<and> (\<forall>c s. limits_le c (fst (retire_cid_in ops s c)))
   \<and> (\<forall>c r. limits_le c (fst (path_response_in ops r c))) \<and> (\<forall>c. limits_le c (handshake_confirmed ops c))
   \<and> (\<forall>c tok. limits_le c (on_new_token ops tok c)) \<and> (\<forall>c a e r. limits_le c (on_conncloseframe_received ops a e r c))
   \<and> (\<forall>c d. limits_le c (on_datagram ops d c)) \<and> (\<forall>c h p. h \<noteq> PROCESS_CRYPTO_FRAME \<longrightarrow> limits_le c (fst (data_frame_in ops h c p)))"

lemma limits_le_refl [simp]: "limits_le c c"
  by (simp add: limits_le_def)

lemma limits_le_trans: "limits_le a b \<Longrightarrow> limits_le b c \<Longrightarrow> limits_le a c"
  by (auto simp: limits_le_def intro: order_trans)

lemma limits_le_abort [simp]: "limits_le c (abort_quietly e c)"
  by (simp add: limits_le_def abort_quietly_def)

lemma fst_used [simp]: "fst (used n r) = fst r"
  by (simp add: used_def split: prod.splits)

lemma parsed_limits: "(\<And>x. limits_le c (fst (got x c))) \<Longrightarrow> limits_le c (fst (on_parsed r got c))"
  by (auto simp: on_parsed_def split: option.splits)

lemma got_limits:
  "limits_le c (fst (got_max_data v c))" "limits_le c (fst (got_blocked v c))" "limits_le c (fst (got_max_streams sd v c))"
  "limits_le c (fst (got_streams_blocked v c))" "limits_le c (fst (got_path_challenge path_id v c))"
  "limits_le c (fst (got_ack_frequency s t m i c))"
  by (auto simp: limits_le_def got_max_data_def got_blocked_def got_max_streams_def got_streams_blocked_def abort_quietly_def
      got_path_challenge_def got_ack_frequency_def Let_def)

lemma got_limits_ops:
  assumes "keeps_limits ops"
  shows "limits_le c (fst (got_rst_stream ops a b d c))" "limits_le c (fst (got_stop_sending ops a b c))"
    "limits_le c (fst (got_max_stream_data ops a b c))" "limits_le c (fst (got_stream_blocked ops a b c))"
    "limits_le c (fst (got_new_token ops tok c))" "limits_le c (fst (got_handshake_done ops c))"
    "limits_le c (fst (got_retire_connection_id ops a c))" "limits_le c (fst (path_response_in ops a c))"
    "limits_le c (on_datagram ops tok c)"
  using assms
  by (auto simp: keeps_limits_def got_rst_stream_def got_stop_sending_def got_max_stream_data_def got_stream_blocked_def
      got_new_token_def got_handshake_done_def got_retire_connection_id_def)

lemma connection_close_limits: "keeps_limits ops \<Longrightarrow> limits_le c (fst (got_connection_close ops a b r c))"
  by (simp add: keeps_limits_def got_connection_close_def limits_le_def)

lemma new_connection_id_limits:
  assumes "keeps_limits ops"
  shows "limits_le c (fst (got_new_connection_id ops s r cid tok c))"
proof -
  let ?c = "c\<lparr>ifc_last_retire_prior_to := ucast r\<rparr>"
  have r: "limits_le c (fst (retire_dcids_prior_to ops r ?c))"
  proof (rule limits_le_trans)
    show "limits_le c ?c" by (simp add: limits_le_def)
    show "limits_le ?c (fst (retire_dcids_prior_to ops r ?c))" using assms by (simp add: keeps_limits_def)
  qed
  have i: "limits_le b (fst (insert_new_dcid ops s cid tok u b))" "limits_le b (retire_seqno ops s b)" for b u
    using assms by (simp_all add: keeps_limits_def)
  show ?thesis
    by (auto simp: got_new_connection_id_def i Let_def split: prod.splits intro: limits_le_trans [OF _ i(1)])
      (metis r fst_conv i(1) limits_le_trans)
qed

lemma data_frame_limits: "keeps_limits ops \<Longrightarrow> h \<noteq> PROCESS_CRYPTO_FRAME \<Longrightarrow> limits_le c (fst (data_frame_in ops h c p))"
  by (simp add: keeps_limits_def)

lemma handler_limits:
  assumes "keeps_limits ops" "h \<noteq> PROCESS_CRYPTO_FRAME"
  shows "limits_le c (fst (call_handler ops path_id h c p))"
proof (cases h)
  case PROCESS_PING_FRAME
  then show ?thesis by (simp add: handler_defs limits_le_def)
next
  case PROCESS_HANDSHAKE_DONE_FRAME
  then show ?thesis using got_limits_ops(6) [OF assms(1)] by (auto simp: handler_defs split: option.splits)
next
  case PROCESS_CONNECTION_CLOSE_FRAME
  then show ?thesis using connection_close_limits [OF assms(1)] by (auto simp: handler_defs split: sum.splits)
next
  case PROCESS_NEW_CONNECTION_ID_FRAME
  then show ?thesis using new_connection_id_limits [OF assms(1)] by (auto simp: handler_defs split: sum.splits)
qed (use assms(2) data_frame_limits [OF assms] in
  \<open>simp_all add: handler_defs parsed_limits got_limits got_limits_ops [OF assms(1)] split_beta\<close>)

lemma process_frame_types:
  "process_packet_frame call ver lev (conn, types) p = Some ((conn', types'), len) \<Longrightarrow> bit types k \<Longrightarrow> bit types' k"
  by (auto simp: process_packet_frame_def Let_def bit_simps split: if_splits option.splits prod.splits)

lemma frames_loop_types: "bit (snd s) k \<Longrightarrow> bit (snd (fst (frames_loop call ver lev s p))) k"
proof (induction call ver lev s p rule: frames_loop.induct)
  case (1 call ver lev s p)
  show ?case
  proof (cases "p = [] \<or> process_packet_frame call ver lev s p = None")
    case True
    then show ?thesis using 1(2) by (auto simp: frames_loop.simps [of _ _ _ _ p])
  next
    case False
    then obtain s' len where p: "process_packet_frame call ver lev s p = Some (s', len)" by auto
    then have "bit (snd s') k" using 1(2) process_frame_types by (metis prod.collapse)
    then show ?thesis using 1(1) [OF _ p] False by (auto simp: frames_loop.simps [of _ _ _ _ p] p)
  qed
qed

lemma process_frame_limits:
  assumes "keeps_limits ops" "process_packet_frame (call_handler ops path_id) ver lev (conn, types) p = Some ((conn', types'), len)"
    and "\<not> bit types' (frame_num QUIC_FRAME_CRYPTO)"
  shows "limits_le conn conn'"
proof (cases "lsquic_legal_frames_by_level ver lev AND quic_ft_bit (ietf_v1_parse_frame_type p) \<noteq> 0")
  case True
  then obtain h where h: "process_frames (ietf_v1_parse_frame_type p) = Some h"
      "call_handler ops path_id h conn p = (conn', len)" "types' = types OR quic_ft_bit (ietf_v1_parse_frame_type p)"
    using assms(2) by (auto simp: process_packet_frame_def Let_def split: option.splits prod.splits)
  have "h \<noteq> PROCESS_CRYPTO_FRAME"
    using assms(3) h(1,3) by (cases "ietf_v1_parse_frame_type p") (auto simp: quic_ft_bit_def bit_simps)
  from handler_limits [OF assms(1) this, of conn path_id p] h(2) show ?thesis by simp
next
  case False
  then show ?thesis using assms(2) by (auto simp: process_packet_frame_def)
qed

lemma frames_loop_limits:
  assumes "keeps_limits ops"
  shows "\<not> bit (snd (fst (frames_loop (call_handler ops path_id) ver lev s p))) (frame_num QUIC_FRAME_CRYPTO)
    \<Longrightarrow> limits_le (fst s) (fst (fst (frames_loop (call_handler ops path_id) ver lev s p)))"
proof (induction p arbitrary: s rule: length_induct)
  case (1 p)
  let ?call = "call_handler ops path_id"
  show ?case
  proof (cases "p = [] \<or> process_packet_frame ?call ver lev s p = None")
    case True
    then show ?thesis by (auto simp: frames_loop.simps [of _ _ _ _ p])
  next
    case False
    then obtain c' t' len where p: "process_packet_frame ?call ver lev (fst s, snd s) p = Some ((c', t'), len)" by auto
    show ?thesis
    proof (cases "len > 0")
      case True
      then have l: "frames_loop ?call ver lev s p = frames_loop ?call ver lev (c', t') (drop len p)"
        using False p by (simp add: frames_loop.simps [of _ _ _ s p])
      have t: "\<not> bit t' (frame_num QUIC_FRAME_CRYPTO)"
        using 1(2) frames_loop_types [of "(c', t')" _ ?call ver lev "drop len p"] unfolding l by auto
      have "limits_le c' (fst (fst (frames_loop ?call ver lev (c', t') (drop len p))))"
        using 1(1) [rule_format, of "drop len p" "(c', t')"] 1(2) True False unfolding l by simp
      then show ?thesis using process_frame_limits [OF assms p t] l by (auto intro: limits_le_trans)
    next
      case False
      then show ?thesis
        using 1(2) p process_frame_limits [OF assms p] \<open>\<not> (p = [] \<or> _)\<close> by (simp add: frames_loop.simps [of _ _ _ s p])
    qed
  qed
qed

section \<open>Properties\<close>

text \<open>
  C9. A packet that carries generated control frames, all legal at its level: the handlers react to the frames one
  after the other, each once, on the fields its frame was generated from, and the type of each is recorded.  If
  every frame is accepted the packet is processed to its end; the first frame that is refused (a TIMESTAMP, a
  HANDSHAKE_DONE at a server, a RESET_STREAM of a stream the peer cannot send on, \<dots>) is the last one, and the
  connection is aborted.
\<close>

theorem packet_of_frames:
  assumes "list_all2 sent_as fs frs" "fs \<noteq> []"
    and "\<forall>f \<in> set fs. lsquic_legal_frames_by_level ver lev AND quic_ft_bit (frame_type f) \<noteq> 0"
  shows "parse_regular_packet (call_handler ops path_id) ver lev s (concat frs)
    = (case react_all (react ops path_id) fs s of (s', True) \<Rightarrow> (s', PACKET_OK) | (s', False) \<Rightarrow> (s', ABORT_PARSING_FRAME))"
proof -
  obtain f fs' where "fs = f # fs'" using assms(2) by (cases fs) auto
  with assms(1) obtain fr frs' where "frs = fr # frs'" "sent_as f fr" by (auto simp: list_all2_Cons1)
  then have "concat frs \<noteq> []" using sent_nonempty by fastforce
  then show ?thesis
    using handlers.frames_loop_sent [OF assms(1,3), of ops path_id s "[]"]
    by (auto simp: parse_regular_packet_def frames_loop.simps split: prod.splits bool.splits)
qed

text \<open>
  A server without stream state: the streams are left alone, RESET_STREAM and the other frames that need one are
  refused, and the callbacks do nothing.
\<close>

definition demo_ops :: "unit conn_ops" where
  "demo_ops = \<lparr>rst_stream_in = (\<lambda>i off code c. (c, False)), stop_sending_in = (\<lambda>i code c. (c, False)),
     window_update_in = (\<lambda>i off c. (c, False)), peer_blocked_in = (\<lambda>i off c. c), retire_seqno = (\<lambda>s c. c),
     retire_dcids_prior_to = (\<lambda>s c. (c, False)), insert_new_dcid = (\<lambda>s cid tok u c. (c, True)), retire_cid_in = (\<lambda>s c. (c, True)),
     path_response_in = (\<lambda>r c. (c, False)), handshake_confirmed = (\<lambda>c. c), on_new_token = (\<lambda>tok c. c),
     on_conncloseframe_received = (\<lambda>a e r c. c), on_datagram = (\<lambda>d c. c), data_frame_in = (\<lambda>h c p. (c, 0))\<rparr>"

definition demo_conn :: "unit ietf_full_conn" where
  "demo_conn = \<lparr>ifc_server = True, ifc_delayed_acks = False, ifc_datagrams = False, ifc_recv_close = False, ifc_closing = False,
     ifc_ack_had_miss = False, ifc_ignore_missing = False, ifc_send_max_data = False, ifc_send_path_resp = (\<lambda>_. False),
     ifc_in_error = False, ifc_error = None, cc_max = 5, ifc_max_allowed_stream_id = (\<lambda>_. 0), ifc_last_max_data_off_sent = 0,
     ifc_max_ack_freq_seqno = 0, ifc_max_retx_since_last_ack = 2, ifc_max_ack_delay = 25000, ifc_last_retire_prior_to = 0,
     ifc_scid_seqno = 1, cop_inc_chal = (\<lambda>_. 0), cur_dcid_len = 8, es_scid_len = 8, last_tick = 0, last_prog = 0, ifc_rest = ()\<rparr>"

text \<open>A client sends MAX_DATA and then HANDSHAKE_DONE, which only a server may send.\<close>

theorem packet_of_frames_witness:
  "parse_regular_packet (call_handler demo_ops 0) LSQVER_I001 ENC_LEV_FORW (demo_conn, 0) (concat [[0x10, 9], [0x1E], [0x10, 12]])
    = ((demo_conn\<lparr>cc_max := 9, ifc_error := Some TEC_PROTOCOL_VIOLATION, ifc_in_error := True\<rparr>, 0x800800), ABORT_PARSING_FRAME)"
proof -
  let ?fs = "[F_MAX_DATA 9, F_HANDSHAKE_DONE, F_MAX_DATA 12]" and ?frs = "[[0x10, 9], [0x1E], [0x10, 12 :: u8]]"
  have a: "list_all2 sent_as ?fs ?frs" by code_simp
  have l: "\<forall>f \<in> set ?fs. lsquic_legal_frames_by_level LSQVER_I001 ENC_LEV_FORW AND quic_ft_bit (frame_type f) \<noteq> 0" by code_simp
  show ?thesis
    using packet_of_frames [OF a _ l, of demo_ops 0 "(demo_conn, 0)"]
    by (simp add: got_max_data_def got_handshake_done_def abort_quietly_def demo_conn_def quic_ft_bit_def)
qed

text \<open>
  C18. A frame that is not legal at the encryption level of the packet aborts the connection: the frames before it
  are reacted to (up to one that is refused), and neither it nor what follows it reaches a handler.
\<close>

theorem illegal_frame_aborts:
  assumes "list_all2 sent_as fs frs"
    and "\<forall>f \<in> set fs. lsquic_legal_frames_by_level ver lev AND quic_ft_bit (frame_type f) \<noteq> 0"
    and "bad \<noteq> []" "lsquic_legal_frames_by_level ver lev AND quic_ft_bit (ietf_v1_parse_frame_type bad) = 0"
  shows "parse_regular_packet (call_handler ops path_id) ver lev s (concat frs @ bad)
    = (fst (react_all (react ops path_id) fs s), ABORT_PARSING_FRAME)"
  using handlers.frames_loop_sent [OF assms(1,2), of ops path_id s bad] assms(3,4)
  by (auto simp: parse_regular_packet_def frames_loop.simps [of _ _ _ _ bad] process_packet_frame_def split: prod.splits bool.splits)

theorem illegal_frame_aborts_witness:
  "parse_regular_packet (call_handler demo_ops 0) LSQVER_I001 ENC_LEV_EARLY (demo_conn, 0) (concat [[0x10, 9]] @ [0x1E, 0])
    = ((demo_conn\<lparr>cc_max := 9\<rparr>, 0x800), ABORT_PARSING_FRAME)"
proof -
  have a: "list_all2 sent_as [F_MAX_DATA 9] [[0x10, 9]]" by code_simp
  have l: "\<forall>f \<in> set [F_MAX_DATA 9].
      lsquic_legal_frames_by_level LSQVER_I001 ENC_LEV_EARLY AND quic_ft_bit (frame_type f) \<noteq> 0" by code_simp
  have b: "lsquic_legal_frames_by_level LSQVER_I001 ENC_LEV_EARLY AND quic_ft_bit (ietf_v1_parse_frame_type [0x1E, 0]) = 0"
    by code_simp
  show ?thesis
    using illegal_frame_aborts [OF a l _ b, of demo_ops 0 "(demo_conn, 0)"]
    by (simp add: got_max_data_def demo_conn_def quic_ft_bit_def)
qed

text \<open>
  C17. Whatever the bytes of a packet, the limit on data and the limits on streams that the peer has granted never go
  down, as long as the packet has no CRYPTO frame (which may carry the transport parameters that set them).
\<close>

theorem limits_never_lowered:
  assumes "keeps_limits ops" "payload \<noteq> []"
    and "parse_regular_packet (call_handler ops path_id) ver lev (conn, types) payload = ((conn', types'), outcome)"
    and "types' AND quic_ft_bit QUIC_FRAME_CRYPTO = 0"
  shows "cc_max conn \<le> cc_max conn' \<and> (\<forall>sit. ifc_max_allowed_stream_id conn sit \<le> ifc_max_allowed_stream_id conn' sit)"
proof -
  have l: "frames_loop (call_handler ops path_id) ver lev (conn, types) payload = ((conn', types'), outcome)"
    using assms(2,3) by (simp add: parse_regular_packet_def)
  have "\<not> bit types' (frame_num QUIC_FRAME_CRYPTO)" using assms(4) and_ft_bit by blast
  then have "limits_le conn conn'"
    using frames_loop_limits [OF assms(1), of path_id ver lev "(conn, types)" payload] unfolding l by simp
  then show ?thesis by (simp add: limits_le_def)
qed

theorem limits_never_lowered_witness:
  "\<exists>conn' types' outcome.
     parse_regular_packet (call_handler demo_ops 0) LSQVER_I001 ENC_LEV_FORW (demo_conn, 0) [0x10, 3, 0x12, 7] = ((conn', types'), outcome)
   \<and> cc_max conn' \<ge> 5 \<and> ifc_max_allowed_stream_id conn' 1 = 28"
proof -
  have k: "keeps_limits demo_ops" by (simp add: keeps_limits_def demo_ops_def)
  have a: "list_all2 sent_as [F_MAX_DATA 3, F_MAX_STREAMS SD_BIDI 7] [[0x10, 3], [0x12, 7]]" by code_simp
  have l: "\<forall>f \<in> set [F_MAX_DATA 3, F_MAX_STREAMS SD_BIDI 7].
      lsquic_legal_frames_by_level LSQVER_I001 ENC_LEV_FORW AND quic_ft_bit (frame_type f) \<noteq> 0" by code_simp
  have p: "parse_regular_packet (call_handler demo_ops 0) LSQVER_I001 ENC_LEV_FORW (demo_conn, 0) [0x10, 3, 0x12, 7]
      = ((demo_conn\<lparr>ifc_max_allowed_stream_id := (\<lambda>_. 0)(1 := 28)\<rparr>, 0x2800), PACKET_OK)"
    using handlers.frames_loop_sent [OF a l, of demo_ops 0 "(demo_conn, 0)" "[]"]
    by (simp add: parse_regular_packet_def frames_loop.simps got_max_data_def got_max_streams_def demo_conn_def quic_ft_bit_def
        gen_sit_def VINT_MAX_VALUE_def push_bit_eq_mult)
  from limits_never_lowered [OF k _ p] have "cc_max demo_conn \<le> cc_max (demo_conn\<lparr>ifc_max_allowed_stream_id := (\<lambda>_. 0)(1 := 28)\<rparr>)"
    by (simp add: quic_ft_bit_def)
  with p show ?thesis by (simp add: demo_conn_def)
qed

end
