(* ===== verification/Rechist.thy ===== *)
theory Rechist
  imports Quic_Prelude
begin

text \<open>
  The history of received packets, \<^verbatim>\<open>lsquic_rechist.c\<close>: ranges of packet numbers in
  descending order, kept as a singly linked list inside an array whose slots are
  allocated with bit masks.  Indices are natural numbers with \<open>UINT_MAX\<close> as the end
  marker; a loop over the list has the number of array slots as fuel.  \<^verbatim>\<open>realloc\<close>
  is an argument that may fail or else gives the contents of fresh slots.
\<close>

section \<open>Definitions\<close>

definition UINT_MAX :: nat where "UINT_MAX = 4294967295"

record rechist_elem =
  re_low :: packno
  re_count :: u32
  re_next :: nat

record packno_range =
  pr_low :: packno
  pr_high :: packno

record lsquic_rechist =
  rh_elems :: "rechist_elem list"
  rh_masks :: "u64 list"
  rh_cutoff :: packno
  rh_largest_acked_received :: qtime
  rh_n_masks :: nat
  rh_n_alloced :: nat
  rh_n_used :: nat
  rh_head :: nat
  rh_max_ranges :: nat
  rh_cutoff_set :: bool                \<comment> \<open>\<^verbatim>\<open>rh_flags & RH_CUTOFF_SET\<close>\<close>
  rh_iter_range :: packno_range
  rh_iter_next :: nat

datatype received_st = REC_ST_OK | REC_ST_DUP | REC_ST_ERR

type_synonym realloc_f = "nat \<Rightarrow> rechist_elem option"

definition rechist_zero :: lsquic_rechist where
  "rechist_zero = \<lparr>rh_elems = [], rh_masks = [], rh_cutoff = 0, rh_largest_acked_received = 0,
     rh_n_masks = 0, rh_n_alloced = 0, rh_n_used = 0, rh_head = 0, rh_max_ranges = 0,
     rh_cutoff_set = False, rh_iter_range = \<lparr>pr_low = 0, pr_high = 0\<rparr>, rh_iter_next = 0\<rparr>"

definition lsquic_rechist_init :: "bool \<Rightarrow> nat \<Rightarrow> lsquic_rechist" where
  "lsquic_rechist_init ietf max_ranges =
     rechist_zero\<lparr>rh_cutoff := (if ietf then 0 else 1),
       rh_max_ranges := (if max_ranges = 1 then 2 else max_ranges)\<rparr>"

definition lsquic_rechist_cleanup :: "lsquic_rechist \<Rightarrow> lsquic_rechist" where
  "lsquic_rechist_cleanup r = rechist_zero"

definition rechist_free_elem :: "lsquic_rechist \<Rightarrow> nat \<Rightarrow> lsquic_rechist" where
  "rechist_free_elem r idx =
     r\<lparr>rh_masks := (rh_masks r)[idx div 64 := rh_masks r ! (idx div 64) AND NOT (push_bit (idx mod 64) 1)],
       rh_n_used := rh_n_used r - 1\<rparr>"

definition RE_HIGH :: "rechist_elem \<Rightarrow> packno" where
  "RE_HIGH el = re_low el + ucast (re_count el) - 1"

text \<open>\<^verbatim>\<open>__builtin_ctzll\<close>; the branch for other compilers computes the same position.\<close>

definition ctz64 :: "u64 \<Rightarrow> nat" where
  "ctz64 w = length (takeWhile (\<lambda>i. \<not> bit w i) [0..<64])"

definition find_free_slot :: "u64 \<Rightarrow> nat" where
  "find_free_slot slots = (if slots \<noteq> 0 then ctz64 (NOT slots) else 0)"

text \<open>The slots and the masks share one allocation; the old contents of both are kept.\<close>

definition rechist_grow :: "realloc_f \<Rightarrow> lsquic_rechist \<Rightarrow> lsquic_rechist option" where
  "rechist_grow realloc r =
     (let nelems = (if rh_n_alloced r \<noteq> 0 then rh_n_alloced r * 2 else 4);
          nelems = (if rh_max_ranges r \<noteq> 0 \<and> nelems > rh_max_ranges r then rh_max_ranges r else nelems);
          n_masks = (nelems + unat (- of_nat nelems AND 63 :: u32)) div 64
      in case realloc nelems of
           None \<Rightarrow> None
         | Some fresh \<Rightarrow>
             Some (r\<lparr>rh_elems := take nelems (rh_elems r) @ replicate (nelems - rh_n_alloced r) fresh,
                     rh_masks := take n_masks (rh_masks r) @ replicate (n_masks - rh_n_masks r) 0,
                     rh_n_alloced := nelems, rh_n_masks := n_masks\<rparr>))"

text \<open>The full array is scanned for the last element and then for the one before it.\<close>

definition rechist_reuse_last_elem :: "lsquic_rechist \<Rightarrow> lsquic_rechist \<times> nat" where
  "rechist_reuse_last_elem r =
     (let last_idx = length (takeWhile (\<lambda>el. re_next el \<noteq> UINT_MAX) (rh_elems r));
          penultimate = length (takeWhile (\<lambda>el. re_next el \<noteq> last_idx) (rh_elems r))
      in (r\<lparr>rh_elems := (rh_elems r)[penultimate := (rh_elems r ! penultimate)\<lparr>re_next := UINT_MAX\<rparr>]\<rparr>, last_idx))"

text \<open>\<^const>\<open>None\<close> is the return value \<^verbatim>\<open>-1\<close> and a failed assertion.\<close>

definition rechist_take_slot :: "lsquic_rechist \<Rightarrow> (lsquic_rechist \<times> nat) option" where
  "rechist_take_slot r =
     (let i = length (takeWhile (\<lambda>m. m = -1) (rh_masks r)) in
      if \<not> i < rh_n_masks r then None
      else let idx = find_free_slot (rh_masks r ! i)
           in Some (r\<lparr>rh_masks := (rh_masks r)[i := rh_masks r ! i OR push_bit idx 1],
                      rh_n_used := rh_n_used r + 1\<rparr>, idx + i * 64))"

definition rechist_alloc_elem :: "realloc_f \<Rightarrow> lsquic_rechist \<Rightarrow> (lsquic_rechist \<times> nat) option" where
  "rechist_alloc_elem realloc r =
     (if rh_n_used r = rh_n_alloced r then
        if rh_max_ranges r \<noteq> 0 \<and> rh_n_used r \<ge> rh_max_ranges r then Some (rechist_reuse_last_elem r)
        else (case rechist_grow realloc r of None \<Rightarrow> None | Some r \<Rightarrow> rechist_take_slot r)
      else rechist_take_slot r)"

text \<open>Where the search loop of \<^verbatim>\<open>lsquic_rechist_received\<close> leaves to.\<close>

datatype rh_place =
    INSERT_BEFORE nat "nat option"   \<comment> \<open>el and prev\<close>
  | EXTEND_LOW nat
  | EXTEND_HIGH nat
  | FOUND
  | INSERT_TAIL nat
  | OUT_OF_FUEL

fun rh_search :: "nat \<Rightarrow> rechist_elem list \<Rightarrow> packno \<Rightarrow> nat \<Rightarrow> nat option \<Rightarrow> rh_place" where
  "rh_search 0 elems packno el prev = OUT_OF_FUEL"
| "rh_search (Suc fuel) elems packno el prev =
     (let e = elems ! el in
      if packno > RE_HIGH e + 1 then INSERT_BEFORE el prev
      else if packno = re_low e - 1 then EXTEND_LOW el
      else if packno = RE_HIGH e + 1 then EXTEND_HIGH el
      else if packno \<ge> re_low e \<and> packno \<le> RE_HIGH e then FOUND
      else if re_next e = UINT_MAX then INSERT_TAIL el
      else rh_search fuel elems packno (re_next e) (Some el))"

definition upd_elem :: "nat \<Rightarrow> (rechist_elem \<Rightarrow> rechist_elem) \<Rightarrow> lsquic_rechist \<Rightarrow> lsquic_rechist" where
  "upd_elem i f r = r\<lparr>rh_elems := (rh_elems r)[i := f (rh_elems r ! i)]\<rparr>"

definition extend_low :: "nat \<Rightarrow> lsquic_rechist \<Rightarrow> lsquic_rechist" where
  "extend_low el r =
     (let r = upd_elem el (\<lambda>e. e\<lparr>re_low := re_low e - 1, re_count := re_count e + 1\<rparr>) r;
          e = rh_elems r ! el; nx = re_next e
      in if nx \<noteq> UINT_MAX \<and> re_low e = RE_HIGH (rh_elems r ! nx) + 1
         then upd_elem el (\<lambda>e. e\<lparr>re_count := re_count e + re_count (rh_elems r ! nx),
                re_low := re_low (rh_elems r ! nx), re_next := re_next (rh_elems r ! nx)\<rparr>)
                (rechist_free_elem r nx)
         else r)"

definition replace_last_el :: "packno \<Rightarrow> nat \<Rightarrow> lsquic_rechist \<Rightarrow> lsquic_rechist" where
  "replace_last_el packno el r = upd_elem el (\<lambda>e. e\<lparr>re_low := packno, re_count := 1\<rparr>) r"

definition at_max_ranges :: "lsquic_rechist \<Rightarrow> bool" where
  "at_max_ranges r \<longleftrightarrow> rh_max_ranges r \<noteq> 0 \<and> rh_n_used r \<ge> rh_max_ranges r"

definition insert_tail :: "realloc_f \<Rightarrow> packno \<Rightarrow> nat \<Rightarrow> lsquic_rechist \<Rightarrow> lsquic_rechist \<times> received_st" where
  "insert_tail realloc packno prev_idx r =
     (if at_max_ranges r then (replace_last_el packno prev_idx r, REC_ST_OK)
      else case rechist_alloc_elem realloc r of
        None \<Rightarrow> (r, REC_ST_ERR)
      | Some (r, idx) \<Rightarrow>
          (upd_elem prev_idx (\<lambda>e. e\<lparr>re_next := idx\<rparr>)
            (upd_elem idx (\<lambda>_. \<lparr>re_low = packno, re_count = 1, re_next = UINT_MAX\<rparr>) r), REC_ST_OK))"

definition insert_first :: "realloc_f \<Rightarrow> packno \<Rightarrow> qtime \<Rightarrow> lsquic_rechist \<Rightarrow> lsquic_rechist \<times> received_st" where
  "insert_first realloc packno now r =
     (if packno < rh_cutoff r then (r, REC_ST_ERR)
      else case rechist_alloc_elem realloc r of
        None \<Rightarrow> (r, REC_ST_ERR)
      | Some (r, idx) \<Rightarrow>
          ((upd_elem idx (\<lambda>_. \<lparr>re_low = packno, re_count = 1, re_next = UINT_MAX\<rparr>) r)
             \<lparr>rh_head := idx, rh_largest_acked_received := now\<rparr>, REC_ST_OK))"

definition insert_before ::
  "realloc_f \<Rightarrow> packno \<Rightarrow> nat \<Rightarrow> nat option \<Rightarrow> lsquic_rechist \<Rightarrow> lsquic_rechist \<times> received_st" where
  "insert_before realloc packno next_idx prev r =
     (if re_next (rh_elems r ! next_idx) = UINT_MAX \<and> at_max_ranges r
      then (replace_last_el packno next_idx r, REC_ST_OK)
      else case rechist_alloc_elem realloc r of
        None \<Rightarrow> (r, REC_ST_ERR)
      | Some (r, idx) \<Rightarrow>
          (let r = upd_elem idx (\<lambda>_. \<lparr>re_low = packno, re_count = 1, re_next = next_idx\<rparr>) r
           in (if next_idx = rh_head r then r\<lparr>rh_head := idx\<rparr>
               else case prev of None \<Rightarrow> r | Some prev_idx \<Rightarrow> upd_elem prev_idx (\<lambda>e. e\<lparr>re_next := idx\<rparr>) r,
               REC_ST_OK)))"

definition lsquic_rechist_received ::
  "realloc_f \<Rightarrow> lsquic_rechist \<Rightarrow> packno \<Rightarrow> qtime \<Rightarrow> lsquic_rechist \<times> received_st" where
  "lsquic_rechist_received realloc r packno now =
     (if rh_n_used r = 0 then insert_first realloc packno now r
      else if packno < rh_cutoff r then (r, REC_ST_DUP)
      else let r = (if packno > RE_HIGH (rh_elems r ! rh_head r) then r\<lparr>rh_largest_acked_received := now\<rparr> else r)
           in case rh_search (rh_n_alloced r) (rh_elems r) packno (rh_head r) None of
                INSERT_BEFORE el prev \<Rightarrow> insert_before realloc packno el prev r
              | EXTEND_LOW el \<Rightarrow> (extend_low el r, REC_ST_OK)
              | EXTEND_HIGH el \<Rightarrow> (upd_elem el (\<lambda>e. e\<lparr>re_count := re_count e + 1\<rparr>) r, REC_ST_OK)
              | FOUND \<Rightarrow> (r, REC_ST_DUP)
              | INSERT_TAIL el \<Rightarrow> insert_tail realloc packno el r
              | OUT_OF_FUEL \<Rightarrow> (r, REC_ST_ERR))"

text \<open>
  The search loop of \<^verbatim>\<open>lsquic_rechist_stop_wait\<close>: the updated slots and the element
  from which on everything is freed, if any; \<^const>\<open>None\<close> is running out of fuel.
\<close>

fun stop_search :: "nat \<Rightarrow> rechist_elem list \<Rightarrow> packno \<Rightarrow> nat \<Rightarrow> nat option \<Rightarrow> (rechist_elem list \<times> nat option) option" where
  "stop_search 0 elems cutoff el prev = None"
| "stop_search (Suc fuel) elems cutoff el prev =
     (let e = elems ! el in
      if cutoff > RE_HIGH e then
        Some (case prev of Some p \<Rightarrow> elems[p := (elems ! p)\<lparr>re_next := UINT_MAX\<rparr>] | None \<Rightarrow> elems, Some el)
      else if cutoff > re_low e then
        (let e' = e\<lparr>re_count := ucast (RE_HIGH e - cutoff + 1), re_low := cutoff\<rparr> in
         if re_next e \<noteq> UINT_MAX then Some (elems[el := e'\<lparr>re_next := UINT_MAX\<rparr>], Some (re_next e))
         else Some (elems[el := e'], None))
      else if re_next e = UINT_MAX then Some (elems, None)
      else stop_search fuel elems cutoff (re_next e) (Some el))"

fun free_from :: "nat \<Rightarrow> lsquic_rechist \<Rightarrow> nat \<Rightarrow> lsquic_rechist option" where
  "free_from 0 r el = None"
| "free_from (Suc fuel) r el =
     (let r = rechist_free_elem r el; nx = re_next (rh_elems r ! el)
      in if nx \<noteq> UINT_MAX then free_from fuel r nx else Some r)"

definition lsquic_rechist_stop_wait :: "lsquic_rechist \<Rightarrow> packno \<Rightarrow> lsquic_rechist option" where
  "lsquic_rechist_stop_wait r cutoff =
     (if rh_cutoff_set r \<and> \<not> cutoff \<ge> rh_cutoff r then None
      else if rh_cutoff_set r \<and> cutoff \<le> rh_cutoff r then Some r
      else let r = r\<lparr>rh_cutoff := cutoff, rh_cutoff_set := True\<rparr> in
        if rh_n_used r = 0 then Some r
        else case stop_search (rh_n_alloced r) (rh_elems r) cutoff (rh_head r) None of
               None \<Rightarrow> None
             | Some (elems, None) \<Rightarrow> Some (r\<lparr>rh_elems := elems\<rparr>)
             | Some (elems, Some el) \<Rightarrow> free_from (rh_n_alloced r) (r\<lparr>rh_elems := elems\<rparr>) el)"

definition lsquic_rechist_largest_packno :: "lsquic_rechist \<Rightarrow> packno" where
  "lsquic_rechist_largest_packno r = (if rh_n_used r \<noteq> 0 then RE_HIGH (rh_elems r ! rh_head r) else 0)"

definition lsquic_rechist_cutoff :: "lsquic_rechist \<Rightarrow> packno" where
  "lsquic_rechist_cutoff r = (if rh_cutoff_set r then rh_cutoff r else 0)"

definition lsquic_rechist_largest_recv :: "lsquic_rechist \<Rightarrow> qtime" where
  "lsquic_rechist_largest_recv r = rh_largest_acked_received r"

definition iter_at :: "nat \<Rightarrow> lsquic_rechist \<Rightarrow> lsquic_rechist" where
  "iter_at idx r = r\<lparr>rh_iter_range := \<lparr>pr_low = re_low (rh_elems r ! idx), pr_high = RE_HIGH (rh_elems r ! idx)\<rparr>,
     rh_iter_next := re_next (rh_elems r ! idx)\<rparr>"

definition lsquic_rechist_first :: "lsquic_rechist \<Rightarrow> lsquic_rechist \<times> packno_range option" where
  "lsquic_rechist_first r =
     (if rh_n_used r \<noteq> 0 then let r = iter_at (rh_head r) r in (r, Some (rh_iter_range r)) else (r, None))"

definition lsquic_rechist_next :: "lsquic_rechist \<Rightarrow> lsquic_rechist \<times> packno_range option" where
  "lsquic_rechist_next r =
     (if rh_iter_next r \<noteq> UINT_MAX then let r = iter_at (rh_iter_next r) r in (r, Some (rh_iter_range r)) else (r, None))"

text \<open>The sizes of the structure, of an element and of a mask are those of a 64-bit target.\<close>

definition lsquic_rechist_mem_used :: "lsquic_rechist \<Rightarrow> nat" where
  "lsquic_rechist_mem_used r = 80 + rh_n_alloced r * 16 + rh_n_masks r * 8"

definition lsquic_rechist_peek :: "lsquic_rechist \<Rightarrow> lsquic_rechist \<times> packno_range option" where
  "lsquic_rechist_peek r =
     (if rh_n_used r \<noteq> 0 then
        let r = r\<lparr>rh_iter_range := \<lparr>pr_low = re_low (rh_elems r ! rh_head r), pr_high = RE_HIGH (rh_elems r ! rh_head r)\<rparr>\<rparr>
        in (r, Some (rh_iter_range r))
      else (r, None))"

text \<open>The loop over the ranges that the source iterator delivers; \<open>prev_idx\<close> is the last copied slot.\<close>

fun copy_loop :: "realloc_f \<Rightarrow> lsquic_rechist \<Rightarrow> nat \<Rightarrow> packno_range list \<Rightarrow> lsquic_rechist \<times> bool" where
  "copy_loop realloc r prev_idx [] = (r, True)"
| "copy_loop realloc r prev_idx (rg # ranges) =
     (if \<not> (rh_max_ranges r = 0 \<or> rh_n_used r < rh_max_ranges r) then (r, True)
      else case rechist_alloc_elem realloc r of
        None \<Rightarrow> (r, False)
      | Some (r, idx) \<Rightarrow>
          (let r = upd_elem idx (\<lambda>_. \<lparr>re_low = pr_low rg,
                     re_count = ucast (pr_high rg - pr_low rg + 1), re_next = UINT_MAX\<rparr>) r;
               r = (if prev_idx = UINT_MAX then r\<lparr>rh_head := idx\<rparr>
                    else upd_elem prev_idx (\<lambda>e. e\<lparr>re_next := idx\<rparr>) r)
           in copy_loop realloc r idx ranges))"

definition lsquic_rechist_copy_ranges :: "realloc_f \<Rightarrow> lsquic_rechist \<Rightarrow> packno_range list \<Rightarrow> lsquic_rechist \<times> bool" where
  "lsquic_rechist_copy_ranges realloc r ranges =
     (if rh_n_used r \<noteq> 0 then (r, False) else copy_loop realloc r UINT_MAX ranges)"

text \<open>
  The sanity check of test builds: the list is walked for at most as many steps as there are
  slots, and the slots seen are compared with the masks.
\<close>

fun sanity_walk :: "nat \<Rightarrow> nat \<Rightarrow> rechist_elem list \<Rightarrow> nat \<Rightarrow> u64 list \<Rightarrow> nat \<times> u64 list" where
  "sanity_walk 0 n_alloced elems idx masks = (1, masks)"
| "sanity_walk (Suc k) n_alloced elems idx masks =
     (if idx \<ge> n_alloced then (1, masks)
      else let masks = masks[idx div 64 := masks ! (idx div 64) OR push_bit (idx mod 64) 1]
           in if re_next (elems ! idx) \<noteq> UINT_MAX
              then let (n, masks) = sanity_walk k n_alloced elems (re_next (elems ! idx)) masks in (n + 1, masks)
              else (1, masks))"

definition rechist_test_sanity :: "lsquic_rechist \<Rightarrow> bool" where
  "rechist_test_sanity r =
     (let masks = replicate (rh_n_masks r) 0;
          (n_elems, masks) = (if rh_n_used r \<noteq> 0
             then sanity_walk (rh_n_alloced r) (rh_n_alloced r) (rh_elems r) (rh_head r) masks else (0, masks))
      in rh_n_used r = n_elems \<and> masks = rh_masks r)"

end
