(* ===== verification/Pn_Ranges.thy ===== *)
theory Pn_Ranges
  imports Quic_Prelude
begin

text \<open>
  The specification of the packet histories: descending lists of disjoint,
  non-adjacent ranges \<open>(low, high)\<close> of packet numbers, as reported in ACK frames,
  and the set of packet numbers they stand for.
\<close>

type_synonym pn_range = "nat \<times> nat"

definition pr_ok :: "pn_range list \<Rightarrow> bool" where
  "pr_ok rs \<longleftrightarrow> (\<forall>(l, h) \<in> set rs. l \<le> h) \<and> sorted_wrt (\<lambda>(l, h) (l2, h2). h2 + 1 < l) rs"

definition pr_set :: "pn_range list \<Rightarrow> nat set" where
  "pr_set rs = (\<Union>(l, h) \<in> set rs. {l..h})"

lemma pr_ok_Nil [simp]: "pr_ok []"
  by (simp add: pr_ok_def)

lemma pr_ok_Cons [simp]:
  "pr_ok ((l, h) # rs) \<longleftrightarrow> l \<le> h \<and> (\<forall>(l2, h2) \<in> set rs. h2 + 1 < l) \<and> pr_ok rs"
  by (auto simp: pr_ok_def)

lemma pr_ok_append:
  "pr_ok (xs @ ys) \<longleftrightarrow> pr_ok xs \<and> pr_ok ys \<and> (\<forall>(l, h) \<in> set xs. \<forall>(l2, h2) \<in> set ys. h2 + 1 < l)"
  by (auto simp: pr_ok_def sorted_wrt_append)

lemma pr_set_Nil [simp]: "pr_set [] = {}"
  by (simp add: pr_set_def)

lemma pr_set_Cons [simp]: "pr_set ((l, h) # rs) = {l..h} \<union> pr_set rs"
  by (simp add: pr_set_def)

lemma pr_set_append [simp]: "pr_set (xs @ ys) = pr_set xs \<union> pr_set ys"
  by (simp add: pr_set_def)

lemma finite_pr_set [simp]: "finite (pr_set rs)"
  by (auto simp: pr_set_def)

lemma pr_set_below: "pr_ok ((l, h) # rs) \<Longrightarrow> x \<in> pr_set rs \<Longrightarrow> x + 1 < l"
  by (fastforce simp: pr_set_def)

section \<open>Recording one packet\<close>

fun pr_ins :: "nat \<Rightarrow> pn_range list \<Rightarrow> pn_range list" where
  "pr_ins p [] = [(p, p)]"
| "pr_ins p ((l, h) # rs) =
     (if h + 1 < p then (p, p) # (l, h) # rs
      else if p + 1 = l then
        (case rs of (l2, h2) # rs' \<Rightarrow> if p = h2 + 1 then (l2, h) # rs' else (p, h) # rs | [] \<Rightarrow> [(p, h)])
      else if p = h + 1 then (l, p) # rs
      else if l \<le> p then (l, h) # rs
      else (l, h) # pr_ins p rs)"

lemma pr_ins_bound: "(l2, h2) \<in> set (pr_ins p rs) \<Longrightarrow> h2 = p \<or> h2 \<in> snd ` set rs"
  by (induction p rs rule: pr_ins.induct) (force split: if_splits list.splits)+

lemma pr_ins_ok: "pr_ok rs \<Longrightarrow> pr_ok (pr_ins p rs)"
proof (induction p rs rule: pr_ins.induct)
  case (2 p l h rs)
  show ?case
  proof (cases "h + 1 < p \<or> p + 1 = l \<or> p = h + 1 \<or> l \<le> p")
    case True
    then show ?thesis using 2(2) by (cases rs) fastforce+
  next
    case False
    then have "pr_ok (pr_ins p rs)" "p + 1 < l" using 2 by auto
    moreover have "h2 + 1 < l" if "(l2, h2) \<in> set (pr_ins p rs)" for l2 h2
      using pr_ins_bound [OF that] 2(2) \<open>p + 1 < l\<close> by fastforce
    ultimately show ?thesis using False 2(2) by auto
  qed
qed simp

lemma pr_ins_set: "pr_ok rs \<Longrightarrow> pr_set (pr_ins p rs) = insert p (pr_set rs)"
proof (induction p rs rule: pr_ins.induct)
  case (2 p l h rs)
  show ?case
  proof (cases "p + 1 = l \<and> \<not> h + 1 < p")
    case True
    then show ?thesis using 2(2) by (cases rs) (auto split: if_splits)
  next
    case False
    then show ?thesis using 2 by (cases "h + 1 < p \<or> p = h + 1 \<or> l \<le> p") auto
  qed
qed simp

text \<open>Ranges that the packet neither touches nor precedes are passed over.\<close>

lemma pr_ins_skip:
  "\<forall>(l, h) \<in> set xs. l \<le> h \<and> p + 1 < l \<Longrightarrow> pr_ins p (xs @ ys) = xs @ pr_ins p ys"
  by (induction xs) auto

definition pr_mem :: "nat \<Rightarrow> pn_range list \<Rightarrow> bool" where
  "pr_mem p rs \<longleftrightarrow> list_ex (\<lambda>(l, h). l \<le> p \<and> p \<le> h) rs"

lemma pr_mem_set: "pr_mem p rs \<longleftrightarrow> p \<in> pr_set rs"
  by (force simp: pr_mem_def pr_set_def list_ex_iff)

text \<open>
  With a bound on the number of ranges (zero: none), a packet that would open one range
  too many takes the place of the lowest range.
\<close>

definition pr_record :: "nat \<Rightarrow> nat \<Rightarrow> pn_range list \<Rightarrow> pn_range list" where
  "pr_record mx p rs =
     (let rs' = pr_ins p rs in
      if mx = 0 \<or> length rs' \<le> mx then rs'
      else if last rs' = (p, p) then butlast rs @ [(p, p)]
      else butlast rs')"

lemma pr_ins_mem: "pr_ok rs \<Longrightarrow> p \<in> pr_set rs \<Longrightarrow> pr_ins p rs = rs"
proof (induction p rs rule: pr_ins.induct)
  case (2 p l h rs)
  show ?case
  proof (cases "l \<le> p")
    case True
    then have "p \<le> h" using 2(2,3) pr_set_below [OF 2(2), of p] by auto
    then show ?thesis using True by simp
  next
    case False
    then have "p \<in> pr_set rs" "p + 1 < l" using 2(2,3) pr_set_below [OF 2(2), of p] by auto
    then show ?thesis using 2 False by auto
  qed
qed simp

section \<open>Forgetting the packets below a cutoff\<close>

fun pr_cut :: "nat \<Rightarrow> pn_range list \<Rightarrow> pn_range list" where
  "pr_cut c [] = []"
| "pr_cut c ((l, h) # rs) = (if h < c then [] else if l < c then [(c, h)] else (l, h) # pr_cut c rs)"

lemma pr_cut_bound: "(l, h) \<in> set (pr_cut c rs) \<Longrightarrow> h \<in> snd ` set rs"
  by (induction c rs rule: pr_cut.induct) (auto split: if_splits)

lemma pr_cut_ok: "pr_ok rs \<Longrightarrow> pr_ok (pr_cut c rs)"
proof (induction c rs rule: pr_cut.induct)
  case (2 c l h rs)
  have "h2 + 1 < l" if "(l2, h2) \<in> set (pr_cut c rs)" for l2 h2
    using pr_cut_bound [OF that] 2(2) by fastforce
  with 2 show ?case by auto
qed simp

lemma pr_cut_set: "pr_ok rs \<Longrightarrow> pr_set (pr_cut c rs) = pr_set rs \<inter> {c..}"
proof (induction c rs rule: pr_cut.induct)
  case (2 c l h rs)
  have lt: "x < l" if "x \<in> pr_set rs" for x using pr_set_below [OF 2(2) that] by simp
  have lh: "l \<le> h" using 2(2) by simp
  consider "h < c" | "\<not> h < c" "l < c" | "\<not> h < c" "\<not> l < c" by blast
  then show ?case
  proof cases
    case 1
    then show ?thesis using lt lh by (auto dest!: lt)
  next
    case 2
    then show ?thesis using lh by (auto dest!: lt)
  next
    case 3
    then show ?thesis using 2 by auto
  qed
qed simp

lemma pr_cut_skip: "\<forall>(l, h) \<in> set xs. c \<le> l \<and> l \<le> h \<Longrightarrow> pr_cut c (xs @ ys) = xs @ pr_cut c ys"
  by (induction xs) auto

section \<open>A set has one description\<close>

lemma pr_ok_unique: "pr_ok xs \<Longrightarrow> pr_ok ys \<Longrightarrow> pr_set xs = pr_set ys \<Longrightarrow> xs = ys"
proof (induction xs arbitrary: ys)
  case Nil
  then show ?case by (cases ys) auto
next
  case (Cons x xs)
  obtain l h where x: "x = (l, h)" by (cases x)
  obtain l2 h2 zs where ys: "ys = (l2, h2) # zs"
    using Cons.prems by (cases ys) (auto simp: x)
  have lh: "l \<le> h" "l2 \<le> h2" using Cons.prems x ys by simp_all
  have bx: "\<And>z. z \<in> pr_set xs \<Longrightarrow> z + 1 < l" using pr_set_below Cons.prems(1) x by blast
  have bz: "\<And>z. z \<in> pr_set zs \<Longrightarrow> z + 1 < l2" using pr_set_below Cons.prems(2) ys by blast
  have eq: "\<And>z. (l \<le> z \<and> z \<le> h) \<or> z \<in> pr_set xs \<longleftrightarrow> (l2 \<le> z \<and> z \<le> h2) \<or> z \<in> pr_set zs"
    using Cons.prems(3) by (auto simp: x ys set_eq_iff)
  have h: "h = h2" using eq [of h] eq [of h2] lh bx [of h2] bz [of h] by force
  have l: "l = l2"
  proof (rule ccontr)
    assume "l \<noteq> l2"
    then consider "l < l2" | "l2 < l" by linarith
    then show False
    proof cases
      case 1
      then show False using eq [of "l2 - 1"] bz [of "l2 - 1"] lh h by auto
    next
      case 2
      then show False using eq [of "l - 1"] bx [of "l - 1"] lh h by auto
    qed
  qed
  have "pr_set xs = pr_set zs"
  proof (rule set_eqI)
    fix z show "z \<in> pr_set xs \<longleftrightarrow> z \<in> pr_set zs"
      using eq [of z] bx [of z] bz [of z] h l by linarith
  qed
  with Cons h l show ?case by (simp add: x ys)
qed

end
