(* ===== verification/Rechist_Slots.thy ===== *)
theory Rechist_Slots
  imports Rechist Pn_Ranges
begin

text \<open>
  The storage of the receive history: linked segments of the slot array, the
  allocation masks and their invariant, and the contract of taking, freeing and
  growing slots.
\<close>

section \<open>Linked segments of the slot array\<close>

text \<open>\<open>seg es i js k\<close>: starting at \<open>i\<close>, the links visit \<open>js\<close> and then point to \<open>k\<close>.\<close>

fun seg :: "rechist_elem list \<Rightarrow> nat \<Rightarrow> nat list \<Rightarrow> nat \<Rightarrow> bool" where
  "seg es i [] k \<longleftrightarrow> i = k"
| "seg es i (j # js) k \<longleftrightarrow> i = j \<and> j < length es \<and> seg es (re_next (es ! j)) js k"

lemma seg_append: "seg es i (xs @ ys) k \<longleftrightarrow> (\<exists>j. seg es i xs j \<and> seg es j ys k)"
  by (induction xs arbitrary: i) auto

lemma seg_snoc: "seg es i (xs @ [x]) k \<longleftrightarrow> seg es i xs x \<and> x < length es \<and> re_next (es ! x) = k"
  by (auto simp: seg_append)

lemma seg_bound: "seg es i js k \<Longrightarrow> j \<in> set js \<Longrightarrow> j < length es"
  by (induction js arbitrary: i) auto

lemma seg_cong:
  "\<forall>j \<in> set js. j < length es' \<and> re_next (es' ! j) = re_next (es ! j) \<Longrightarrow> seg es i js k \<Longrightarrow> seg es' i js k"
proof (induction js arbitrary: i)
  case (Cons j js)
  from Cons.prems(1) have "j < length es'" "re_next (es' ! j) = re_next (es ! j)"
    and "\<forall>j \<in> set js. j < length es' \<and> re_next (es' ! j) = re_next (es ! j)" by simp_all
  with Cons.IH Cons.prems(2) show ?case by (simp only: seg.simps)
qed simp

lemma seg_update: "x \<notin> set js \<Longrightarrow> seg (es[x := e]) i js k \<longleftrightarrow> seg es i js k"
  by (induction js arbitrary: i) auto

lemma seg_update_same: "re_next e = re_next (es ! x) \<Longrightarrow> seg (es[x := e]) i js k \<longleftrightarrow> seg es i js k"
proof -
  assume e: "re_next e = re_next (es ! x)"
  have n: "j < length es \<Longrightarrow> re_next (es[x := e] ! j) = re_next (es ! j)" for j
    by (cases "j = x") (simp_all add: e)
  show ?thesis by (induction js arbitrary: i) (simp_all add: n cong: conj_cong)
qed

lemma seg_relink:
  "seg es i (xs @ [x]) k \<Longrightarrow> x \<notin> set xs \<Longrightarrow> re_next e = m \<Longrightarrow> seg (es[x := e]) i (xs @ [x]) m"
  by (simp add: seg_snoc seg_update)

text \<open>Every visited slot but the last one links to a slot.\<close>

lemma seg_next: "seg es i (xs @ x # y # ys) k \<Longrightarrow> re_next (es ! x) = y"
  by (auto simp: seg_append)

lemma seg_last: "seg es i (xs @ [x]) k \<Longrightarrow> re_next (es ! x) = k"
  by (auto simp: seg_append)

section \<open>Slots in use\<close>

definition slot :: "u64 list \<Rightarrow> nat \<Rightarrow> bool" where
  "slot masks i \<longleftrightarrow> bit (masks ! (i div 64)) (i mod 64)"

definition alloc_inv :: "lsquic_rechist \<Rightarrow> nat set \<Rightarrow> bool" where
  "alloc_inv r S \<longleftrightarrow> rh_n_alloced r = length (rh_elems r) \<and> length (rh_elems r) \<le> UINT_MAX
     \<and> rh_n_masks r = length (rh_masks r) \<and> length (rh_masks r) = (length (rh_elems r) + 63) div 64
     \<and> rh_n_used r = card S \<and> S \<subseteq> {..<length (rh_elems r)}
     \<and> (\<forall>i < 64 * length (rh_masks r). slot (rh_masks r) i \<longleftrightarrow> i \<in> S)
     \<and> (rh_max_ranges r \<noteq> 0 \<longrightarrow> length (rh_elems r) \<le> rh_max_ranges r)
     \<and> rh_max_ranges r \<noteq> 1 \<and> rh_max_ranges r \<le> UINT_MAX"

lemma slot_set:
  assumes "i < 64 * length masks" "j < 64 * length masks"
  shows "slot (masks[j div 64 := masks ! (j div 64) OR 2 ^ (j mod 64)]) i \<longleftrightarrow> slot masks i \<or> i = j"
    and "slot (masks[j div 64 := masks ! (j div 64) AND NOT (2 ^ (j mod 64))]) i \<longleftrightarrow> slot masks i \<and> i \<noteq> j"
proof -
  have d: "i div 64 < length masks" "j div 64 < length masks" using assms by auto
  have e: "i = j \<longleftrightarrow> i div 64 = j div 64 \<and> i mod 64 = j mod 64" by (metis div_mult_mod_eq)
  have b: "bit (2 ^ (j mod 64) :: u64) n \<longleftrightarrow> n = j mod 64" if "n < 64" for n
    using that by (auto simp: bit_exp_iff)
  show "slot (masks[j div 64 := masks ! (j div 64) OR 2 ^ (j mod 64)]) i \<longleftrightarrow> slot masks i \<or> i = j"
    unfolding slot_def e using d by (cases "i div 64 = j div 64") (auto simp: bit_or_iff b nth_list_update)
  show "slot (masks[j div 64 := masks ! (j div 64) AND NOT (2 ^ (j mod 64))]) i \<longleftrightarrow> slot masks i \<and> i \<noteq> j"
    unfolding slot_def e using d
    by (cases "i div 64 = j div 64") (auto simp: bit_and_iff bit_not_iff b nth_list_update)
qed

lemma masks_cover: "n \<le> 64 * ((n + 63) div 64)" for n :: nat
  by presburger

lemma free_elem_inv:
  assumes "alloc_inv r S" "i \<in> S"
  shows "alloc_inv (rechist_free_elem r i) (S - {i})"
proof -
  have fin: "finite S" using assms(1) finite_subset by (auto simp: alloc_inv_def)
  have "i < 64 * length (rh_masks r)"
    using assms masks_cover [of "length (rh_elems r)"] by (auto simp: alloc_inv_def)
  then show ?thesis
    using assms fin by (auto simp: alloc_inv_def rechist_free_elem_def slot_set card_Diff_singleton)
qed

lemma alloc_inv_upd [simp]:
  "alloc_inv (r\<lparr>rh_head := h\<rparr>) S = alloc_inv r S"
  "alloc_inv (r\<lparr>rh_largest_acked_received := t\<rparr>) S = alloc_inv r S"
  "alloc_inv (r\<lparr>rh_cutoff := c\<rparr>) S = alloc_inv r S"
  "alloc_inv (r\<lparr>rh_cutoff_set := b\<rparr>) S = alloc_inv r S"
  "alloc_inv (r\<lparr>rh_iter_range := ir\<rparr>) S = alloc_inv r S"
  "alloc_inv (r\<lparr>rh_iter_next := n\<rparr>) S = alloc_inv r S"
  "length es = length (rh_elems r) \<Longrightarrow> alloc_inv (r\<lparr>rh_elems := es\<rparr>) S = alloc_inv r S"
  "alloc_inv (upd_elem j f r) S = alloc_inv r S"
  by (simp_all add: alloc_inv_def upd_elem_def)

lemma length_takeWhile_eqI:
  assumes "k < length xs" "\<not> P (xs ! k)" "\<And>i. i < k \<Longrightarrow> P (xs ! i)"
  shows "length (takeWhile P xs) = k"
proof -
  have "takeWhile P xs = takeWhile P (take k xs @ xs ! k # drop (Suc k) xs)"
    using assms(1) by (simp add: id_take_nth_drop [symmetric])
  also have "\<dots> = take k xs"
    using assms by (subst takeWhile_append2) (auto simp: in_set_conv_nth)
  finally show ?thesis using assms(1) by simp
qed

lemma ctz64_spec:
  assumes "w \<noteq> 0"
  shows "ctz64 w < 64" "bit w (ctz64 w)" "i < ctz64 w \<Longrightarrow> \<not> bit w i"
proof -
  obtain n where n: "bit w n" using assms by (metis bit_eqI bit_0_eq bot_apply bot_bool_def)
  then have "n < 64" using bit_imp_le_length [OF n] by simp
  define k where "k = (LEAST n. bit w n)"
  have k: "bit w k" "\<And>i. i < k \<Longrightarrow> \<not> bit w i" "k < 64"
    unfolding k_def using n \<open>n < 64\<close> by (auto intro: LeastI dest: not_less_Least intro!: le_less_trans [OF Least_le])
  have "ctz64 w = k"
    unfolding ctz64_def by (rule length_takeWhile_eqI) (use k in auto)
  with k show "ctz64 w < 64" "bit w (ctz64 w)" "i < ctz64 w \<Longrightarrow> \<not> bit w i" by simp_all
qed

lemma find_free_slot_spec:
  assumes "m \<noteq> -1"
  shows "find_free_slot m < 64" "\<not> bit m (find_free_slot m)" "i < find_free_slot m \<Longrightarrow> bit m i"
proof -
  have nz: "NOT m \<noteq> 0" using assms by (metis bit.compl_zero bit.double_compl)
  note c = ctz64_spec [OF nz]
  show "find_free_slot m < 64" using c(1) by (simp add: find_free_slot_def)
  show "\<not> bit m (find_free_slot m)" using c(1,2) by (auto simp: find_free_slot_def bit_not_iff)
  show "bit m i" if "i < find_free_slot m"
    using that c(1) c(3) [of i] by (auto simp: find_free_slot_def bit_not_iff split: if_splits)
qed

lemma take_slot_spec:
  assumes inv: "alloc_inv r S" and room: "rh_n_used r < rh_n_alloced r"
  shows "\<exists>masks idx. rechist_take_slot r = Some (r\<lparr>rh_masks := masks, rh_n_used := rh_n_used r + 1\<rparr>, idx)
     \<and> idx < rh_n_alloced r \<and> idx \<notin> S \<and> length masks = length (rh_masks r)
     \<and> alloc_inv (r\<lparr>rh_masks := masks, rh_n_used := rh_n_used r + 1\<rparr>) (insert idx S)"
proof -
  let ?m = "rh_masks r" let ?n = "length (rh_elems r)"
  define i where "i = length (takeWhile (\<lambda>m. m = -1) ?m)"
  have fin: "finite S" and SN: "S \<subseteq> {..<?n}" and cov: "?n \<le> 64 * length ?m"
    using inv finite_subset masks_cover [of ?n] by (auto simp: alloc_inv_def)
  have lt: "card S < ?n" using inv room by (simp add: alloc_inv_def)
  have sl: "\<And>k. k < 64 * length ?m \<Longrightarrow> slot ?m k \<longleftrightarrow> k \<in> S" using inv by (simp add: alloc_inv_def)
  have below: "k \<in> S" if "k < 64 * i" "k < 64 * length ?m" for k
  proof -
    have "k div 64 < i" using that by auto
    then have "?m ! (k div 64) = -1" using set_takeWhileD nth_mem
      by (metis (mono_tags, lifting) i_def takeWhile_nth)
    then have "slot ?m k" by (simp add: slot_def bit_minus_1_iff)
    then show ?thesis using sl that by simp
  qed
  have free: "\<exists>k < ?n. k \<notin> S"
  proof (rule ccontr)
    assume "\<not> (\<exists>k < ?n. k \<notin> S)"
    then have "{..<?n} \<subseteq> S" by auto
    then have "card {..<?n} \<le> card S" by (rule card_mono [OF fin])
    then have "?n \<le> card S" by simp
    then show False using lt by simp
  qed
  then obtain k0 where k0: "k0 < ?n" "k0 \<notin> S" by blast
  have i: "i < length ?m"
  proof (rule ccontr)
    assume "\<not> i < length ?m"
    then have "k0 < 64 * i" using k0 cov by linarith
    then show False using below [of k0] k0 cov by linarith
  qed
  have ni: "?m ! i \<noteq> -1" using i nth_length_takeWhile [of "\<lambda>m. m = -1" ?m] by (simp add: i_def)
  define f where "f = find_free_slot (?m ! i)"
  note ff = find_free_slot_spec [OF ni, folded f_def]
  define idx where "idx = f + i * 64"
  have dm: "idx div 64 = i" "idx mod 64 = f" using ff(1) by (simp_all add: idx_def)
  have idx64: "idx < 64 * length ?m"
  proof -
    have "idx < 64 * (i + 1)" using ff(1) by (simp add: idx_def)
    also have "64 * (i + 1) \<le> 64 * length ?m" using i by simp
    finally show ?thesis .
  qed
  have notin: "idx \<notin> S" using sl [OF idx64] ff(2) by (simp add: slot_def dm)
  have low: "k \<in> S" if "k < idx" for k
  proof (cases "k < 64 * i")
    case True
    then show ?thesis using below that idx64 by simp
  next
    case False
    then obtain t where t: "k = t + i * 64" by (metis add.commute le_add_diff_inverse mult.commute not_less)
    then have "t < f" using that by (simp add: idx_def)
    then have "k div 64 = i" "k mod 64 < f" using ff(1) by (simp_all add: t)
    then show ?thesis using sl [of k] that idx64 ff(3) by (simp add: slot_def)
  qed
  have idxn: "idx < ?n" using low k0 by (metis not_less_iff_gr_or_eq order.strict_trans)
  let ?m' = "?m[i := ?m ! i OR 2 ^ f]"
  have "rechist_take_slot r = Some (r\<lparr>rh_masks := ?m', rh_n_used := rh_n_used r + 1\<rparr>, idx)"
    using i inv by (simp add: rechist_take_slot_def Let_def i_def [symmetric] f_def idx_def alloc_inv_def)
  moreover have "alloc_inv (r\<lparr>rh_masks := ?m', rh_n_used := rh_n_used r + 1\<rparr>) (insert idx S)"
    using inv notin fin idxn sl slot_set(1) [OF _ idx64, unfolded dm]
    by (auto simp: alloc_inv_def)
  ultimately show ?thesis
    using notin idxn inv by (intro exI [of _ ?m'] exI [of _ idx]) (auto simp: alloc_inv_def)
qed


lemma grow_n_masks:
  assumes "n \<le> UINT_MAX"
  shows "(n + unat (- of_nat n AND 63 :: u32)) div 64 = (n + 63) div 64"
proof -
  have "(- of_nat n AND 63 :: u32) = take_bit 6 (- of_nat n)"
    by (simp add: take_bit_eq_mask mask_eq_exp_minus_1)
  then have u: "unat (- of_nat n AND 63 :: u32) = unat (- of_nat n :: u32) mod 64"
    by (simp only: unsigned_take_bit_eq take_bit_eq_mod [of 6 "unat _"]) simp
  show ?thesis
  proof (cases "n = 0")
    case True
    then show ?thesis by simp
  next
    case False
    have n32: "n < 4294967296" using assms by (simp add: UINT_MAX_def)
    have "(of_nat (4294967296 - n) :: u32) = - of_nat n"
      using n32 by (simp add: of_nat_diff)
    then have "unat (- of_nat n :: u32) = unat (of_nat (4294967296 - n) :: u32)" by (rule arg_cong [OF sym])
    also have "\<dots> = 4294967296 - n" using n32 False unfolding unat_of_nat by simp
    finally have m: "unat (- of_nat n :: u32) = 4294967296 - n" .
    define q t where "q = n div 64" and "t = n mod 64"
    have qt: "n = 64 * q + t" "t < 64" by (simp_all add: q_def t_def)
    then have "4294967296 - n = 64 * (67108863 - q) + (64 - t)" using n32 by linarith
    then have k: "(4294967296 - n) mod 64 = (64 - t) mod 64" by simp
    have "(n + (64 - t) mod 64) div 64 = (n + 63) div 64"
    proof (cases "t = 0")
      case True
      then show ?thesis using qt by simp
    next
      case False
      then have e: "n + (64 - t) mod 64 = 64 * (q + 1)" "n + 63 = 64 * (q + 1) + (t - 1)" "t - 1 < 64"
        using qt by simp_all
      show ?thesis unfolding e(1,2) using e(3) by simp
    qed
    then show ?thesis unfolding u m k .
  qed
qed

text \<open>What an allocation leaves alone.\<close>

definition same_but_slots :: "lsquic_rechist \<Rightarrow> lsquic_rechist \<Rightarrow> bool" where
  "same_but_slots r r' \<longleftrightarrow> rh_cutoff r' = rh_cutoff r \<and> rh_cutoff_set r' = rh_cutoff_set r
     \<and> rh_largest_acked_received r' = rh_largest_acked_received r \<and> rh_head r' = rh_head r
     \<and> rh_max_ranges r' = rh_max_ranges r \<and> rh_iter_range r' = rh_iter_range r \<and> rh_iter_next r' = rh_iter_next r"

lemma grow_spec:
  assumes inv: "alloc_inv r S" and room: "\<not> at_max_ranges r" "rh_n_used r = rh_n_alloced r"
    and big: "rh_max_ranges r = 0 \<longrightarrow> 2 * rh_n_alloced r \<le> UINT_MAX" and re: "\<forall>n. realloc n \<noteq> None"
  shows "\<exists>r'. rechist_grow realloc r = Some r' \<and> alloc_inv r' S \<and> rh_n_used r' < rh_n_alloced r'
     \<and> (\<forall>i \<in> S. rh_elems r' ! i = rh_elems r ! i) \<and> same_but_slots r r'"
proof -
  let ?n = "length (rh_elems r)"
  define n1 where "n1 = (if rh_n_alloced r \<noteq> 0 then rh_n_alloced r * 2 else 4)"
  define n2 where "n2 = (if rh_max_ranges r \<noteq> 0 \<and> n1 > rh_max_ranges r then rh_max_ranges r else n1)"
  obtain fresh where fr: "realloc n2 = Some fresh" using re by blast
  have na: "rh_n_alloced r = ?n" and S: "S \<subseteq> {..<?n}" and mx: "rh_max_ranges r \<noteq> 1" "rh_max_ranges r \<le> UINT_MAX"
    and mm: "rh_n_masks r = length (rh_masks r)" "length (rh_masks r) = (?n + 63) div 64"
    and us: "rh_n_used r = card S" and sl: "\<And>i. i < 64 * length (rh_masks r) \<Longrightarrow> slot (rh_masks r) i \<longleftrightarrow> i \<in> S"
    using inv by (auto simp: alloc_inv_def)
  have n2: "?n < n2" "n2 \<le> UINT_MAX" "rh_max_ranges r \<noteq> 0 \<longrightarrow> n2 \<le> rh_max_ranges r"
    using room big na mx by (auto simp: n1_def n2_def at_max_ranges_def UINT_MAX_def)
  let ?m = "(n2 + 63) div 64"
  have mle: "length (rh_masks r) \<le> ?m" using n2(1) mm by (simp add: div_le_mono)
  define r' where "r' = r\<lparr>rh_elems := rh_elems r @ replicate (n2 - ?n) fresh,
      rh_masks := rh_masks r @ replicate (?m - length (rh_masks r)) 0, rh_n_alloced := n2, rh_n_masks := ?m\<rparr>"
  have g: "rechist_grow realloc r = Some r'"
    unfolding rechist_grow_def Let_def n1_def [symmetric] n2_def [symmetric] grow_n_masks [OF n2(2)] fr
    using n2(1) mle na mm by (simp add: r'_def)
  have slots: "slot (rh_masks r') i \<longleftrightarrow> i \<in> S" if "i < 64 * length (rh_masks r')" for i
  proof (cases "i < 64 * length (rh_masks r)")
    case True
    then have "i div 64 < length (rh_masks r)" by auto
    then have "slot (rh_masks r') i \<longleftrightarrow> slot (rh_masks r) i" by (simp add: r'_def slot_def nth_append)
    then show ?thesis using sl [OF True] by simp
  next
    case False
    then have "\<not> i div 64 < length (rh_masks r)" "i div 64 < ?m" using that mle by (auto simp: r'_def)
    then have "\<not> slot (rh_masks r') i" by (simp add: r'_def slot_def nth_append)
    moreover have "i \<notin> S" using False S masks_cover [of ?n] mm(2) by auto
    ultimately show ?thesis by simp
  qed
  have "alloc_inv r' S"
    using n2 mle S us mx slots unfolding alloc_inv_def by (auto simp: r'_def)
  moreover have "rh_n_used r' < rh_n_alloced r'" using room(2) na n2(1) by (simp add: r'_def)
  moreover have "\<forall>i \<in> S. rh_elems r' ! i = rh_elems r ! i" using S by (auto simp: r'_def nth_append)
  ultimately show ?thesis using g by (auto simp: same_but_slots_def r'_def)
qed

lemma alloc_elem_spec:
  assumes inv: "alloc_inv r S" and room: "\<not> at_max_ranges r"
    and big: "rh_max_ranges r = 0 \<longrightarrow> 2 * rh_n_alloced r \<le> UINT_MAX" and re: "\<forall>n. realloc n \<noteq> None"
  shows "\<exists>r' idx. rechist_alloc_elem realloc r = Some (r', idx) \<and> idx \<notin> S \<and> idx < length (rh_elems r')
     \<and> alloc_inv r' (insert idx S) \<and> (\<forall>i \<in> S. rh_elems r' ! i = rh_elems r ! i) \<and> same_but_slots r r'"
proof (cases "rh_n_used r = rh_n_alloced r")
  case True
  from grow_spec [OF inv room True big re] obtain r1 where
    r1: "rechist_grow realloc r = Some r1" "alloc_inv r1 S" "rh_n_used r1 < rh_n_alloced r1"
      "\<forall>i \<in> S. rh_elems r1 ! i = rh_elems r ! i" "same_but_slots r r1" by blast
  from take_slot_spec [OF r1(2,3)] obtain masks idx where
    t: "rechist_take_slot r1 = Some (r1\<lparr>rh_masks := masks, rh_n_used := rh_n_used r1 + 1\<rparr>, idx)"
      "idx < rh_n_alloced r1" "idx \<notin> S" "alloc_inv (r1\<lparr>rh_masks := masks, rh_n_used := rh_n_used r1 + 1\<rparr>) (insert idx S)"
    by blast
  have "rechist_alloc_elem realloc r = rechist_take_slot r1"
    using True room r1(1) by (auto simp: rechist_alloc_elem_def at_max_ranges_def)
  then have "rechist_alloc_elem realloc r = Some (r1\<lparr>rh_masks := masks, rh_n_used := rh_n_used r1 + 1\<rparr>, idx)"
    using t(1) by simp
  moreover have "rh_n_alloced r1 = length (rh_elems r1)" using r1(2) by (simp add: alloc_inv_def)
  ultimately show ?thesis using t(2-4) r1(4,5)
    by (intro exI conjI) (assumption | simp add: same_but_slots_def)+
next
  case False
  have "card S \<le> length (rh_elems r)"
    using inv card_mono [of "{..<length (rh_elems r)}" S] by (auto simp: alloc_inv_def)
  then have "rh_n_used r < rh_n_alloced r" using False inv by (simp add: alloc_inv_def)
  from take_slot_spec [OF inv this] obtain masks idx where
    t: "rechist_take_slot r = Some (r\<lparr>rh_masks := masks, rh_n_used := rh_n_used r + 1\<rparr>, idx)"
      "idx < rh_n_alloced r" "idx \<notin> S" "alloc_inv (r\<lparr>rh_masks := masks, rh_n_used := rh_n_used r + 1\<rparr>) (insert idx S)"
    by blast
  have "rechist_alloc_elem realloc r = rechist_take_slot r"
    using False by (simp add: rechist_alloc_elem_def)
  then have "rechist_alloc_elem realloc r = Some (r\<lparr>rh_masks := masks, rh_n_used := rh_n_used r + 1\<rparr>, idx)"
    using t(1) by simp
  moreover have "rh_n_alloced r = length (rh_elems r)" using inv by (simp add: alloc_inv_def)
  ultimately show ?thesis using t(2-4)
    by (intro exI conjI) (assumption | simp add: same_but_slots_def)+
qed

section \<open>The sanity check\<close>

lemma sanity_walk_spec:
  assumes "seg es i js UINT_MAX" "js \<noteq> []" "length js \<le> k" "length es \<le> UINT_MAX" "length es \<le> 64 * length masks"
  shows "\<exists>masks'. sanity_walk k (length es) es i masks = (length js, masks') \<and> length masks' = length masks
    \<and> (\<forall>x < 64 * length masks. slot masks' x \<longleftrightarrow> slot masks x \<or> x \<in> set js)"
  using assms
proof (induction js arbitrary: i masks k)
  case (Cons j js)
  obtain k' where k: "k = Suc k'" using Cons.prems(3) by (cases k) auto
  have i: "i = j" "j < length es" "seg es (re_next (es ! j)) js UINT_MAX" using Cons.prems(1) by auto
  define m1 where "m1 = masks[j div 64 := masks ! (j div 64) OR 2 ^ (j mod 64)]"
  have m1: "length m1 = length masks" "\<forall>x < 64 * length masks. slot m1 x \<longleftrightarrow> slot masks x \<or> x = j"
    using slot_set(1) [of _ masks j] i(2) Cons.prems(5) by (simp_all add: m1_def)
  show ?case
  proof (cases "js = []")
    case True
    then show ?thesis using i m1 by (auto simp: k Let_def push_bit_of_1 m1_def [symmetric])
  next
    case False
    then have n: "re_next (es ! j) \<noteq> UINT_MAX" using i(3) Cons.prems(4) by (cases js) auto
    from Cons.IH [OF i(3) False, of k' m1] Cons.prems(3-5) m1(1)
    obtain m2 where "sanity_walk k' (length es) es (re_next (es ! j)) m1 = (length js, m2)" "length m2 = length masks"
      "\<forall>x < 64 * length masks. slot m2 x \<longleftrightarrow> slot m1 x \<or> x \<in> set js" by (auto simp: k)
    then show ?thesis using i(1,2) n m1(2) by (auto simp: k Let_def push_bit_of_1 m1_def [symmetric])
  qed
qed simp

lemma slots_eqI:
  assumes "length ms = length ns" "\<forall>x < 64 * length ms. slot ms x \<longleftrightarrow> slot ns x"
  shows "ms = ns"
proof (rule nth_equalityI [OF assms(1)], rule bit_word_eqI)
  fix i n assume "i < length ms" "n < LENGTH(64)"
  with assms(2) [rule_format, of "64 * i + n"] show "bit (ms ! i) n \<longleftrightarrow> bit (ns ! i) n" by (simp add: slot_def)
qed

end
