(* ===== verification/Rechist_List.thy ===== *)
theory Rechist_List
  imports Rechist_Slots
begin

text \<open>
  The linked list of the receive history as a list of packet number ranges: the
  representation relation \<open>rh_rep\<close>, where the search loop stops, and what extending, merging and
  linking elements does to the ranges.
\<close>

section \<open>Elements as ranges\<close>

definition elem_ok :: "rechist_elem \<Rightarrow> bool" where
  "elem_ok e \<longleftrightarrow> 0 < unat (re_count e) \<and> unat (re_low e) + unat (re_count e) \<le> 4611686018427387904"

definition range_of :: "rechist_elem \<Rightarrow> pn_range" where
  "range_of e = (unat (re_low e), unat (re_low e) + unat (re_count e) - 1)"

lemma unat_RE_HIGH:
  assumes "elem_ok e"
  shows "unat (RE_HIGH e) = unat (re_low e) + unat (re_count e) - 1"
    and "unat (RE_HIGH e + 1) = unat (re_low e) + unat (re_count e)"
proof -
  have u: "unat (ucast (re_count e) :: u64) = unat (re_count e)" by (simp add: unat_ucast_up)
  have s: "unat (re_low e + ucast (re_count e)) = unat (re_low e) + unat (re_count e)"
    using assms unfolding unat_word_ariths(1) u by (simp add: elem_ok_def)
  then have "1 \<le> re_low e + ucast (re_count e)" using assms by (simp add: word_le_nat_alt elem_ok_def)
  then show "unat (RE_HIGH e) = unat (re_low e) + unat (re_count e) - 1"
    using s by (simp add: RE_HIGH_def unat_sub)
  show "unat (RE_HIGH e + 1) = unat (re_low e) + unat (re_count e)" using s by (simp add: RE_HIGH_def)
qed

lemma pred_eq: "unat p < 4611686018427387904 \<Longrightarrow> (p :: u64) = w - 1 \<longleftrightarrow> unat p + 1 = unat w"
proof -
  assume p: "unat p < 4611686018427387904"
  have "p = w - 1 \<longleftrightarrow> p + 1 = w" by (auto simp: algebra_simps)
  also have "\<dots> \<longleftrightarrow> unat (p + 1) = unat w" by (simp add: word_unat_eq_iff)
  also have "unat (p + 1) = unat p + 1" using p by (simp add: unat_word_ariths(1))
  finally show ?thesis .
qed

text \<open>The tests of the search loop, on natural numbers.\<close>

lemma search_tests:
  assumes "elem_ok e" "unat p < 4611686018427387904"
  shows "p > RE_HIGH e + 1 \<longleftrightarrow> snd (range_of e) + 1 < unat p"
    and "p = re_low e - 1 \<longleftrightarrow> unat p + 1 = fst (range_of e)"
    and "p = RE_HIGH e + 1 \<longleftrightarrow> unat p = snd (range_of e) + 1"
    and "p \<ge> re_low e \<longleftrightarrow> fst (range_of e) \<le> unat p"
    and "p \<le> RE_HIGH e \<longleftrightarrow> unat p \<le> snd (range_of e)"
    and "p > RE_HIGH e \<longleftrightarrow> snd (range_of e) < unat p"
  using assms(1) unat_RE_HIGH [OF assms(1)] pred_eq [OF assms(2), of "re_low e"]
  by (auto simp: range_of_def word_less_nat_alt word_le_nat_alt elem_ok_def word_unat_eq_iff)

lemma range_of_le: "elem_ok e \<Longrightarrow> fst (range_of e) \<le> snd (range_of e)"
  unfolding range_of_def elem_ok_def by auto

text \<open>What a place says about the split of the list at the element it names.\<close>

fun place_ok :: "rechist_elem list \<Rightarrow> nat \<Rightarrow> nat option \<Rightarrow> nat list \<Rightarrow> nat \<Rightarrow> nat list \<Rightarrow> rh_place \<Rightarrow> bool" where
  "place_ok es p prev xs el ys (INSERT_BEFORE e pv) \<longleftrightarrow> e = el \<and> snd (range_of (es ! el)) + 1 < p
     \<and> pv = (if xs = [] then prev else Some (last xs))"
| "place_ok es p prev xs el ys (EXTEND_LOW e) \<longleftrightarrow> e = el \<and> p + 1 = fst (range_of (es ! el))"
| "place_ok es p prev xs el ys (EXTEND_HIGH e) \<longleftrightarrow> e = el \<and> p = snd (range_of (es ! el)) + 1"
| "place_ok es p prev xs el ys FOUND \<longleftrightarrow> fst (range_of (es ! el)) \<le> p \<and> p \<le> snd (range_of (es ! el))"
| "place_ok es p prev xs el ys (INSERT_TAIL e) \<longleftrightarrow> e = el \<and> ys = [] \<and> p + 1 < fst (range_of (es ! el))"
| "place_ok es p prev xs el ys OUT_OF_FUEL \<longleftrightarrow> False"

lemma place_ok_Cons: "place_ok es p (Some j) xs el ys pl \<Longrightarrow> place_ok es p prev (j # xs) el ys pl"
  by (cases pl) simp_all

lemma search_step:
  assumes "elem_ok (es ! j)" "unat p < 4611686018427387904"
  shows "rh_search (Suc f) es p j prev =
     (if snd (range_of (es ! j)) + 1 < unat p then INSERT_BEFORE j prev
      else if unat p + 1 = fst (range_of (es ! j)) then EXTEND_LOW j
      else if unat p = snd (range_of (es ! j)) + 1 then EXTEND_HIGH j
      else if fst (range_of (es ! j)) \<le> unat p then FOUND
      else if re_next (es ! j) = UINT_MAX then INSERT_TAIL j
      else rh_search f es p (re_next (es ! j)) (Some j))"
  unfolding rh_search.simps Let_def search_tests [OF assms] using range_of_le [OF assms(1)] by simp

lemma search_spec:
  assumes "seg es i js UINT_MAX" "js \<noteq> []" "length js \<le> fuel" and len: "length es \<le> UINT_MAX"
    and "\<forall>j \<in> set js. elem_ok (es ! j)" and p: "unat p < 4611686018427387904"
  shows "\<exists>xs el ys. js = xs @ el # ys \<and> (\<forall>j \<in> set xs. unat p + 1 < fst (range_of (es ! j)))
    \<and> place_ok es (unat p) prev xs el ys (rh_search fuel es p i prev)"
  using assms(1-3,5)
proof (induction js arbitrary: i fuel prev)
  case (Cons j js)
  obtain f where fuel: "fuel = Suc f" "length js \<le> f" using Cons.prems(3) by (cases fuel) auto
  have ok: "elem_ok (es ! j)" and i: "i = j" and sg: "seg es (re_next (es ! j)) js UINT_MAX"
    using Cons.prems by simp_all
  note le = range_of_le [OF ok]
  note step = search_step [OF ok p, of f prev]
  show ?case
  proof (cases "unat p + 1 < fst (range_of (es ! j)) \<and> js \<noteq> []")
    case False
    have "js = [] \<Longrightarrow> re_next (es ! j) = UINT_MAX" using sg by simp
    then have "place_ok es (unat p) prev [] j js (rh_search fuel es p i prev)"
      unfolding fuel i step using False le by simp
    then show ?thesis by (intro exI [of _ "[]"] exI [of _ j] exI [of _ js]) simp
  next
    case True
    then have below: "unat p + 1 < fst (range_of (es ! j))" and js: "js \<noteq> []" by simp_all
    have "re_next (es ! j) \<noteq> UINT_MAX" using sg js len by (cases js) auto
    then have st: "rh_search fuel es p i prev = rh_search f es p (re_next (es ! j)) (Some j)"
      unfolding fuel i step using below le by simp
    from Cons.IH [OF sg js fuel(2), of "Some j"] Cons.prems(4) obtain xs el ys where
      IH: "js = xs @ el # ys" "\<forall>j \<in> set xs. unat p + 1 < fst (range_of (es ! j))"
        "place_ok es (unat p) (Some j) xs el ys (rh_search f es p (re_next (es ! j)) (Some j))"
      by auto
    show ?thesis unfolding st
      using IH(1,2) below place_ok_Cons [OF IH(3)]
      by (intro exI [of _ "j # xs"] exI [of _ el] exI [of _ ys]) simp
  qed
qed simp

section \<open>The invariant\<close>

definition rh_ranges :: "rechist_elem list \<Rightarrow> nat list \<Rightarrow> pn_range list" where
  "rh_ranges es js = map (\<lambda>j. range_of (es ! j)) js"

definition rh_chain :: "lsquic_rechist \<Rightarrow> nat list \<Rightarrow> bool" where
  "rh_chain r js \<longleftrightarrow> alloc_inv r (set js) \<and> distinct js \<and> (js \<noteq> [] \<longrightarrow> seg (rh_elems r) (rh_head r) js UINT_MAX)
     \<and> (\<forall>j \<in> set js. elem_ok (rh_elems r ! j))"

text \<open>\<open>rh_rep r rs\<close>: the history is well formed and records the ranges \<open>rs\<close>.\<close>

definition rh_rep :: "lsquic_rechist \<Rightarrow> pn_range list \<Rightarrow> bool" where
  "rh_rep r rs \<longleftrightarrow> (\<exists>js. rh_chain r js \<and> rs = rh_ranges (rh_elems r) js) \<and> pr_ok rs
     \<and> (\<forall>x \<in> pr_set rs. unat (rh_cutoff r) \<le> x)"

lemma rh_ranges_append [simp]: "rh_ranges es (xs @ ys) = rh_ranges es xs @ rh_ranges es ys"
  by (simp add: rh_ranges_def)

lemma rh_ranges_Cons [simp]: "rh_ranges es (x # xs) = range_of (es ! x) # rh_ranges es xs"
  by (simp add: rh_ranges_def)

lemma rh_ranges_Nil [simp]: "rh_ranges es [] = []"
  by (simp add: rh_ranges_def)

lemma rh_ranges_cong: "\<forall>j \<in> set js. es' ! j = es ! j \<Longrightarrow> rh_ranges es' js = rh_ranges es js"
  by (simp add: rh_ranges_def)

lemma rh_ranges_update [simp]: "x \<notin> set js \<Longrightarrow> rh_ranges (es[x := e]) js = rh_ranges es js"
  by (rule rh_ranges_cong) (metis nth_list_update_neq)

lemma rh_ranges_skip:
  assumes "\<forall>j \<in> set xs. elem_ok (es ! j)" "\<forall>j \<in> set xs. p + 1 < fst (range_of (es ! j))"
  shows "pr_ins p (rh_ranges es xs @ rs) = rh_ranges es xs @ pr_ins p rs"
  using assms by (intro pr_ins_skip) (auto simp: rh_ranges_def split_def intro: range_of_le)


section \<open>Updating an element in place\<close>

lemma pr_card: "pr_ok rs \<Longrightarrow> card (pr_set rs) = sum_list (map (\<lambda>(l, h). h + 1 - l) rs)"
proof (induction rs)
  case (Cons x rs)
  obtain l h where x: "x = (l, h)" by (cases x)
  have "{l..h} \<inter> pr_set rs = {}" using Cons.prems pr_set_below by (fastforce simp: x)
  then show ?case using Cons by (simp add: x card_Un_disjoint)
qed simp

lemma upd_elem_simps [simp]:
  "rh_elems (upd_elem j f r) = (rh_elems r)[j := f (rh_elems r ! j)]" "rh_head (upd_elem j f r) = rh_head r"
  "rh_cutoff (upd_elem j f r) = rh_cutoff r" "rh_max_ranges (upd_elem j f r) = rh_max_ranges r"
  "rh_n_used (upd_elem j f r) = rh_n_used r" "rh_n_alloced (upd_elem j f r) = rh_n_alloced r"
  "rh_masks (upd_elem j f r) = rh_masks r" "rh_cutoff_set (upd_elem j f r) = rh_cutoff_set r"
  "rh_largest_acked_received (upd_elem j f r) = rh_largest_acked_received r"
  by (simp_all add: upd_elem_def)

lemma rh_chain_bound: "rh_chain r js \<Longrightarrow> j \<in> set js \<Longrightarrow> j < length (rh_elems r)"
  by (auto simp: rh_chain_def alloc_inv_def)

text \<open>An update that keeps the link keeps the list, with one range replaced.\<close>

lemma chain_upd:
  assumes ch: "rh_chain r (xs @ el # ys)"
    and f: "elem_ok (f (rh_elems r ! el))" "re_next (f (rh_elems r ! el)) = re_next (rh_elems r ! el)"
  shows "rh_chain (upd_elem el f r) (xs @ el # ys)"
    and "rh_ranges (rh_elems (upd_elem el f r)) (xs @ el # ys)
      = rh_ranges (rh_elems r) xs @ range_of (f (rh_elems r ! el)) # rh_ranges (rh_elems r) ys"
proof -
  have d: "el \<notin> set xs" "el \<notin> set ys" and l: "el < length (rh_elems r)"
    using ch rh_chain_bound [OF ch] by (auto simp: rh_chain_def)
  show "rh_chain (upd_elem el f r) (xs @ el # ys)"
    using ch f l by (auto simp: rh_chain_def seg_update_same nth_list_update)
  show "rh_ranges (rh_elems (upd_elem el f r)) (xs @ el # ys)
      = rh_ranges (rh_elems r) xs @ range_of (f (rh_elems r ! el)) # rh_ranges (rh_elems r) ys"
    using d l by simp
qed

lemma range_of_pair: "range_of e = (fst (range_of e), snd (range_of e))"
  by simp

lemma u32_plus1: "unat c + 1 < 4294967296 \<Longrightarrow> unat (c + 1 :: u32) = unat c + 1"
  by (simp add: unat_word_ariths(1))

lemma extend_high_elem:
  assumes "elem_ok e" "unat (re_count e) + 1 < 4294967296" "snd (range_of e) + 2 \<le> 4611686018427387904"
  shows "elem_ok (e\<lparr>re_count := re_count e + 1\<rparr>)"
    and "range_of (e\<lparr>re_count := re_count e + 1\<rparr>) = (fst (range_of e), snd (range_of e) + 1)"
  using assms u32_plus1 [OF assms(2)] by (auto simp: elem_ok_def range_of_def)

lemma unat_pred: "0 < unat w \<Longrightarrow> unat (w - 1 :: u64) = unat w - 1"
proof -
  assume "0 < unat w"
  then have "1 \<le> w" by (simp add: word_le_nat_alt)
  then show ?thesis by (simp add: unat_sub)
qed

lemma extend_low_elem:
  assumes "elem_ok e" "unat (re_count e) + 1 < 4294967296" "p + 1 = fst (range_of e)"
  shows "elem_ok (e\<lparr>re_low := re_low e - 1, re_count := re_count e + 1\<rparr>)"
    and "range_of (e\<lparr>re_low := re_low e - 1, re_count := re_count e + 1\<rparr>) = (p, snd (range_of e))"
proof -
  have "unat (re_low e - 1) = p" using assms(3) by (subst unat_pred) (auto simp: range_of_def)
  then show "elem_ok (e\<lparr>re_low := re_low e - 1, re_count := re_count e + 1\<rparr>)"
    and "range_of (e\<lparr>re_low := re_low e - 1, re_count := re_count e + 1\<rparr>) = (p, snd (range_of e))"
    using assms u32_plus1 [OF assms(2)] by (auto simp: elem_ok_def range_of_def)
qed

lemma merge_elem:
  fixes n :: nat
  assumes "elem_ok e" "elem_ok e2" "unat (re_count e) + unat (re_count e2) < 4294967296"
    and "fst (range_of e) = snd (range_of e2) + 1"
  defines "m \<equiv> e\<lparr>re_count := re_count e + re_count e2, re_low := re_low e2, re_next := n\<rparr>"
  shows "elem_ok m" "range_of m = (fst (range_of e2), snd (range_of e))"
proof -
  have "unat (re_count e + re_count e2) = unat (re_count e) + unat (re_count e2)"
    using assms(3) by (simp add: unat_word_ariths(1))
  then show "elem_ok m" "range_of m = (fst (range_of e2), snd (range_of e))"
    using assms(1,2,4) unfolding m_def by (auto simp: elem_ok_def range_of_def)
qed

text \<open>Swallowing the next element.\<close>

lemma chain_merge:
  assumes ch: "rh_chain r (xs @ el # nx # ys)" and m: "elem_ok m" "re_next m = re_next (rh_elems r ! nx)"
  defines "r' \<equiv> upd_elem el (\<lambda>_. m) (rechist_free_elem r nx)"
  shows "rh_chain r' (xs @ el # ys)"
    and "rh_ranges (rh_elems r') (xs @ el # ys) = rh_ranges (rh_elems r) xs @ range_of m # rh_ranges (rh_elems r) ys"
proof -
  have d: "el \<notin> set xs" "el \<notin> set ys" "nx \<notin> set xs" "nx \<notin> set ys" "el \<noteq> nx" "distinct (xs @ el # ys)"
    and l: "el < length (rh_elems r)"
    using ch rh_chain_bound [OF ch, of el] by (auto simp: rh_chain_def)
  have es: "rh_elems r' = (rh_elems r)[el := m]" by (simp add: r'_def rechist_free_elem_def)
  have "set (xs @ el # nx # ys) - {nx} = set (xs @ el # ys)" using d by auto
  then have "alloc_inv r' (set (xs @ el # ys))"
    using free_elem_inv [of r "set (xs @ el # nx # ys)" nx] ch by (simp add: r'_def rh_chain_def)
  moreover have "seg ((rh_elems r)[el := m]) (rh_head r) (xs @ el # ys) UINT_MAX"
    using ch l d m(2) by (auto simp: rh_chain_def seg_append seg_update)
  ultimately show "rh_chain r' (xs @ el # ys)"
    using ch d l m(1) by (auto simp: rh_chain_def es nth_list_update r'_def rechist_free_elem_def)
  show "rh_ranges (rh_elems r') (xs @ el # ys) = rh_ranges (rh_elems r) xs @ range_of m # rh_ranges (rh_elems r) ys"
    using d l by (simp add: es)
qed

section \<open>Linking a new element\<close>

text \<open>A slot that is not in the list can be linked at its end, at its front or inside.\<close>

lemma chain_link:
  assumes al: "alloc_inv r (set (xs @ idx # ys))" and d: "distinct (xs @ idx # ys)"
    and es: "idx < length (rh_elems r)" "elem_ok (rh_elems r ! idx)" "\<forall>j \<in> set (xs @ ys). elem_ok (rh_elems r ! j)"
    and sg: "seg (rh_elems r) (rh_head r) xs idx" "seg (rh_elems r) (re_next (rh_elems r ! idx)) ys UINT_MAX"
  shows "rh_chain r (xs @ idx # ys)"
  using assms by (auto simp: rh_chain_def seg_append)


section \<open>Recording a packet\<close>

lemma count_range: "elem_ok e \<Longrightarrow> unat (re_count e) = snd (range_of e) + 1 - fst (range_of e)"
  by (auto simp: elem_ok_def range_of_def)

lemma count_bound:
  assumes "pr_ok (xs @ range_of e # ys)" "elem_ok e"
  shows "unat (re_count e) \<le> card (pr_set (xs @ range_of e # ys))"
  unfolding pr_card [OF assms(1)] count_range [OF assms(2)] by (simp add: split_def)

lemma count_bound2:
  assumes "pr_ok (xs @ range_of e # range_of e2 # ys)" "elem_ok e" "elem_ok e2"
  shows "unat (re_count e) + unat (re_count e2) \<le> card (pr_set (xs @ range_of e # range_of e2 # ys))"
  unfolding pr_card [OF assms(1)] count_range [OF assms(2)] count_range [OF assms(3)] by (simp add: split_def)

text \<open>The situation at the end of the search: the list split at the element found.\<close>

definition found_at :: "lsquic_rechist \<Rightarrow> nat \<Rightarrow> nat list \<Rightarrow> nat \<Rightarrow> nat list \<Rightarrow> bool" where
  "found_at r p xs el ys \<longleftrightarrow> rh_chain r (xs @ el # ys) \<and> pr_ok (rh_ranges (rh_elems r) (xs @ el # ys))
     \<and> (\<forall>j \<in> set xs. p + 1 < fst (range_of (rh_elems r ! j))) \<and> p < 4611686018427387904
     \<and> card (pr_set (rh_ranges (rh_elems r) (xs @ el # ys))) < 4294967295"

lemma found_atD:
  assumes "found_at r p xs el ys"
  shows "rh_chain r (xs @ el # ys)" "elem_ok (rh_elems r ! el)" "el < length (rh_elems r)"
    "unat (re_count (rh_elems r ! el)) + 1 < 4294967296"
    "fst (range_of (rh_elems r ! el)) \<le> snd (range_of (rh_elems r ! el))"
    "pr_ins p (rh_ranges (rh_elems r) (xs @ el # ys))
       = rh_ranges (rh_elems r) xs @ pr_ins p (range_of (rh_elems r ! el) # rh_ranges (rh_elems r) ys)"
proof -
  show ch: "rh_chain r (xs @ el # ys)" using assms by (simp add: found_at_def)
  then show ok: "elem_ok (rh_elems r ! el)" by (simp add: rh_chain_def)
  show "el < length (rh_elems r)" using rh_chain_bound [OF ch] by simp
  show "unat (re_count (rh_elems r ! el)) + 1 < 4294967296"
    using assms count_bound [OF _ ok, of "rh_ranges (rh_elems r) xs" "rh_ranges (rh_elems r) ys"]
    by (simp add: found_at_def)
  show "fst (range_of (rh_elems r ! el)) \<le> snd (range_of (rh_elems r ! el))" using ok by (rule range_of_le)
  show "pr_ins p (rh_ranges (rh_elems r) (xs @ el # ys))
       = rh_ranges (rh_elems r) xs @ pr_ins p (range_of (rh_elems r ! el) # rh_ranges (rh_elems r) ys)"
    using assms rh_ranges_skip [of xs "rh_elems r" p] by (simp add: found_at_def rh_chain_def)
qed

lemma extend_high_ok:
  assumes f: "found_at r p xs el ys" and p: "p = snd (range_of (rh_elems r ! el)) + 1"
  defines "r' \<equiv> upd_elem el (\<lambda>e. e\<lparr>re_count := re_count e + 1\<rparr>) r"
  shows "rh_chain r' (xs @ el # ys)"
    "rh_ranges (rh_elems r') (xs @ el # ys) = pr_ins p (rh_ranges (rh_elems r) (xs @ el # ys))"
proof -
  note D = found_atD [OF f]
  have "snd (range_of (rh_elems r ! el)) + 2 \<le> 4611686018427387904" using f p by (simp add: found_at_def)
  note E = extend_high_elem [OF D(2,4) this]
  note U = chain_upd [OF D(1), of "\<lambda>e. e\<lparr>re_count := re_count e + 1\<rparr>"]
  show "rh_chain r' (xs @ el # ys)" unfolding r'_def by (rule U(1)) (simp_all add: E)
  have "rh_ranges (rh_elems r') (xs @ el # ys) = rh_ranges (rh_elems r) xs
      @ (fst (range_of (rh_elems r ! el)), p) # rh_ranges (rh_elems r) ys"
    unfolding r'_def using U(2) E p by simp
  also have "\<dots> = pr_ins p (rh_ranges (rh_elems r) (xs @ el # ys))"
    unfolding D(6) using D(5) p by (cases "range_of (rh_elems r ! el)") simp
  finally show "rh_ranges (rh_elems r') (xs @ el # ys) = pr_ins p (rh_ranges (rh_elems r) (xs @ el # ys))" .
qed

lemma extend_low_ok:
  assumes f: "found_at r p xs el ys" and p: "p + 1 = fst (range_of (rh_elems r ! el))"
  shows "\<exists>zs. rh_chain (extend_low el r) (xs @ el # zs) \<and>
    rh_ranges (rh_elems (extend_low el r)) (xs @ el # zs) = pr_ins p (rh_ranges (rh_elems r) (xs @ el # ys))"
proof -
  note D = found_atD [OF f]
  define e where "e = rh_elems r ! el"
  define e1 where "e1 = e\<lparr>re_low := re_low e - 1, re_count := re_count e + 1\<rparr>"
  define r1 where "r1 = upd_elem el (\<lambda>e. e\<lparr>re_low := re_low e - 1, re_count := re_count e + 1\<rparr>) r"
  have E: "elem_ok e1" "range_of e1 = (p, snd (range_of e))"
    using extend_low_elem [OF D(2,4) p] by (simp_all add: e1_def e_def)
  have U: "rh_chain r1 (xs @ el # ys)"
      "rh_ranges (rh_elems r1) (xs @ el # ys) = rh_ranges (rh_elems r) xs @ (p, snd (range_of e)) # rh_ranges (rh_elems r) ys"
    using chain_upd [OF D(1), of "\<lambda>e. e\<lparr>re_low := re_low e - 1, re_count := re_count e + 1\<rparr>"] E
    by (simp_all add: r1_def e1_def e_def)
  have el1: "rh_elems r1 ! el = e1" "rh_elems r1 = (rh_elems r)[el := e1]"
    using D(3) by (simp_all add: r1_def e1_def e_def)
  have nx: "re_next e1 = re_next e" by (simp add: e1_def)
  have low: "p + 1 = fst (range_of e)" "fst (range_of e) \<le> snd (range_of e)" using p D(5) by (simp_all add: e_def)
  have sg: "seg (rh_elems r) (re_next e) ys UINT_MAX"
    using D(1) by (auto simp: rh_chain_def seg_append e_def)
  have ins: "pr_ins p (rh_ranges (rh_elems r) (xs @ el # ys)) = rh_ranges (rh_elems r) xs @
      (case rh_ranges (rh_elems r) ys of (l2, h2) # rs' \<Rightarrow> if p = h2 + 1 then (l2, snd (range_of e)) # rs'
         else (p, snd (range_of e)) # rh_ranges (rh_elems r) ys | [] \<Rightarrow> [(p, snd (range_of e))])"
    unfolding D(6) e_def [symmetric] using low by (cases "range_of e") (auto split: list.splits)
  show ?thesis
  proof (cases ys)
    case Nil
    then have "re_next e = UINT_MAX" using sg by simp
    then have "extend_low el r = r1" by (simp add: extend_low_def Let_def r1_def [symmetric] el1(1) nx)
    then show ?thesis using U ins Nil by (intro exI [of _ ys]) simp
  next
    case (Cons n zs)
    have n: "re_next e = n" "n < length (rh_elems r)" "n \<noteq> UINT_MAX" "n \<noteq> el" "elem_ok (rh_elems r ! n)"
      using sg Cons D(1) by (auto simp: rh_chain_def alloc_inv_def)
    have en: "rh_elems r1 ! n = rh_elems r ! n" using n(4) by (simp add: el1(2))
    obtain l2 h2 where lh: "range_of (rh_elems r ! n) = (l2, h2)" by (cases "range_of (rh_elems r ! n)")
    have p62: "unat (of_nat p :: u64) = p" using f by (simp add: found_at_def unat_of_nat)
    have rl: "unat (re_low e1) = p" using E(2) by (simp add: range_of_def)
    have test: "re_low e1 = RE_HIGH (rh_elems r1 ! n) + 1 \<longleftrightarrow> p = h2 + 1"
      using search_tests(3) [OF n(5), of "re_low e1"] f rl lh by (simp add: en found_at_def)
    show ?thesis
    proof (cases "p = h2 + 1")
      case False
      then have "extend_low el r = r1"
        using test by (simp add: extend_low_def Let_def r1_def [symmetric] el1(1) nx n)
      then show ?thesis using U ins Cons False lh by (intro exI [of _ ys]) simp
    next
      case True
      define m where "m = e1\<lparr>re_count := re_count e1 + re_count (rh_elems r1 ! n),
          re_low := re_low (rh_elems r1 ! n), re_next := re_next (rh_elems r1 ! n)\<rparr>"
      have c1: "unat (re_count e1) = unat (re_count e) + 1"
        using u32_plus1 [OF D(4)] by (simp add: e1_def e_def)
      have "unat (re_count e) + unat (re_count (rh_elems r ! n)) < 4294967295"
        using count_bound2 [OF _ D(2) n(5), of "rh_ranges (rh_elems r) xs" "rh_ranges (rh_elems r) zs"] f Cons
        by (simp add: found_at_def e_def)
      then have M: "elem_ok m" "range_of m = (l2, snd (range_of e))"
        using merge_elem [OF E(1) n(5), of "re_next (rh_elems r1 ! n)"] c1 E(2) lh True
        by (simp_all add: m_def en)
      have x: "extend_low el r = upd_elem el (\<lambda>_. m) (rechist_free_elem r1 n)"
        unfolding extend_low_def Let_def r1_def [symmetric] el1(1) nx n(1) using True test n(3)
        by (simp add: m_def upd_elem_def rechist_free_elem_def el1(1))
      have "rh_chain r1 (xs @ el # n # zs)" using U(1) Cons by simp
      note G = chain_merge [OF this M(1)]
      have s: "rh_ranges (rh_elems r1) xs = rh_ranges (rh_elems r) xs" "rh_ranges (rh_elems r1) zs = rh_ranges (rh_elems r) zs"
        using D(1) Cons by (simp_all add: el1(2) rh_chain_def)
      show ?thesis
        using G M(2) ins Cons lh True s unfolding x by (intro exI [of _ zs]) (simp add: m_def)
    qed
  qed
qed


abbreviation new_elem :: "packno \<Rightarrow> nat \<Rightarrow> rechist_elem" where
  "new_elem p n \<equiv> \<lparr>re_low = p, re_count = 1, re_next = n\<rparr>"

lemma new_elem_ok:
  "unat p < 4611686018427387904 \<Longrightarrow> elem_ok (new_elem p n)" "range_of (new_elem p n) = (unat p, unat p)"
  by (auto simp: elem_ok_def range_of_def)

text \<open>A slot just allocated, ready to be linked between \<open>xs\<close> and \<open>ys\<close>.\<close>

definition link_ready :: "lsquic_rechist \<Rightarrow> nat \<Rightarrow> nat list \<Rightarrow> nat list \<Rightarrow> bool" where
  "link_ready r idx xs ys \<longleftrightarrow> alloc_inv r (insert idx (set (xs @ ys))) \<and> idx \<notin> set (xs @ ys) \<and> distinct (xs @ ys)
     \<and> idx < length (rh_elems r) \<and> (xs @ ys \<noteq> [] \<longrightarrow> seg (rh_elems r) (rh_head r) (xs @ ys) UINT_MAX)
     \<and> (\<forall>j \<in> set (xs @ ys). elem_ok (rh_elems r ! j))"

definition link_elem :: "rechist_elem \<Rightarrow> nat \<Rightarrow> nat list \<Rightarrow> lsquic_rechist \<Rightarrow> lsquic_rechist" where
  "link_elem e idx xs r =
     (let r = upd_elem idx (\<lambda>_. e) r
      in if xs = [] then r\<lparr>rh_head := idx\<rparr> else upd_elem (last xs) (\<lambda>e. e\<lparr>re_next := idx\<rparr>) r)"

definition link_new :: "packno \<Rightarrow> nat \<Rightarrow> nat list \<Rightarrow> nat list \<Rightarrow> lsquic_rechist \<Rightarrow> lsquic_rechist" where
  "link_new p idx xs ys r = link_elem (new_elem p (case ys of [] \<Rightarrow> UINT_MAX | y # _ \<Rightarrow> y)) idx xs r"

lemma elem_ok_next [simp]: "elem_ok (e\<lparr>re_next := n\<rparr>) = elem_ok e" "range_of (e\<lparr>re_next := n\<rparr>) = range_of e"
  by (simp_all add: elem_ok_def range_of_def)

lemma link_elem_spec:
  assumes R: "link_ready r idx xs ys" and N: "elem_ok e" and nx: "re_next e = (case ys of [] \<Rightarrow> UINT_MAX | y # _ \<Rightarrow> y)"
  shows "rh_chain (link_elem e idx xs r) (xs @ idx # ys)"
    and "rh_ranges (rh_elems (link_elem e idx xs r)) (xs @ idx # ys)
      = rh_ranges (rh_elems r) xs @ range_of e # rh_ranges (rh_elems r) ys"
proof -
  let ?es = "(rh_elems r)[idx := e]"
  have d: "idx \<notin> set xs" "idx \<notin> set ys" "distinct xs" "distinct ys" "set xs \<inter> set ys = {}" and l: "idx < length (rh_elems r)"
    using R by (auto simp: link_ready_def)
  have si: "insert idx (set (xs @ ys)) = set (xs @ idx # ys)" by auto
  have al: "alloc_inv r (set (xs @ idx # ys))" using R unfolding link_ready_def si by simp
  have sgy: "seg (rh_elems r) (re_next e) ys UINT_MAX"
    using R nx by (cases ys) (auto simp: link_ready_def seg_append)
  have goal: "rh_chain (link_elem e idx xs r) (xs @ idx # ys) \<and>
    rh_ranges (rh_elems (link_elem e idx xs r)) (xs @ idx # ys)
      = rh_ranges (rh_elems r) xs @ range_of e # rh_ranges (rh_elems r) ys"
  proof (cases xs rule: rev_cases)
    case Nil
    have "rh_chain (link_elem e idx xs r) ([] @ idx # ys)"
      using R d l sgy al N Nil
      by (intro chain_link) (auto simp: link_elem_def Let_def link_ready_def seg_update nth_list_update)
    then show ?thesis using d l N Nil by (simp add: link_elem_def Let_def)
  next
    case (snoc ws w)
    have w: "w \<noteq> idx" "w \<notin> set ws" "w \<notin> set ys" using d snoc by auto
    have wl: "w < length (rh_elems r)" using R snoc by (auto simp: link_ready_def alloc_inv_def)
    have es: "rh_elems (link_elem e idx xs r) = ?es[w := (rh_elems r ! w)\<lparr>re_next := idx\<rparr>]"
      using w(1) by (simp add: link_elem_def Let_def snoc)
    have sgx: "\<exists>k. seg (rh_elems r) (rh_head r) (ws @ [w]) k"
      using R snoc by (auto simp: link_ready_def seg_append)
    then obtain k where "seg ?es (rh_head r) (ws @ [w]) k" using d snoc by (auto simp: seg_update)
    then have sx: "seg (?es[w := (rh_elems r ! w)\<lparr>re_next := idx\<rparr>]) (rh_head r) (ws @ [w]) idx"
      using w(2) by (rule seg_relink) simp
    have "rh_chain (link_elem e idx xs r) (xs @ idx # ys)"
    proof (rule chain_link)
      show "seg (rh_elems (link_elem e idx xs r)) (rh_head (link_elem e idx xs r)) xs idx"
        unfolding es using sx snoc by (simp add: link_elem_def Let_def)
      show "\<forall>j \<in> set (xs @ ys). elem_ok (rh_elems (link_elem e idx xs r) ! j)"
      proof
        fix j assume j: "j \<in> set (xs @ ys)"
        then have "elem_ok (rh_elems r ! j)" "j \<noteq> idx" using R d by (auto simp: link_ready_def)
        then show "elem_ok (rh_elems (link_elem e idx xs r) ! j)"
          unfolding es using wl by (cases "j = w") simp_all
      qed
    qed (use d l sgy al N w wl snoc in \<open>auto simp: es seg_update link_elem_def Let_def\<close>)
    moreover have "rh_ranges (rh_elems (link_elem e idx xs r)) (xs @ idx # ys)
      = rh_ranges (rh_elems r) xs @ range_of e # rh_ranges (rh_elems r) ys"
      unfolding es using d l w wl N snoc by simp
    ultimately show ?thesis by blast
  qed
  then show "rh_chain (link_elem e idx xs r) (xs @ idx # ys)"
    and "rh_ranges (rh_elems (link_elem e idx xs r)) (xs @ idx # ys)
      = rh_ranges (rh_elems r) xs @ range_of e # rh_ranges (rh_elems r) ys" by simp_all
qed

lemma link_new_spec:
  assumes R: "link_ready r idx xs ys" and p: "unat p < 4611686018427387904"
  shows "rh_chain (link_new p idx xs ys r) (xs @ idx # ys)"
    and "rh_ranges (rh_elems (link_new p idx xs ys r)) (xs @ idx # ys)
      = rh_ranges (rh_elems r) xs @ (unat p, unat p) # rh_ranges (rh_elems r) ys"
  using link_elem_spec [OF R new_elem_ok(1) [OF p], of "case ys of [] \<Rightarrow> UINT_MAX | y # _ \<Rightarrow> y"] unfolding link_new_def by (simp_all add: new_elem_ok(2))

lemma alloc_link_ready:
  assumes ch: "rh_chain r (xs @ ys)" and room: "\<not> at_max_ranges r"
    and big: "rh_max_ranges r = 0 \<longrightarrow> 2 * rh_n_alloced r \<le> UINT_MAX" and re: "\<forall>n. realloc n \<noteq> None"
  shows "\<exists>r' idx. rechist_alloc_elem realloc r = Some (r', idx) \<and> link_ready r' idx xs ys
     \<and> rh_ranges (rh_elems r') (xs @ ys) = rh_ranges (rh_elems r) (xs @ ys) \<and> same_but_slots r r'"
proof -
  have al: "alloc_inv r (set (xs @ ys))" using ch by (simp add: rh_chain_def)
  from alloc_elem_spec [OF al room big re] obtain r' idx where
    a: "rechist_alloc_elem realloc r = Some (r', idx)" "idx \<notin> set (xs @ ys)" "idx < length (rh_elems r')"
      "alloc_inv r' (insert idx (set (xs @ ys)))" "\<forall>i \<in> set (xs @ ys). rh_elems r' ! i = rh_elems r ! i"
      "same_but_slots r r'" by blast
  have "\<forall>j \<in> set (xs @ ys). j < length (rh_elems r') \<and> re_next (rh_elems r' ! j) = re_next (rh_elems r ! j)"
    using a(4,5) by (auto simp: alloc_inv_def)
  then have "seg (rh_elems r') (rh_head r') (xs @ ys) UINT_MAX" if "xs @ ys \<noteq> []"
    using seg_cong [of "xs @ ys" "rh_elems r'" "rh_elems r"] ch that a(6) unfolding rh_chain_def same_but_slots_def by simp
  then have "link_ready r' idx xs ys"
    using a(2-5) ch unfolding link_ready_def rh_chain_def by simp
  with a(1,6) rh_ranges_cong [OF a(5)] show ?thesis by blast
qed

section \<open>At the maximum number of ranges\<close>

lemma seg_nth:
  "seg es i js k \<Longrightarrow> m < length js \<Longrightarrow> re_next (es ! (js ! m)) = (if Suc m < length js then js ! Suc m else k)"
proof (induction js arbitrary: i m)
  case (Cons j js)
  then show ?case by (cases m; cases js) auto
qed simp

lemma seg_unique_end:
  assumes sg: "seg es i (zs @ [y, x]) UINT_MAX" and d: "distinct (zs @ [y, x])" and j: "j \<in> set (zs @ [y, x])"
    and len: "length es \<le> UINT_MAX"
  shows "re_next (es ! j) = UINT_MAX \<longleftrightarrow> j = x" "re_next (es ! j) = x \<longleftrightarrow> j = y"
proof -
  let ?js = "zs @ [y, x]" let ?n = "length zs"
  obtain m where m: "m < length ?js" "j = ?js ! m" using j by (metis in_set_conv_nth)
  have xy: "?js ! (?n + 1) = x" "?js ! ?n = y" by (simp_all add: nth_append)
  have eqx: "?js ! a = x \<longleftrightarrow> a = ?n + 1" "?js ! a = y \<longleftrightarrow> a = ?n" if "a < length ?js" for a
    using nth_eq_iff_index_eq [OF d that, of "?n + 1"] nth_eq_iff_index_eq [OF d that, of ?n] xy by simp_all
  have bound: "?js ! a < UINT_MAX" if "a < length ?js" for a
    using seg_bound [OF sg nth_mem [OF that]] len by simp
  note nx = seg_nth [OF sg m(1), folded m(2)]
  show "re_next (es ! j) = UINT_MAX \<longleftrightarrow> j = x"
    using nx bound [of "Suc m"] eqx(1) [OF m(1)] m by (auto simp: m(2))
  show "re_next (es ! j) = x \<longleftrightarrow> j = y"
  proof (cases "Suc m < length ?js")
    case True
    then show ?thesis using nx eqx(1) [OF True] eqx(2) [OF m(1)] m(2) by simp
  next
    case False
    then show ?thesis using nx bound [of "?n + 1"] xy eqx(2) [OF m(1)] m by auto
  qed
qed

lemma reuse_last_spec:
  assumes ch: "rh_chain r (zs @ [y, x])" and full: "set (zs @ [y, x]) = {..<length (rh_elems r)}"
  shows "rechist_reuse_last_elem r = (upd_elem y (\<lambda>e. e\<lparr>re_next := UINT_MAX\<rparr>) r, x)"
proof -
  have sg: "seg (rh_elems r) (rh_head r) (zs @ [y, x]) UINT_MAX" and d: "distinct (zs @ [y, x])"
    and len: "length (rh_elems r) \<le> UINT_MAX" using ch by (auto simp: rh_chain_def alloc_inv_def)
  have mem: "i \<in> set (zs @ [y, x]) \<longleftrightarrow> i < length (rh_elems r)" for i
    unfolding full by simp
  have "x \<in> set (zs @ [y, x])" "y \<in> set (zs @ [y, x])" by simp_all
  then have xy: "x < length (rh_elems r)" "y < length (rh_elems r)" unfolding mem .
  have U: "re_next (rh_elems r ! i) = UINT_MAX \<longleftrightarrow> i = x" "re_next (rh_elems r ! i) = x \<longleftrightarrow> i = y"
    if "i < length (rh_elems r)" for i
    using seg_unique_end [OF sg d _ len, of i] that unfolding mem by simp_all
  have 1: "length (takeWhile (\<lambda>el. re_next el \<noteq> UINT_MAX) (rh_elems r)) = x"
    using xy(1) U(1) by (intro length_takeWhile_eqI) simp_all
  have 2: "length (takeWhile (\<lambda>el. re_next el \<noteq> x) (rh_elems r)) = y"
    using xy(2) U(2) by (intro length_takeWhile_eqI) simp_all
  show ?thesis by (simp add: rechist_reuse_last_elem_def Let_def 1 2 upd_elem_def)
qed

lemma reuse_link_ready:
  assumes ch: "rh_chain r (xs @ ys @ [x])" and ys: "xs @ ys \<noteq> []" and max: "at_max_ranges r"
  shows "\<exists>r'. rechist_alloc_elem realloc r = Some (r', x) \<and> link_ready r' x xs ys
     \<and> rh_ranges (rh_elems r') (xs @ ys) = rh_ranges (rh_elems r) (xs @ ys) \<and> same_but_slots r r'"
proof -
  obtain zs y where zy: "xs @ ys = zs @ [y]" using ys by (metis rev_exhaust)
  let ?js = "zs @ [y, x]"
  have ch': "rh_chain r ?js" using ch zy by (metis append.assoc append_Cons append_Nil)
  have used: "rh_n_used r = card (set ?js)" "rh_n_alloced r = length (rh_elems r)" "set ?js \<subseteq> {..<length (rh_elems r)}"
      "rh_max_ranges r \<noteq> 0 \<longrightarrow> length (rh_elems r) \<le> rh_max_ranges r"
    using ch' by (simp_all add: rh_chain_def alloc_inv_def)
  have "card (set ?js) \<le> length (rh_elems r)" using card_mono [OF _ used(3)] by simp
  then have eq: "rh_n_used r = rh_n_alloced r" "card (set ?js) = card {..<length (rh_elems r)}"
    using used max by (simp_all add: at_max_ranges_def)
  then have full: "set ?js = {..<length (rh_elems r)}" using used(3) by (intro card_subset_eq) simp_all
  let ?r = "upd_elem y (\<lambda>e. e\<lparr>re_next := UINT_MAX\<rparr>) r"
  have a: "rechist_alloc_elem realloc r = Some (?r, x)"
    using eq(1) max reuse_last_spec [OF ch' full] by (simp add: rechist_alloc_elem_def at_max_ranges_def)
  have d: "distinct ?js" and sg: "seg (rh_elems r) (rh_head r) ?js UINT_MAX" and al: "alloc_inv r (set ?js)"
    and ok: "\<forall>j \<in> set ?js. elem_ok (rh_elems r ! j)" using ch' by (simp_all add: rh_chain_def)
  have "y \<in> set ?js" "x \<in> set ?js" by simp_all
  then have yl: "y < length (rh_elems r)" "x < length (rh_elems r)" unfolding full by simp_all
  have "seg (rh_elems r) (rh_head r) (zs @ [y]) x" using sg by (auto simp: seg_append)
  then have "seg ((rh_elems r)[y := (rh_elems r ! y)\<lparr>re_next := UINT_MAX\<rparr>]) (rh_head r) (zs @ [y]) UINT_MAX"
    using d by (intro seg_relink) auto
  moreover have "insert x (set (zs @ [y])) = set ?js" by auto
  moreover have "\<forall>j \<in> set (zs @ [y]). elem_ok (rh_elems ?r ! j)"
    using ok yl by (auto simp: nth_list_update)
  ultimately have "link_ready ?r x xs ys"
    using al d yl unfolding link_ready_def zy by auto
  moreover have "rh_ranges (rh_elems ?r) (xs @ ys) = rh_ranges (rh_elems r) (xs @ ys)"
    unfolding zy using d yl by simp
  ultimately show ?thesis using a by (auto simp: same_but_slots_def upd_elem_def)
qed


end
