(* ===== verification/Rechist_Refine.thy ===== *)
theory Rechist_Refine
  imports Rechist_List
begin

text \<open>
  The operations of the receive history refine their specification on lists of ranges:
  recording a packet, raising the cutoff, iterating and copying.
\<close>

section \<open>Recording a packet refines the specification\<close>

definition same_meta :: "lsquic_rechist \<Rightarrow> lsquic_rechist \<Rightarrow> bool" where
  "same_meta r r' \<longleftrightarrow> rh_cutoff r' = rh_cutoff r \<and> rh_cutoff_set r' = rh_cutoff_set r
     \<and> rh_largest_acked_received r' = rh_largest_acked_received r \<and> rh_max_ranges r' = rh_max_ranges r"

lemma same_meta_simps [simp]:
  "same_meta r r" "same_meta r (upd_elem j f r') = same_meta r r'" "same_meta r (rechist_free_elem r' j) = same_meta r r'"
  "same_meta r (r'\<lparr>rh_head := h\<rparr>) = same_meta r r'" "same_but_slots r r' \<Longrightarrow> same_meta r r'"
  by (simp_all add: same_meta_def rechist_free_elem_def same_but_slots_def)

lemma same_meta_link_new: "same_but_slots r r' \<Longrightarrow> same_meta r (link_new p idx xs ys r')"
  by (simp add: link_new_def link_elem_def Let_def)

lemma same_meta_extend_low: "same_meta r (extend_low el r)"
  by (simp add: extend_low_def Let_def)

lemma used_length: "rh_chain r js \<Longrightarrow> rh_n_used r = length js"
  by (simp add: rh_chain_def alloc_inv_def distinct_card)

lemma used_max: "rh_chain r js \<Longrightarrow> rh_max_ranges r \<noteq> 0 \<Longrightarrow> length js \<le> rh_max_ranges r"
proof -
  assume ch: "rh_chain r js" and m: "rh_max_ranges r \<noteq> 0"
  have "card (set js) \<le> card {..<length (rh_elems r)}"
    using ch by (intro card_mono) (auto simp: rh_chain_def alloc_inv_def)
  then show ?thesis using ch m by (simp add: rh_chain_def alloc_inv_def distinct_card)
qed

lemma length_rh_ranges [simp]: "length (rh_ranges es js) = length js"
  by (simp add: rh_ranges_def)

lemma at_max_length:
  "rh_chain r js \<Longrightarrow> at_max_ranges r \<longleftrightarrow> rh_max_ranges r \<noteq> 0 \<and> length js = rh_max_ranges r"
  using used_max [of r js] by (auto simp: at_max_ranges_def used_length)

text \<open>The three outcomes of \<^const>\<open>pr_record\<close>.\<close>

lemma pr_record_room:
  "rh_chain r js \<Longrightarrow> \<not> at_max_ranges r \<Longrightarrow> length (pr_ins p rs) \<le> Suc (length js) \<Longrightarrow>
     pr_record (rh_max_ranges r) p rs = pr_ins p rs"
  using used_max [of r js] by (auto simp: pr_record_def Let_def at_max_length)

lemma pr_record_same:
  "rh_chain r js \<Longrightarrow> length (pr_ins p rs) \<le> length js \<Longrightarrow> pr_record (rh_max_ranges r) p rs = pr_ins p rs"
  using used_max [of r js] by (auto simp: pr_record_def Let_def)

lemma pr_record_full:
  "rh_chain r js \<Longrightarrow> at_max_ranges r \<Longrightarrow> length (pr_ins p rs) = Suc (length js) \<Longrightarrow>
     pr_record (rh_max_ranges r) p rs
       = (if last (pr_ins p rs) = (p, p) then butlast rs @ [(p, p)] else butlast (pr_ins p rs))"
  by (simp add: pr_record_def Let_def at_max_length)

definition recorded :: "lsquic_rechist \<Rightarrow> nat \<Rightarrow> pn_range list \<Rightarrow> lsquic_rechist \<Rightarrow> bool" where
  "recorded r p rs r' \<longleftrightarrow> same_meta r r' \<and>
     (\<exists>js. rh_chain r' js \<and> rh_ranges (rh_elems r') js = pr_record (rh_max_ranges r) p rs)"

lemma extend_high_recorded:
  assumes f: "found_at r p xs el ys" and p: "p = snd (range_of (rh_elems r ! el)) + 1"
  shows "recorded r p (rh_ranges (rh_elems r) (xs @ el # ys)) (upd_elem el (\<lambda>e. e\<lparr>re_count := re_count e + 1\<rparr>) r)"
proof -
  note E = extend_high_ok [OF f p]
  have "length (pr_ins p (rh_ranges (rh_elems r) (xs @ el # ys))) \<le> length (xs @ el # ys)"
    unfolding E(2) [symmetric] by simp
  from pr_record_same [OF found_atD(1) [OF f] this] E show ?thesis
    unfolding recorded_def by (intro conjI exI [of _ "xs @ el # ys"]) simp_all
qed

lemma extend_low_recorded:
  assumes f: "found_at r p xs el ys" and p: "p + 1 = fst (range_of (rh_elems r ! el))"
  shows "recorded r p (rh_ranges (rh_elems r) (xs @ el # ys)) (extend_low el r)"
proof -
  from extend_low_ok [OF f p] obtain zs where
    E: "rh_chain (extend_low el r) (xs @ el # zs)"
      "rh_ranges (rh_elems (extend_low el r)) (xs @ el # zs) = pr_ins p (rh_ranges (rh_elems r) (xs @ el # ys))" by blast
  note D = found_atD [OF f]
  have "length (pr_ins p (range_of (rh_elems r ! el) # rh_ranges (rh_elems r) ys)) \<le> Suc (length ys)"
    using p D(5) by (cases "range_of (rh_elems r ! el)") (auto split: list.splits simp: rh_ranges_def)
  then have "length (pr_ins p (rh_ranges (rh_elems r) (xs @ el # ys))) \<le> length (xs @ el # ys)"
    unfolding D(6) by simp
  from pr_record_same [OF D(1) this] E show ?thesis
    unfolding recorded_def by (intro conjI exI [of _ "xs @ el # zs"]) (simp_all add: same_meta_extend_low)
qed

lemma replace_last_ok:
  assumes ch: "rh_chain r (xs @ [el])" and p: "unat p < 4611686018427387904"
  shows "rh_chain (replace_last_el p el r) (xs @ [el])"
    "rh_ranges (rh_elems (replace_last_el p el r)) (xs @ [el]) = rh_ranges (rh_elems r) xs @ [(unat p, unat p)]"
proof -
  let ?f = "\<lambda>e. e\<lparr>re_low := p, re_count := 1\<rparr>"
  have f: "elem_ok (?f e)" "range_of (?f e) = (unat p, unat p)" for e
    using p by (auto simp: elem_ok_def range_of_def)
  show "rh_chain (replace_last_el p el r) (xs @ [el])"
    unfolding replace_last_el_def by (rule chain_upd(1) [OF ch]) (simp_all add: f)
  show "rh_ranges (rh_elems (replace_last_el p el r)) (xs @ [el]) = rh_ranges (rh_elems r) xs @ [(unat p, unat p)]"
    unfolding replace_last_el_def using chain_upd(2) [OF ch, of ?f] f by simp
qed

lemma insert_tail_recorded:
  assumes f: "found_at r (unat p) xs el []" and b: "unat p + 1 < fst (range_of (rh_elems r ! el))"
    and big: "rh_max_ranges r = 0 \<longrightarrow> 2 * rh_n_alloced r \<le> UINT_MAX" and re: "\<forall>n. realloc n \<noteq> None"
  shows "\<exists>r'. insert_tail realloc p el r = (r', REC_ST_OK) \<and> recorded r (unat p) (rh_ranges (rh_elems r) (xs @ [el])) r'"
proof -
  let ?rs = "rh_ranges (rh_elems r) (xs @ [el])"
  note D = found_atD [OF f]
  have p: "unat p < 4611686018427387904" using f by (simp add: found_at_def)
  have ins: "pr_ins (unat p) ?rs = ?rs @ [(unat p, unat p)]"
    unfolding D(6) using b D(5) by (cases "range_of (rh_elems r ! el)") simp
  show ?thesis
  proof (cases "at_max_ranges r")
    case True
    then have "pr_record (rh_max_ranges r) (unat p) ?rs = rh_ranges (rh_elems r) xs @ [(unat p, unat p)]"
      using pr_record_full [OF D(1) True, of "unat p" ?rs] ins by simp
    then show ?thesis
      using replace_last_ok [OF D(1) p] True
      by (auto simp: insert_tail_def recorded_def replace_last_el_def)
  next
    case False
    have "rh_chain r ((xs @ [el]) @ [])" using D(1) by simp
    from alloc_link_ready [OF this False big re] obtain r1 idx where
      a: "rechist_alloc_elem realloc r = Some (r1, idx)" "link_ready r1 idx (xs @ [el]) []"
        "rh_ranges (rh_elems r1) (xs @ [el]) = ?rs" "same_but_slots r r1" by auto
    have "insert_tail realloc p el r = (link_new p idx (xs @ [el]) [] r1, REC_ST_OK)"
      using False a(1) by (simp add: insert_tail_def link_new_def link_elem_def Let_def)
    moreover have "pr_record (rh_max_ranges r) (unat p) ?rs = ?rs @ [(unat p, unat p)]"
      using pr_record_room [OF D(1) False, of "unat p" ?rs] ins by simp
    ultimately show ?thesis
      using link_new_spec [OF a(2) p] same_meta_link_new [OF a(4)] a(3) by (auto simp: recorded_def)
  qed
qed


lemma head_is_first:
  assumes "rh_chain r (xs @ el # ys)"
  shows "el = rh_head r \<longleftrightarrow> xs = []"
  using assms by (cases xs) (auto simp: rh_chain_def)

lemma insert_before_link:
  assumes ch: "rh_chain r (xs @ el # ys)" and sl: "same_but_slots r r1"
    and prev: "prev = (if xs = [] then None else Some (last xs))"
    and a: "rechist_alloc_elem realloc r = Some (r1, idx)" "\<not> (re_next (rh_elems r ! el) = UINT_MAX \<and> at_max_ranges r)"
  shows "insert_before realloc p el prev r = (link_new p idx xs (el # zs) r1, REC_ST_OK)"
proof -
  have "el = rh_head r1 \<longleftrightarrow> xs = []" using head_is_first [OF ch] sl by (simp add: same_but_slots_def)
  then show ?thesis
    using a prev unfolding insert_before_def link_new_def link_elem_def Let_def by auto
qed

lemma insert_before_recorded:
  assumes f: "found_at r (unat p) xs el ys" and b: "snd (range_of (rh_elems r ! el)) + 1 < unat p"
    and prev: "prev = (if xs = [] then None else Some (last xs))"
    and big: "rh_max_ranges r = 0 \<longrightarrow> 2 * rh_n_alloced r \<le> UINT_MAX" and re: "\<forall>n. realloc n \<noteq> None"
  shows "\<exists>r'. insert_before realloc p el prev r = (r', REC_ST_OK)
     \<and> recorded r (unat p) (rh_ranges (rh_elems r) (xs @ el # ys)) r'"
proof -
  let ?P = "(unat p, unat p)" let ?rs = "rh_ranges (rh_elems r) (xs @ el # ys)"
  note D = found_atD [OF f]
  have p: "unat p < 4611686018427387904" using f by (simp add: found_at_def)
  have ins: "pr_ins (unat p) ?rs = rh_ranges (rh_elems r) xs @ ?P # rh_ranges (rh_elems r) (el # ys)"
    unfolding D(6) using b D(5) by (cases "range_of (rh_elems r ! el)") simp
  have lensuc: "length (pr_ins (unat p) ?rs) = Suc (length (xs @ el # ys))" unfolding ins by simp
  have sg: "seg (rh_elems r) (re_next (rh_elems r ! el)) ys UINT_MAX" and len: "length (rh_elems r) \<le> UINT_MAX"
    using D(1) by (auto simp: rh_chain_def alloc_inv_def seg_append)
  have tl: "re_next (rh_elems r ! el) = UINT_MAX \<longleftrightarrow> ys = []" using sg len by (cases ys) auto
  have lastP: "last (pr_ins (unat p) ?rs) = range_of (rh_elems r ! last (el # ys))"
    unfolding ins by (cases ys) (simp_all add: rh_ranges_def last_map)
  have notP: "range_of (rh_elems r ! j) \<noteq> ?P" if "j \<in> set (el # ys)" for j
  proof -
    have ok: "pr_ok (range_of (rh_elems r ! el) # rh_ranges (rh_elems r) ys)"
      using f unfolding found_at_def by (simp add: pr_ok_append)
    have "snd (range_of (rh_elems r ! j)) \<le> snd (range_of (rh_elems r ! el))"
    proof (cases "j = el")
      case False
      then have "range_of (rh_elems r ! j) \<in> set (rh_ranges (rh_elems r) ys)" using that by (auto simp: rh_ranges_def)
      then show ?thesis using ok by (cases "range_of (rh_elems r ! el)") fastforce
    qed simp
    then show ?thesis using b by auto
  qed
  show ?thesis
  proof (cases "at_max_ranges r")
    case False
    from alloc_link_ready [OF D(1) False big re] obtain r1 idx where
      a: "rechist_alloc_elem realloc r = Some (r1, idx)" "link_ready r1 idx xs (el # ys)"
        "rh_ranges (rh_elems r1) (xs @ el # ys) = ?rs" "same_but_slots r r1" by auto
    have "insert_before realloc p el prev r = (link_new p idx xs (el # ys) r1, REC_ST_OK)"
      using insert_before_link [OF D(1) a(4) prev a(1)] False by simp
    moreover have "pr_record (rh_max_ranges r) (unat p) ?rs = pr_ins (unat p) ?rs"
      using pr_record_room [OF D(1) False, of "unat p" ?rs] lensuc by simp
    moreover have "rh_ranges (rh_elems r1) xs = rh_ranges (rh_elems r) xs"
        "rh_ranges (rh_elems r1) (el # ys) = rh_ranges (rh_elems r) (el # ys)"
      using a(3) unfolding rh_ranges_append by simp_all
    ultimately show ?thesis
      using link_new_spec [OF a(2) p] same_meta_link_new [OF a(4)] ins unfolding recorded_def by auto
  next
    case True
    have "last (el # ys) \<in> set (el # ys)" by (rule last_in_set) simp
    then have rec: "pr_record (rh_max_ranges r) (unat p) ?rs
        = rh_ranges (rh_elems r) xs @ butlast (?P # rh_ranges (rh_elems r) (el # ys))"
      using pr_record_full [OF D(1) True lensuc] lastP notP unfolding ins by (simp add: butlast_append)
    show ?thesis
    proof (cases ys rule: rev_cases)
      case Nil
      then have "insert_before realloc p el prev r = (replace_last_el p el r, REC_ST_OK)"
        using True tl by (simp add: insert_before_def)
      then show ?thesis
        using replace_last_ok [of r xs el p] D(1) p rec Nil unfolding recorded_def
        by (auto simp: replace_last_el_def)
    next
      case (snoc ws x)
      have "rh_chain r (xs @ (el # ws) @ [x])" using D(1) snoc by simp
      from reuse_link_ready [OF this _ True] obtain r1 where
        a: "rechist_alloc_elem realloc r = Some (r1, x)" "link_ready r1 x xs (el # ws)"
          "rh_ranges (rh_elems r1) (xs @ el # ws) = rh_ranges (rh_elems r) (xs @ el # ws)" "same_but_slots r r1" by auto
      have "insert_before realloc p el prev r = (link_new p x xs (el # ws) r1, REC_ST_OK)"
        using insert_before_link [OF D(1) a(4) prev a(1)] tl snoc by simp
      moreover have "rh_ranges (rh_elems r1) xs = rh_ranges (rh_elems r) xs"
          "rh_ranges (rh_elems r1) (el # ws) = rh_ranges (rh_elems r) (el # ws)"
        using a(3) unfolding rh_ranges_append by simp_all
      moreover have "butlast (?P # rh_ranges (rh_elems r) (el # ys)) = ?P # rh_ranges (rh_elems r) (el # ws)"
        unfolding snoc by (simp add: butlast_append)
      ultimately show ?thesis
        using link_new_spec [OF a(2) p] same_meta_link_new [OF a(4)] rec unfolding recorded_def by auto
    qed
  qed
qed

text \<open>The specification of \<^const>\<open>lsquic_rechist_received\<close>.\<close>

definition received_spec :: "nat \<Rightarrow> nat \<Rightarrow> nat \<Rightarrow> pn_range list \<Rightarrow> pn_range list \<times> received_st" where
  "received_spec mx cutoff p rs =
     (if p < cutoff then (rs, if rs = [] then REC_ST_ERR else REC_ST_DUP)
      else if pr_mem p rs then (rs, REC_ST_DUP)
      else (pr_record mx p rs, REC_ST_OK))"

lemma butlast_pr_ok: "pr_ok rs \<Longrightarrow> pr_ok (butlast rs)"
  by (cases rs rule: rev_cases) (simp_all add: pr_ok_append)

lemma pr_set_butlast: "pr_set (butlast rs) \<subseteq> pr_set rs"
  by (cases rs rule: rev_cases) simp_all

lemma pr_record_props:
  assumes ok: "pr_ok rs" and mx: "mx \<noteq> 0 \<longrightarrow> length rs \<le> mx"
  shows "pr_ok (pr_record mx p rs)" "pr_set (pr_record mx p rs) \<subseteq> insert p (pr_set rs)"
proof -
  have ok': "pr_ok (pr_ins p rs)" and st: "pr_set (pr_ins p rs) = insert p (pr_set rs)"
    using ok by (simp_all add: pr_ins_ok pr_ins_set)
  have tail: "pr_ok (butlast rs @ [(p, p)]) \<and> pr_set (butlast rs @ [(p, p)]) \<subseteq> insert p (pr_set rs)"
    if l: "last (pr_ins p rs) = (p, p)"
  proof -
    have ne: "pr_ins p rs \<noteq> []" using st by auto
    have below: "p + 1 < l" if mem: "(l, h) \<in> set (butlast rs)" for l h
    proof (rule ccontr)
      assume c: "\<not> p + 1 < l"
      obtain zs l0 h0 where rs: "rs = zs @ [(l0, h0)]" and z: "(l, h) \<in> set zs"
        using mem by (cases rs rule: rev_cases) auto
      have l0: "l0 \<le> h0" "h0 + 1 < l" using ok z unfolding rs by (auto simp: pr_ok_append)
      have "l0 \<in> pr_set (pr_ins p rs)" unfolding st by (auto simp: rs l0)
      moreover obtain qs where q: "pr_ins p rs = qs @ [(p, p)]" using l ne by (metis append_butlast_last_id)
      ultimately have "p \<le> l0" using ok' unfolding q by (fastforce simp: pr_ok_append pr_set_def)
      then show False using l0 c by simp
    qed
    then show ?thesis using butlast_pr_ok [OF ok] pr_set_butlast [of rs] by (auto simp: pr_ok_append)
  qed
  show "pr_ok (pr_record mx p rs)" "pr_set (pr_record mx p rs) \<subseteq> insert p (pr_set rs)"
    using tail ok' st butlast_pr_ok [OF ok'] pr_set_butlast [of "pr_ins p rs"]
    by (auto simp: pr_record_def Let_def)
qed


lemma rh_rep_D:
  assumes "rh_rep r rs"
  obtains js where "rh_chain r js" "rs = rh_ranges (rh_elems r) js" "pr_ok rs" "\<forall>x \<in> pr_set rs. unat (rh_cutoff r) \<le> x"
  using assms by (auto simp: rh_rep_def)

lemma rh_chain_time [simp]: "rh_chain (r\<lparr>rh_largest_acked_received := t\<rparr>) js = rh_chain r js"
  by (simp add: rh_chain_def)

lemma rh_rep_length: "rh_rep r rs \<Longrightarrow> rh_n_used r = length rs \<and> (rh_max_ranges r \<noteq> 0 \<longrightarrow> length rs \<le> rh_max_ranges r)"
  using used_length used_max by (auto simp: rh_rep_def)

lemma insert_first_ok:
  assumes ch: "rh_chain r []" and p: "unat p < 4611686018427387904" "\<not> p < rh_cutoff r"
    and big: "rh_max_ranges r = 0 \<longrightarrow> 2 * rh_n_alloced r \<le> UINT_MAX" and re: "\<forall>n. realloc n \<noteq> None"
  shows "\<exists>r' js. insert_first realloc p now r = (r', REC_ST_OK) \<and> rh_chain r' js
     \<and> rh_ranges (rh_elems r') js = [(unat p, unat p)] \<and> same_meta (r\<lparr>rh_largest_acked_received := now\<rparr>) r'"
proof -
  have room: "\<not> at_max_ranges r" using at_max_length [OF ch] by auto
  have "rh_chain r ([] @ [])" using ch by simp
  from alloc_link_ready [OF this room big re] obtain r1 idx where
    a: "rechist_alloc_elem realloc r = Some (r1, idx)" "link_ready r1 idx [] []" "same_but_slots r r1" by auto
  have e: "insert_first realloc p now r = ((link_new p idx [] [] r1)\<lparr>rh_largest_acked_received := now\<rparr>, REC_ST_OK)"
    using a(1) p(2) by (simp add: insert_first_def link_new_def link_elem_def Let_def)
  have "same_meta (r\<lparr>rh_largest_acked_received := now\<rparr>) ((link_new p idx [] [] r1)\<lparr>rh_largest_acked_received := now\<rparr>)"
    using same_meta_link_new [OF a(3)] by (simp add: same_meta_def)
  then show ?thesis
    using e link_new_spec [OF a(2) p(1)] by (intro exI conjI) (assumption | simp)+
qed

lemma place_recorded:
  assumes ch: "rh_chain r js" "js \<noteq> []" and ok: "pr_ok (rh_ranges (rh_elems r) js)"
    and p: "unat p < 4611686018427387904" and card: "card (pr_set (rh_ranges (rh_elems r) js)) < 4294967295"
    and big: "rh_max_ranges r = 0 \<longrightarrow> 2 * rh_n_alloced r \<le> UINT_MAX" and re: "\<forall>n. realloc n \<noteq> None"
  defines "rs \<equiv> rh_ranges (rh_elems r) js"
  defines "res \<equiv> (case rh_search (rh_n_alloced r) (rh_elems r) p (rh_head r) None of
                INSERT_BEFORE el prev \<Rightarrow> insert_before realloc p el prev r
              | EXTEND_LOW el \<Rightarrow> (extend_low el r, REC_ST_OK)
              | EXTEND_HIGH el \<Rightarrow> (upd_elem el (\<lambda>e. e\<lparr>re_count := re_count e + 1\<rparr>) r, REC_ST_OK)
              | FOUND \<Rightarrow> (r, REC_ST_DUP)
              | INSERT_TAIL el \<Rightarrow> insert_tail realloc p el r
              | OUT_OF_FUEL \<Rightarrow> (r, REC_ST_ERR))"
  shows "if pr_mem (unat p) rs then res = (r, REC_ST_DUP)
    else \<exists>r'. res = (r', REC_ST_OK) \<and> recorded r (unat p) rs r'"
proof -
  have len: "length js \<le> rh_n_alloced r" "length (rh_elems r) \<le> UINT_MAX"
    using ch(1) card_mono [of "{..<length (rh_elems r)}" "set js"]
    by (auto simp: rh_chain_def alloc_inv_def distinct_card)
  have sg: "seg (rh_elems r) (rh_head r) js UINT_MAX" and eok: "\<forall>j \<in> set js. elem_ok (rh_elems r ! j)"
    using ch by (auto simp: rh_chain_def)
  from search_spec [OF sg ch(2) len eok p, of None] obtain xs el ys where
    s: "js = xs @ el # ys" "\<forall>j \<in> set xs. unat p + 1 < fst (range_of (rh_elems r ! j))"
      "place_ok (rh_elems r) (unat p) None xs el ys (rh_search (rh_n_alloced r) (rh_elems r) p (rh_head r) None)"
    by blast
  have f: "found_at r (unat p) xs el ys" using ch ok p card s(1,2) by (simp add: found_at_def)
  have rs: "rs = rh_ranges (rh_elems r) xs @ range_of (rh_elems r ! el) # rh_ranges (rh_elems r) ys"
    by (simp add: rs_def s(1))
  have xs: "unat p \<notin> pr_set (rh_ranges (rh_elems r) xs)"
    using s(2) by (auto simp: pr_set_def rh_ranges_def split_def)
  have okr: "pr_ok (range_of (rh_elems r ! el) # rh_ranges (rh_elems r) ys)"
    using ok s(1) by (simp add: pr_ok_append)
  have ys: "unat p \<notin> pr_set (rh_ranges (rh_elems r) ys)" if "fst (range_of (rh_elems r ! el)) \<le> unat p + 1"
    using okr pr_set_below [of _ _ "rh_ranges (rh_elems r) ys" "unat p"] that
    by (cases "range_of (rh_elems r ! el)") force
  have mem: "pr_mem (unat p) rs \<longleftrightarrow> fst (range_of (rh_elems r ! el)) \<le> unat p \<and> unat p \<le> snd (range_of (rh_elems r ! el))
      \<or> unat p \<in> pr_set (rh_ranges (rh_elems r) ys)"
    unfolding pr_mem_set rs using xs by (cases "range_of (rh_elems r ! el)") auto
  note le = found_atD(5) [OF f]
  show ?thesis
  proof (cases "rh_search (rh_n_alloced r) (rh_elems r) p (rh_head r) None")
    case (INSERT_BEFORE e pv)
    then have q: "e = el" "snd (range_of (rh_elems r ! el)) + 1 < unat p" "pv = (if xs = [] then None else Some (last xs))"
      using s(3) by auto
    then have "\<not> pr_mem (unat p) rs" using ys mem le by auto
    with insert_before_recorded [OF f q(2,3) big re] show ?thesis
      unfolding res_def INSERT_BEFORE rs_def s(1) using q(1) by simp
  next
    case (EXTEND_LOW e)
    then have q: "e = el" "unat p + 1 = fst (range_of (rh_elems r ! el))" using s(3) by auto
    then have "\<not> pr_mem (unat p) rs" using ys mem by auto
    with extend_low_recorded [OF f q(2)] show ?thesis unfolding res_def EXTEND_LOW rs_def s(1) using q(1) by simp
  next
    case (EXTEND_HIGH e)
    then have q: "e = el" "unat p = snd (range_of (rh_elems r ! el)) + 1" using s(3) by auto
    then have "\<not> pr_mem (unat p) rs" using ys mem le by auto
    with extend_high_recorded [OF f q(2)] show ?thesis unfolding res_def EXTEND_HIGH rs_def s(1) using q(1) by simp
  next
    case FOUND
    then show ?thesis using s(3) mem unfolding res_def by simp
  next
    case (INSERT_TAIL e)
    then have q: "e = el" "ys = []" "unat p + 1 < fst (range_of (rh_elems r ! el))" using s(3) by auto
    then have "\<not> pr_mem (unat p) rs" using mem by simp
    with insert_tail_recorded [OF f [unfolded q(2)] q(3) big re] show ?thesis
      unfolding res_def INSERT_TAIL rs_def s(1) using q(1,2) by simp
  next
    case OUT_OF_FUEL
    then show ?thesis using s(3) by simp
  qed
qed

lemma recorded_time: "recorded (r\<lparr>rh_largest_acked_received := t\<rparr>) p rs r' \<Longrightarrow>
    \<exists>js. rh_chain r' js \<and> rh_ranges (rh_elems r') js = pr_record (rh_max_ranges r) p rs"
  by (simp add: recorded_def)

lemma head_high:
  assumes ch: "rh_chain r js" "js \<noteq> []" and ok: "pr_ok (rh_ranges (rh_elems r) js)"
  shows "unat (RE_HIGH (rh_elems r ! rh_head r)) = Max (pr_set (rh_ranges (rh_elems r) js))"
proof -
  obtain j ks where js: "js = j # ks" using ch(2) by (cases js) auto
  have h: "rh_head r = j" "elem_ok (rh_elems r ! j)" using ch(1) by (simp_all add: rh_chain_def js)
  obtain l u where lu: "range_of (rh_elems r ! j) = (l, u)" by (cases "range_of (rh_elems r ! j)")
  have le: "l \<le> u" using range_of_le [OF h(2)] lu by simp
  have "Max (pr_set (rh_ranges (rh_elems r) js)) = u"
  proof (rule Max_eqI)
    show "y \<le> u" if "y \<in> pr_set (rh_ranges (rh_elems r) js)" for y
      using that ok le pr_set_below [of l u "rh_ranges (rh_elems r) ks" y] by (auto simp: js lu)
    show "u \<in> pr_set (rh_ranges (rh_elems r) js)" using le by (simp add: js lu)
  qed simp
  then show ?thesis using unat_RE_HIGH(1) [OF h(2)] lu unfolding h(1) range_of_def by auto
qed

lemma received_refines:
  assumes rep: "rh_rep r rs" and p: "unat p < 4611686018427387904" and card: "card (pr_set rs) < 4294967295"
    and big: "rh_max_ranges r = 0 \<longrightarrow> 2 * rh_n_alloced r \<le> UINT_MAX" and re: "\<forall>n. realloc n \<noteq> None"
    and rec: "lsquic_rechist_received realloc r p now = (r', st)"
    and spec: "received_spec (rh_max_ranges r) (unat (rh_cutoff r)) (unat p) rs = (rs', st')"
  shows "rh_rep r' rs' \<and> st = st' \<and> rh_max_ranges r' = rh_max_ranges r \<and> rh_cutoff r' = rh_cutoff r
    \<and> rh_cutoff_set r' = rh_cutoff_set r
    \<and> rh_largest_acked_received r' = (if st = REC_ST_OK \<and> (\<forall>x \<in> pr_set rs. x < unat p) then now
        else rh_largest_acked_received r)"
proof -
  from rep obtain js where ch: "rh_chain r js" and rs: "rs = rh_ranges (rh_elems r) js" and ok: "pr_ok rs"
    and cut: "\<forall>x \<in> pr_set rs. unat (rh_cutoff r) \<le> x" by (rule rh_rep_D)
  have nu: "rh_n_used r = 0 \<longleftrightarrow> js = []" using used_length [OF ch] by simp
  have ne: "rs = [] \<longleftrightarrow> js = []" by (simp add: rs rh_ranges_def)
  have mx: "rh_max_ranges r \<noteq> 0 \<longrightarrow> length rs \<le> rh_max_ranges r" using rh_rep_length [OF rep] by simp
  note props = pr_record_props [OF ok mx, of "unat p"]
  have repI: "rh_rep r2 (pr_record (rh_max_ranges r) (unat p) rs)"
    if "rh_chain r2 ks" "rh_ranges (rh_elems r2) ks = pr_record (rh_max_ranges r) (unat p) rs"
      "rh_cutoff r2 = rh_cutoff r" "unat (rh_cutoff r) \<le> unat p" for r2 ks
    unfolding rh_rep_def using that props cut by (auto dest: subsetD)
  show ?thesis
  proof (cases "p < rh_cutoff r")
    case True
    then show ?thesis
      using rec spec rep ne nu
      by (auto simp: lsquic_rechist_received_def received_spec_def insert_first_def word_less_nat_alt split: if_splits)
  next
    case False
    then have c: "unat (rh_cutoff r) \<le> unat p" by (simp add: word_less_nat_alt)
    show ?thesis
    proof (cases "js = []")
      case True
      have rs0: "rs = []" using True ne by simp
      have pr: "pr_record (rh_max_ranges r) (unat p) [] = [(unat p, unat p)]"
        by (simp add: pr_record_def Let_def)
      from insert_first_ok [OF _ p False big re, of now] ch True obtain r2 ks where
        i: "insert_first realloc p now r = (r2, REC_ST_OK)" "rh_chain r2 ks"
          "rh_ranges (rh_elems r2) ks = [(unat p, unat p)]" "same_meta (r\<lparr>rh_largest_acked_received := now\<rparr>) r2" by blast
      then have "r' = r2" "st = REC_ST_OK" using rec True nu by (simp_all add: lsquic_rechist_received_def)
      moreover have "rs' = [(unat p, unat p)]" "st' = REC_ST_OK"
        using spec c rs0 pr by (simp_all add: received_spec_def pr_mem_def)
      ultimately show ?thesis
        using i repI [OF i(2)] c pr rs0 by (auto simp: same_meta_def)
    next
      case ne: False
      let ?new = "p > RE_HIGH (rh_elems r ! rh_head r)"
      define r1 where "r1 = (if ?new then r\<lparr>rh_largest_acked_received := now\<rparr> else r)"
      have new: "?new \<longleftrightarrow> (\<forall>x \<in> pr_set rs. x < unat p)"
      proof -
        have "pr_set rs \<noteq> {}" using ok ne unfolding rs by (cases js) (auto simp: pr_set_def pr_ok_def)
        then show ?thesis using head_high [OF ch ne] ok rs by (simp add: word_less_nat_alt)
      qed
      have same: "rh_elems r1 = rh_elems r" "rh_max_ranges r1 = rh_max_ranges r" "rh_n_alloced r1 = rh_n_alloced r"
          "rh_cutoff r1 = rh_cutoff r" "rh_cutoff_set r1 = rh_cutoff_set r" "rh_head r1 = rh_head r" "rh_chain r1 js"
        using ch by (simp_all add: r1_def)
      have body: "(r', st) = (case rh_search (rh_n_alloced r1) (rh_elems r1) p (rh_head r1) None of
                INSERT_BEFORE el prev \<Rightarrow> insert_before realloc p el prev r1
              | EXTEND_LOW el \<Rightarrow> (extend_low el r1, REC_ST_OK)
              | EXTEND_HIGH el \<Rightarrow> (upd_elem el (\<lambda>e. e\<lparr>re_count := re_count e + 1\<rparr>) r1, REC_ST_OK)
              | FOUND \<Rightarrow> (r1, REC_ST_DUP)
              | INSERT_TAIL el \<Rightarrow> insert_tail realloc p el r1
              | OUT_OF_FUEL \<Rightarrow> (r1, REC_ST_ERR))"
        using rec ne nu False unfolding lsquic_rechist_received_def Let_def r1_def [symmetric] by simp
      have P: "if pr_mem (unat p) rs then (r', st) = (r1, REC_ST_DUP)
          else \<exists>r2. (r', st) = (r2, REC_ST_OK) \<and> recorded r1 (unat p) rs r2"
        using place_recorded [OF same(7) ne _ p, of realloc] ok card big re
        unfolding body same(1-3,6) rs by simp
      show ?thesis
      proof (cases "pr_mem (unat p) rs")
        case True
        then have "\<not> ?new" using new by (auto simp: pr_mem_set)
        then show ?thesis
          using P True spec rep c by (simp add: received_spec_def r1_def)
      next
        case False
        then obtain ks where k: "st = REC_ST_OK" "same_meta r1 r'" "rh_chain r' ks"
            "rh_ranges (rh_elems r') ks = pr_record (rh_max_ranges r) (unat p) rs"
          using P same(2) by (auto simp: recorded_def)
        have "rs' = pr_record (rh_max_ranges r) (unat p) rs" "st' = REC_ST_OK"
          using spec False c by (simp_all add: received_spec_def)
        then show ?thesis
          using k repI [OF k(3,4)] c same new by (auto simp: same_meta_def r1_def)
      qed
    qed
  qed
qed


section \<open>Dropping the packets below a cutoff\<close>

lemma cut_elem:
  assumes "elem_ok e" "\<not> c > RE_HIGH e" "c > re_low e"
  defines "e' \<equiv> e\<lparr>re_count := ucast (RE_HIGH e - c + 1), re_low := c\<rparr>"
  shows "elem_ok e'" "range_of e' = (unat c, snd (range_of e))"
proof -
  have c: "unat (re_low e) < unat c" "unat c \<le> snd (range_of e)"
    using assms(2,3) unat_RE_HIGH(1) [OF assms(1)] by (simp_all add: word_less_nat_alt range_of_def)
  have le: "c \<le> RE_HIGH e" using assms(2) by simp
  have hi: "unat (RE_HIGH e) = snd (range_of e)" using unat_RE_HIGH(1) [OF assms(1)] by (simp add: range_of_def)
  have cnt: "unat (re_count e) < 4294967296" using unat_lt_exp [of 32 "re_count e"] by simp
  have d: "unat (RE_HIGH e - c) = snd (range_of e) - unat c" using le hi by (simp add: unat_sub)
  have b: "snd (range_of e) - unat c + 1 < 4294967296"
    using c cnt assms(1) by (auto simp: range_of_def elem_ok_def)
  then have d1: "unat (RE_HIGH e - c + 1) = snd (range_of e) - unat c + 1"
    by (simp add: unat_word_ariths(1) d)
  have "unat (ucast (RE_HIGH e - c + 1) :: u32) = take_bit 32 (unat (RE_HIGH e - c + 1))"
    by (simp add: unsigned_ucast_eq)
  also have "\<dots> = snd (range_of e) - unat c + 1"
    unfolding d1 using b by (simp add: take_bit_nat_eq_self)
  finally have n: "unat (ucast (RE_HIGH e - c + 1) :: u32) = snd (range_of e) - unat c + 1" .
  have "snd (range_of e) < 4611686018427387904" using assms(1) by (auto simp: range_of_def elem_ok_def)
  then show "elem_ok e'" using n c by (simp add: elem_ok_def e'_def)
  show "range_of e' = (unat c, snd (range_of e))" using n c by (simp add: range_of_def e'_def)
qed

lemma nth_update_notin: "x \<notin> set js \<Longrightarrow> \<forall>j \<in> set js. es[x := e] ! j = es ! j"
  by (metis nth_list_update_neq)

lemma stop_search_spec:
  assumes "seg es h (xs @ ys) UINT_MAX" "ys \<noteq> []" "length ys \<le> fuel" "distinct (xs @ ys)" and len: "length es \<le> UINT_MAX"
    and "\<forall>j \<in> set (xs @ ys). elem_ok (es ! j)"
  shows "\<exists>ks zs es'. xs @ ys = ks @ zs
    \<and> stop_search fuel es c (hd ys) (if xs = [] then None else Some (last xs)) = Some (es', if zs = [] then None else Some (hd zs))
    \<and> length es' = length es \<and> (\<forall>j \<in> set zs. es' ! j = es ! j) \<and> (ks \<noteq> [] \<longrightarrow> seg es' h ks UINT_MAX)
    \<and> (\<forall>j \<in> set ks. elem_ok (es' ! j)) \<and> rh_ranges es' ks = rh_ranges es xs @ pr_cut (unat c) (rh_ranges es ys)"
  using assms(1-4,6)
proof (induction ys arbitrary: xs fuel)
  case (Cons el ys)
  obtain f where fuel: "fuel = Suc f" "length ys \<le> f" using Cons.prems(3) by (cases fuel) auto
  have ok: "elem_ok (es ! el)" and d: "el \<notin> set xs" "el \<notin> set ys" "distinct xs" "set xs \<inter> set ys = {}"
    and el: "el < length es" and sy: "seg es (re_next (es ! el)) ys UINT_MAX" and sx: "seg es h xs el"
    using Cons.prems by (auto simp: seg_append)
  obtain l u where lu: "range_of (es ! el) = (l, u)" by (cases "range_of (es ! el)")
  have t: "c > RE_HIGH (es ! el) \<longleftrightarrow> u < unat c" "c > re_low (es ! el) \<longleftrightarrow> l < unat c"
    using unat_RE_HIGH(1) [OF ok] lu by (auto simp: word_less_nat_alt range_of_def)
  have nx: "re_next (es ! el) = UINT_MAX \<longleftrightarrow> ys = []" using sy len by (cases ys) auto
  have nhd: "ys \<noteq> [] \<Longrightarrow> re_next (es ! el) = hd ys" using sy by (cases ys) auto
  consider (gone) "u < unat c" | (part) "\<not> u < unat c" "l < unat c"
    | (last) "\<not> u < unat c" "\<not> l < unat c" "ys = []" | (on) "\<not> u < unat c" "\<not> l < unat c" "ys \<noteq> []" by blast
  then show ?case
  proof cases
    case gone
    show ?thesis
    proof (cases xs rule: rev_cases)
      case Nil
      then show ?thesis using gone t lu fuel
        by (intro exI [of _ "[]"] exI [of _ "el # ys"] exI [of _ es]) (simp add: Let_def)
    next
      case (snoc ws w)
      let ?es = "es[w := (es ! w)\<lparr>re_next := UINT_MAX\<rparr>]"
      have w: "w \<notin> set ws" "w \<notin> set (el # ys)" "w < length es" using d snoc sx by (auto simp: seg_append)
      have "seg ?es h (ws @ [w]) UINT_MAX" using sx snoc w by (intro seg_relink) auto
      moreover have "\<forall>j \<in> set (el # ys). ?es ! j = es ! j" using w(2) by (rule nth_update_notin)
      moreover have "\<forall>j \<in> set xs. elem_ok (?es ! j)" using Cons.prems(5) w by (auto simp: nth_list_update)
      moreover have "rh_ranges ?es xs = rh_ranges es xs" using w snoc by simp
      ultimately show ?thesis using gone t lu fuel snoc
        by (intro exI [of _ xs] exI [of _ "el # ys"] exI [of _ ?es]) (simp add: Let_def)
    qed
  next
    case part
    define e' where "e' = (es ! el)\<lparr>re_count := ucast (RE_HIGH (es ! el) - c + 1), re_low := c\<rparr>"
    have E: "elem_ok e'" "range_of e' = (unat c, u)"
      using cut_elem [OF ok, of c] part t lu by (simp_all add: e'_def)
    let ?es = "es[el := e'\<lparr>re_next := UINT_MAX\<rparr>]"
    have eqe: "ys = [] \<Longrightarrow> e'\<lparr>re_next := UINT_MAX\<rparr> = e'" using nx by (cases "es ! el") (simp add: e'_def)
    have r: "stop_search fuel es c el (if xs = [] then None else Some (last xs))
        = Some (?es, if ys = [] then None else Some (hd ys))"
      using part t fuel nx nhd eqe by (auto simp: Let_def e'_def)
    have "seg ?es h (xs @ [el]) UINT_MAX" using sx el d(1) by (intro seg_relink) (auto simp: seg_snoc)
    moreover have "\<forall>j \<in> set ys. ?es ! j = es ! j" using d(2) by (rule nth_update_notin)
    moreover have "\<forall>j \<in> set (xs @ [el]). elem_ok (?es ! j)" using Cons.prems(5) el E by (auto simp: nth_list_update)
    moreover have "rh_ranges ?es (xs @ [el]) = rh_ranges es xs @ pr_cut (unat c) (rh_ranges es (el # ys))"
      using d(1) el E part lu by simp
    ultimately show ?thesis using r by (intro exI [of _ "xs @ [el]"] exI [of _ ys] exI [of _ ?es]) simp
  next
    case last
    then have "stop_search fuel es c el (if xs = [] then None else Some (last xs)) = Some (es, None)"
      using t fuel nx by (simp add: Let_def)
    then show ?thesis using last Cons.prems lu
      by (intro exI [of _ "xs @ [el]"] exI [of _ "[]"] exI [of _ es]) simp
  next
    case on
    have st: "stop_search fuel es c el (if xs = [] then None else Some (last xs)) = stop_search f es c (hd ys) (Some el)"
      using on t fuel nx nhd by (simp add: Let_def)
    have "rh_ranges es xs @ pr_cut (unat c) (rh_ranges es (el # ys))
        = rh_ranges es (xs @ [el]) @ pr_cut (unat c) (rh_ranges es ys)" using on lu by simp
    then show ?thesis
      using Cons.IH [of "xs @ [el]" f] Cons.prems on fuel(2) unfolding list.sel st by simp
  qed
qed simp

lemma free_from_spec:
  assumes "seg (rh_elems r) (hd zs) zs UINT_MAX" "zs \<noteq> []" "length zs \<le> fuel" "distinct zs"
    and len: "length (rh_elems r) \<le> UINT_MAX" and "alloc_inv r S" "set zs \<subseteq> S"
  shows "\<exists>r'. free_from fuel r (hd zs) = Some r' \<and> alloc_inv r' (S - set zs) \<and> rh_elems r' = rh_elems r
    \<and> rh_head r' = rh_head r \<and> same_meta r r'"
  using assms
proof (induction zs arbitrary: r fuel S)
  case (Cons z zs)
  obtain f where fuel: "fuel = Suc f" "length zs \<le> f" using Cons.prems(3) by (cases fuel) auto
  let ?r = "rechist_free_elem r z"
  have es: "rh_elems ?r = rh_elems r" "rh_head ?r = rh_head r" "same_meta r ?r"
    by (simp_all add: rechist_free_elem_def same_meta_def)
  have al: "alloc_inv ?r (S - {z})" using Cons.prems free_elem_inv by simp
  have sz: "seg (rh_elems r) (re_next (rh_elems r ! z)) zs UINT_MAX" using Cons.prems(1) by simp
  show ?case
  proof (cases "zs = []")
    case True
    then show ?thesis using sz al es by (simp add: fuel Let_def)
  next
    case False
    then have n: "re_next (rh_elems r ! z) = hd zs" "re_next (rh_elems r ! z) \<noteq> UINT_MAX"
      using sz Cons.prems(5) by (cases zs; auto)+
    have "S - {z} - set zs = S - set (z # zs)" by auto
    then have "\<exists>r'. free_from f ?r (hd zs) = Some r' \<and> alloc_inv r' (S - set (z # zs)) \<and> rh_elems r' = rh_elems ?r
        \<and> rh_head r' = rh_head ?r \<and> same_meta ?r r'"
      using Cons.IH [of ?r f "S - {z}"] sz n False fuel(2) Cons.prems al es by fastforce
    then show ?thesis using n es by (auto simp: fuel Let_def same_meta_def)
  qed
qed simp

lemma stop_wait_refines:
  assumes rep: "rh_rep r rs" and c: "rh_cutoff_set r \<longrightarrow> rh_cutoff r \<le> cutoff"
  shows "\<exists>r'. lsquic_rechist_stop_wait r cutoff = Some r' \<and> rh_cutoff r' = cutoff \<and> rh_cutoff_set r'
    \<and> rh_rep r' (pr_cut (unat cutoff) rs) \<and> rh_max_ranges r' = rh_max_ranges r"
proof -
  from rep obtain js where ch: "rh_chain r js" and rs: "rs = rh_ranges (rh_elems r) js" and ok: "pr_ok rs"
    and cut: "\<forall>x \<in> pr_set rs. unat (rh_cutoff r) \<le> x" by (rule rh_rep_D)
  have cs: "\<forall>x \<in> pr_set (pr_cut (unat cutoff) rs). unat cutoff \<le> x" using pr_cut_set [OF ok] by auto
  show ?thesis
  proof (cases "rh_cutoff_set r \<and> cutoff \<le> rh_cutoff r")
    case True
    then have eq: "cutoff = rh_cutoff r" using c by simp
    have all: "\<forall>(l, h) \<in> set rs. unat cutoff \<le> l \<and> l \<le> h"
      using cut ok unfolding eq by (force simp: pr_ok_def pr_set_def)
    have "pr_cut (unat cutoff) rs = rs" using pr_cut_skip [OF all, of "[]"] by simp
    then show ?thesis using True eq rep by (simp add: lsquic_rechist_stop_wait_def)
  next
    case False
    define r1 where "r1 = r\<lparr>rh_cutoff := cutoff, rh_cutoff_set := True\<rparr>"
    have r1: "rh_chain r1 js" "rh_elems r1 = rh_elems r" "rh_n_alloced r1 = rh_n_alloced r" "rh_head r1 = rh_head r"
      using ch by (simp_all add: r1_def rh_chain_def)
    have e: "lsquic_rechist_stop_wait r cutoff = (if rh_n_used r1 = 0 then Some r1
        else case stop_search (rh_n_alloced r1) (rh_elems r1) cutoff (rh_head r1) None of
               None \<Rightarrow> None
             | Some (elems, None) \<Rightarrow> Some (r1\<lparr>rh_elems := elems\<rparr>)
             | Some (elems, Some el) \<Rightarrow> free_from (rh_n_alloced r1) (r1\<lparr>rh_elems := elems\<rparr>) el)"
      using False c unfolding lsquic_rechist_stop_wait_def r1_def Let_def by (auto simp: word_le_nat_alt)
    show ?thesis
    proof (cases "js = []")
      case True
      then have "rh_n_used r1 = 0" using used_length [OF r1(1)] by simp
      then have "lsquic_rechist_stop_wait r cutoff = Some r1" using e by simp
      moreover have "rh_rep r1 []" using r1(1) True by (auto simp: rh_rep_def)
      ultimately show ?thesis using True rs by (simp add: r1_def)
    next
      case ne: False
      have u: "rh_n_used r1 \<noteq> 0" using used_length [OF r1(1)] ne by simp
      have sg: "seg (rh_elems r1) (rh_head r1) js UINT_MAX" and al: "alloc_inv r1 (set js)" and d: "distinct js"
        and eok: "\<forall>j \<in> set js. elem_ok (rh_elems r1 ! j)" using r1(1) ne by (auto simp: rh_chain_def)
      have len: "length js \<le> rh_n_alloced r1" "length (rh_elems r1) \<le> UINT_MAX"
        using al d card_mono [of "{..<length (rh_elems r1)}" "set js"] by (auto simp: alloc_inv_def distinct_card)
      have hd: "hd js = rh_head r1" using sg ne by (cases js) auto
      have "\<exists>ks zs es. js = ks @ zs
          \<and> stop_search (rh_n_alloced r1) (rh_elems r1) cutoff (rh_head r1) None = Some (es, if zs = [] then None else Some (hd zs))
          \<and> length es = length (rh_elems r1) \<and> (\<forall>j \<in> set zs. es ! j = rh_elems r1 ! j) \<and> (ks \<noteq> [] \<longrightarrow> seg es (rh_head r1) ks UINT_MAX)
          \<and> (\<forall>j \<in> set ks. elem_ok (es ! j)) \<and> rh_ranges es ks = pr_cut (unat cutoff) (rh_ranges (rh_elems r1) js)"
        using stop_search_spec [of "rh_elems r1" "rh_head r1" "[]" js "rh_n_alloced r1" cutoff] sg ne len d eok
        unfolding hd by simp
      then obtain ks zs es where s: "js = ks @ zs"
          "stop_search (rh_n_alloced r1) (rh_elems r1) cutoff (rh_head r1) None = Some (es, if zs = [] then None else Some (hd zs))"
          "length es = length (rh_elems r1)" "\<forall>j \<in> set zs. es ! j = rh_elems r1 ! j" "ks \<noteq> [] \<longrightarrow> seg es (rh_head r1) ks UINT_MAX"
          "\<forall>j \<in> set ks. elem_ok (es ! j)" "rh_ranges es ks = pr_cut (unat cutoff) (rh_ranges (rh_elems r1) js)"
        by blast
      define r2 where "r2 = r1\<lparr>rh_elems := es\<rparr>"
      have al2: "alloc_inv r2 (set js)" using al s(3) by (simp add: r2_def)
      have "\<exists>r3. lsquic_rechist_stop_wait r cutoff = Some r3 \<and> alloc_inv r3 (set ks) \<and> rh_elems r3 = es
          \<and> rh_head r3 = rh_head r1 \<and> same_meta r2 r3"
      proof (cases "zs = []")
        case True
        then show ?thesis using e u s al2 by (simp add: r2_def same_meta_def)
      next
        case z: False
        obtain k where "seg (rh_elems r1) k zs UINT_MAX" using sg s(1) by (auto simp: seg_append)
        then have "seg (rh_elems r1) (hd zs) zs UINT_MAX" using z by (cases zs) auto
        moreover have "\<forall>j \<in> set zs. j < length es \<and> re_next (es ! j) = re_next (rh_elems r1 ! j)"
          using s al by (auto simp: alloc_inv_def)
        ultimately have "seg es (hd zs) zs UINT_MAX" by (metis seg_cong)
        then have "\<exists>r'. free_from (rh_n_alloced r1) r2 (hd zs) = Some r' \<and> alloc_inv r' (set js - set zs)
            \<and> rh_elems r' = rh_elems r2 \<and> rh_head r' = rh_head r2 \<and> same_meta r2 r'"
          using free_from_spec [of r2 zs "rh_n_alloced r1" "set js"] z len d s al2 by (auto simp: r2_def)
        moreover have "set js - set zs = set ks" using d s(1) by auto
        ultimately show ?thesis using e u s(2) z by (simp add: r2_def)
      qed
      then obtain r3 where r3: "lsquic_rechist_stop_wait r cutoff = Some r3" "alloc_inv r3 (set ks)" "rh_elems r3 = es"
          "rh_head r3 = rh_head r1" "same_meta r2 r3" by blast
      have "rh_chain r3 ks" using r3 s d by (simp add: rh_chain_def)
      then have "rh_rep r3 (pr_cut (unat cutoff) rs)"
        using s(7) r3 cs pr_cut_ok [OF ok] rs r1(2) unfolding rh_rep_def by (auto simp: same_meta_def r2_def r1_def)
      then show ?thesis using r3 by (simp add: same_meta_def r2_def r1_def)
    qed
  qed
qed


section \<open>Iterating over the ranges\<close>

text \<open>What a caller sees that calls \<open>first\<close> once and then \<open>next\<close> until it returns nothing.\<close>

fun drain :: "nat \<Rightarrow> ('s \<Rightarrow> 's \<times> packno_range option) \<Rightarrow> 's \<Rightarrow> packno_range list" where
  "drain 0 nxt s = []"
| "drain (Suc n) nxt s = (case nxt s of (s, None) \<Rightarrow> [] | (s, Some rg) \<Rightarrow> rg # drain n nxt s)"

definition enumerate_ranges ::
  "nat \<Rightarrow> ('s \<Rightarrow> 's \<times> packno_range option) \<Rightarrow> ('s \<Rightarrow> 's \<times> packno_range option) \<Rightarrow> 's \<Rightarrow> packno_range list" where
  "enumerate_ranges n fst_f nxt s = (case fst_f s of (s, None) \<Rightarrow> [] | (s, Some rg) \<Rightarrow> rg # drain n nxt s)"

definition nat_range :: "packno_range \<Rightarrow> pn_range" where
  "nat_range rg = (unat (pr_low rg), unat (pr_high rg))"

lemma nat_range_elem: "elem_ok e \<Longrightarrow> nat_range \<lparr>pr_low = re_low e, pr_high = RE_HIGH e\<rparr> = range_of e"
  by (simp add: nat_range_def range_of_def unat_RE_HIGH(1))

lemma iter_at_simps [simp]: "rh_elems (iter_at i r) = rh_elems r" "rh_iter_next (iter_at i r) = re_next (rh_elems r ! i)"
    "rh_iter_range (iter_at i r) = \<lparr>pr_low = re_low (rh_elems r ! i), pr_high = RE_HIGH (rh_elems r ! i)\<rparr>"
  by (simp_all add: iter_at_def)

lemma drain_next:
  assumes "seg (rh_elems r) (rh_iter_next r) js UINT_MAX" "length js < n" "\<forall>j \<in> set js. elem_ok (rh_elems r ! j)"
    and "length (rh_elems r) \<le> UINT_MAX"
  shows "map nat_range (drain n lsquic_rechist_next r) = rh_ranges (rh_elems r) js"
  using assms
proof (induction js arbitrary: r n)
  case Nil
  then show ?case by (cases n) (simp_all add: lsquic_rechist_next_def)
next
  case (Cons j js)
  then obtain m where n: "n = Suc m" by (cases n) auto
  have "rh_iter_next r = j" "j \<noteq> UINT_MAX" using Cons.prems by auto
  then have "lsquic_rechist_next r = (iter_at j r, Some (rh_iter_range (iter_at j r)))"
    by (simp add: lsquic_rechist_next_def Let_def)
  then show ?case
    using Cons.IH [of "iter_at j r" m] Cons.prems by (simp add: n nat_range_elem)
qed

lemma rechist_enumerates:
  assumes "rh_rep r rs" "length rs < n"
  shows "map nat_range (enumerate_ranges n lsquic_rechist_first lsquic_rechist_next r) = rs"
proof -
  from assms(1) obtain js where ch: "rh_chain r js" and rs: "rs = rh_ranges (rh_elems r) js" by (rule rh_rep_D)
  show ?thesis
  proof (cases js)
    case Nil
    then show ?thesis using used_length [OF ch] rs by (simp add: enumerate_ranges_def lsquic_rechist_first_def)
  next
    case (Cons j ks)
    have u: "rh_n_used r \<noteq> 0" using used_length [OF ch] Cons by simp
    have h: "rh_head r = j" "seg (rh_elems r) (re_next (rh_elems r ! j)) ks UINT_MAX" "length (rh_elems r) \<le> UINT_MAX"
        "\<forall>i \<in> set js. elem_ok (rh_elems r ! i)"
      using ch Cons by (auto simp: rh_chain_def alloc_inv_def)
    have "lsquic_rechist_first r = (iter_at j r, Some (rh_iter_range (iter_at j r)))"
      using u h(1) by (simp add: lsquic_rechist_first_def Let_def)
    then show ?thesis
      using drain_next [of "iter_at j r" ks n] h assms(2) rs Cons
      by (simp add: enumerate_ranges_def nat_range_elem)
  qed
qed

lemma largest_packno_Max:
  assumes "rh_rep r rs" "rs \<noteq> []"
  shows "unat (lsquic_rechist_largest_packno r) = Max (pr_set rs)"
proof -
  from assms(1) obtain js where ch: "rh_chain r js" and rs: "rs = rh_ranges (rh_elems r) js" and ok: "pr_ok rs"
    by (rule rh_rep_D)
  have ne: "js \<noteq> []" using assms(2) rs by auto
  have "rh_n_used r \<noteq> 0" using used_length [OF ch] ne by simp
  then show ?thesis
    using head_high [OF ch ne] ok rs by (simp add: lsquic_rechist_largest_packno_def)
qed

section \<open>Copying ranges from another history\<close>

definition copyable :: "packno_range \<Rightarrow> bool" where
  "copyable rg \<longleftrightarrow> pr_low rg \<le> pr_high rg \<and> unat (pr_high rg) < 4611686018427387904
     \<and> unat (pr_high rg) - unat (pr_low rg) < 4294967295"

lemma copy_elem:
  assumes "copyable rg"
  defines "e \<equiv> \<lparr>re_low = pr_low rg, re_count = ucast (pr_high rg - pr_low rg + 1), re_next = UINT_MAX\<rparr>"
  shows "elem_ok e" "range_of e = nat_range rg"
proof -
  have le: "unat (pr_low rg) \<le> unat (pr_high rg)" using assms(1) by (simp add: copyable_def word_le_nat_alt)
  have d: "unat (pr_high rg - pr_low rg) = unat (pr_high rg) - unat (pr_low rg)"
    using assms(1) by (simp add: copyable_def unat_sub)
  then have d1: "unat (pr_high rg - pr_low rg + 1) = unat (pr_high rg) - unat (pr_low rg) + 1"
    using assms(1) by (simp add: copyable_def unat_word_ariths(1))
  have "unat (ucast (pr_high rg - pr_low rg + 1) :: u32) = take_bit 32 (unat (pr_high rg - pr_low rg + 1))"
    by (simp add: unsigned_ucast_eq)
  also have "\<dots> = unat (pr_high rg) - unat (pr_low rg) + 1"
    unfolding d1 using assms(1) by (intro take_bit_nat_eq_self) (auto simp: copyable_def)
  finally show "elem_ok e" "range_of e = nat_range rg"
    using le assms(1) by (auto simp: elem_ok_def range_of_def nat_range_def e_def copyable_def)
qed

lemma copy_loop_spec:
  assumes "rh_chain r js" "prev_idx = (if js = [] then UINT_MAX else last js)" "\<forall>rg \<in> set rgs. copyable rg"
    and mx: "rh_max_ranges r \<noteq> 0" and re: "\<forall>n. realloc n \<noteq> None"
  shows "\<exists>r' ks. copy_loop realloc r prev_idx rgs = (r', True) \<and> rh_chain r' ks \<and> same_meta r r'
    \<and> rh_ranges (rh_elems r') ks = rh_ranges (rh_elems r) js @ map nat_range (take (rh_max_ranges r - length js) rgs)"
  using assms
proof (induction rgs arbitrary: r js prev_idx)
  case Nil
  then show ?case by auto
next
  case (Cons rg rgs)
  have len: "length js \<le> rh_max_ranges r" using used_max [OF Cons.prems(1)] Cons.prems(4) by simp
  show ?case
  proof (cases "rh_n_used r < rh_max_ranges r")
    case False
    then have "length js = rh_max_ranges r" using len used_length [OF Cons.prems(1)] by simp
    then show ?thesis using False Cons.prems by auto
  next
    case True
    let ?e = "\<lparr>re_low = pr_low rg, re_count = ucast (pr_high rg - pr_low rg + 1), re_next = UINT_MAX\<rparr>"
    have room: "\<not> at_max_ranges r" using True by (simp add: at_max_ranges_def)
    have "rh_chain r (js @ [])" using Cons.prems(1) by simp
    from alloc_link_ready [OF this room _ re] obtain r1 idx where
      a: "rechist_alloc_elem realloc r = Some (r1, idx)" "link_ready r1 idx js []"
        "rh_ranges (rh_elems r1) js = rh_ranges (rh_elems r) js" "same_but_slots r r1"
      using Cons.prems(4) by auto
    have E: "elem_ok ?e" "range_of ?e = nat_range rg" using copy_elem [of rg] Cons.prems(3) by simp_all
    let ?r = "link_elem ?e idx js r1"
    have L: "rh_chain ?r (js @ [idx])" "rh_ranges (rh_elems ?r) (js @ [idx]) = rh_ranges (rh_elems r) js @ [nat_range rg]"
      using link_elem_spec [OF a(2) E(1)] E(2) a(3) by simp_all
    have meta: "same_meta r ?r" using a(4) by (simp add: link_elem_def Let_def)
    have pi: "prev_idx = UINT_MAX \<longleftrightarrow> js = []"
    proof (cases "js = []")
      case False
      then have "last js < length (rh_elems r)" using rh_chain_bound [OF Cons.prems(1)] by simp
      then show ?thesis using Cons.prems(1,2) False by (simp add: rh_chain_def alloc_inv_def)
    qed (simp add: Cons.prems(2))
    have step: "copy_loop realloc r prev_idx (rg # rgs) = copy_loop realloc ?r idx rgs"
      using True a(1) pi Cons.prems(2) by (simp add: Let_def link_elem_def)
    have m: "rh_max_ranges ?r = rh_max_ranges r" using meta by (simp add: same_meta_def)
    from Cons.IH [OF L(1), of idx] Cons.prems(3,4) re m obtain r' ks where
      I: "copy_loop realloc ?r idx rgs = (r', True)" "rh_chain r' ks" "same_meta ?r r'"
        "rh_ranges (rh_elems r') ks = rh_ranges (rh_elems ?r) (js @ [idx]) @ map nat_range (take (rh_max_ranges r - length (js @ [idx])) rgs)"
      by auto
    obtain t where t: "rh_max_ranges r - length js = Suc t" "rh_max_ranges r - length (js @ [idx]) = t"
      using True used_length [OF Cons.prems(1)] by (cases "rh_max_ranges r - length js") auto
    have "rh_ranges (rh_elems r') ks = rh_ranges (rh_elems r) js @ map nat_range (take (rh_max_ranges r - length js) (rg # rgs))"
      unfolding I(4) L(2) t by simp
    moreover have "same_meta r r'" using I(3) meta by (simp add: same_meta_def)
    ultimately show ?thesis unfolding step using I(1,2) by blast
  qed
qed

section \<open>The initial history\<close>

lemma init_rep:
  assumes "max_ranges \<le> UINT_MAX"
  shows "rh_rep (lsquic_rechist_init ietf max_ranges) []"
  using assms by (auto simp: rh_rep_def rh_chain_def alloc_inv_def lsquic_rechist_init_def rechist_zero_def UINT_MAX_def
      intro!: exI [of _ "[]"])


end
