(* ===== verification/Rechist_Props.thy ===== *)
theory Rechist_Props
  imports Rechist_Refine
begin

text \<open>
  The receive history as an interface \<open>packet_history\<close>, its interpretation on
  \<^verbatim>\<open>lsquic_rechist.c\<close>, and the properties of the component.
\<close>

section \<open>The history as an interface\<close>

fun receive_all :: "('s \<Rightarrow> packno \<Rightarrow> qtime \<Rightarrow> 's \<times> received_st) \<Rightarrow> 's \<Rightarrow> (packno \<times> qtime) list \<Rightarrow> 's \<times> received_st list" where
  "receive_all rcv s [] = (s, [])"
| "receive_all rcv s ((p, t) # ps) =
     (let (s, st) = rcv s p t; (s, sts) = receive_all rcv s ps in (s, st # sts))"

fun dup_marks :: "nat set \<Rightarrow> nat list \<Rightarrow> received_st list" where
  "dup_marks S [] = []"
| "dup_marks S (p # ps) = (if p \<in> S then REC_ST_DUP else REC_ST_OK) # dup_marks (insert p S) ps"

lemma length_pr_ins: "length (pr_ins p rs) \<le> Suc (length rs)"
  by (induction p rs rule: pr_ins.induct) (auto split: list.splits)

locale packet_history =
  fixes rep :: "'s \<Rightarrow> pn_range list \<Rightarrow> bool"
    and received :: "'s \<Rightarrow> packno \<Rightarrow> qtime \<Rightarrow> 's \<times> received_st"
    and max_ranges :: "'s \<Rightarrow> nat"
    and low_limit :: "'s \<Rightarrow> nat"
  assumes rep_ok: "rep s rs \<Longrightarrow> pr_ok rs"
    and received_law: "rep s rs \<Longrightarrow> unat p < 4611686018427387904 \<Longrightarrow> card (pr_set rs) < 4294967295 \<Longrightarrow>
      received s p now = (s', st) \<Longrightarrow> received_spec (max_ranges s) (low_limit s) (unat p) rs = (rs', st') \<Longrightarrow>
      rep s' rs' \<and> st = st' \<and> max_ranges s' = max_ranges s \<and> low_limit s' = low_limit s"
begin

lemma receive_all_exact:
  assumes "rep s rs" "\<forall>(p, t) \<in> set ps. unat p < 4611686018427387904 \<and> low_limit s \<le> unat p"
    and "card (pr_set rs) + length ps < 4294967295" "max_ranges s = 0 \<or> length rs + length ps \<le> max_ranges s"
    and "receive_all received s ps = (s', sts)"
  shows "\<exists>rs'. rep s' rs' \<and> pr_set rs' = pr_set rs \<union> (\<lambda>q. unat (fst q)) ` set ps
    \<and> sts = dup_marks (pr_set rs) (map (\<lambda>q. unat (fst q)) ps)"
  using assms
proof (induction ps arbitrary: s rs s' sts)
  case Nil
  then show ?case by auto
next
  case (Cons q ps)
  obtain p t where q: "q = (p, t)" by (cases q)
  obtain s1 st where r: "received s p t = (s1, st)" by (cases "received s p t")
  obtain s2 sts2 where a: "receive_all received s1 ps = (s2, sts2)" by (cases "receive_all received s1 ps")
  obtain rs1 st1 where sp: "received_spec (max_ranges s) (low_limit s) (unat p) rs = (rs1, st1)"
    by (cases "received_spec (max_ranges s) (low_limit s) (unat p) rs")
  have ok: "pr_ok rs" using Cons.prems(1) rep_ok by blast
  have L: "rep s1 rs1" "st = st1" "max_ranges s1 = max_ranges s" "low_limit s1 = low_limit s"
    using received_law [OF Cons.prems(1) _ _ r sp] Cons.prems(2,3) by (auto simp: q)
  have rec: "pr_record (max_ranges s) (unat p) rs = pr_ins (unat p) rs"
    using Cons.prems(4) length_pr_ins [of "unat p" rs] by (auto simp: pr_record_def Let_def)
  have low: "\<not> unat p < low_limit s" using Cons.prems(2) by (auto simp: q)
  have m: "pr_mem (unat p) rs \<longleftrightarrow> unat p \<in> pr_set rs" by (rule pr_mem_set)
  have rs1: "pr_set rs1 = insert (unat p) (pr_set rs)" "length rs1 \<le> Suc (length rs)"
      "st1 = (if unat p \<in> pr_set rs then REC_ST_DUP else REC_ST_OK)"
    using sp low unfolding received_spec_def rec m
    by (auto simp only: insert_absorb pr_ins_set [OF ok] length_pr_ins if_True if_False not_False_eq_True simp_thms prod.inject split: if_splits intro: le_SucI)
  have c: "card (pr_set rs1) \<le> Suc (card (pr_set rs))" unfolding rs1(1) by (simp add: card_insert_if)
  from Cons.IH [OF L(1), of s2 sts2] Cons.prems(2-4) L(3,4) rs1(2) c a
  obtain rs' where "rep s2 rs'" "pr_set rs' = pr_set rs1 \<union> (\<lambda>q. unat (fst q)) ` set ps"
      "sts2 = dup_marks (pr_set rs1) (map (\<lambda>q. unat (fst q)) ps)" by (auto simp: q)
  moreover have "s' = s2" "sts = st # sts2" using Cons.prems(5) r a by (simp_all add: q Let_def)
  ultimately show ?case using L(2) rs1 by (auto simp: q)
qed

end

interpretation rh: packet_history "\<lambda>r rs. rh_rep r rs \<and> rh_max_ranges r \<noteq> 0"
  "lsquic_rechist_received (\<lambda>n. Some (fresh n))" rh_max_ranges "\<lambda>r. unat (rh_cutoff r)"
  for fresh :: "nat \<Rightarrow> rechist_elem"
proof unfold_locales
  show "pr_ok rs" if "rh_rep r rs \<and> rh_max_ranges r \<noteq> 0" for r rs using that by (simp add: rh_rep_def)
  fix r rs p now r' st rs' st'
  assume "rh_rep r rs \<and> rh_max_ranges r \<noteq> 0" and p: "unat p < 4611686018427387904" and c: "card (pr_set rs) < 4294967295"
    and r: "lsquic_rechist_received (\<lambda>n. Some (fresh n)) r p now = (r', st)"
    and s: "received_spec (rh_max_ranges r) (unat (rh_cutoff r)) (unat p) rs = (rs', st')"
  then have "rh_rep r rs" "rh_max_ranges r \<noteq> 0" by simp_all
  with received_refines [OF _ p c _ _ r s] show "(rh_rep r' rs' \<and> rh_max_ranges r' \<noteq> 0) \<and> st = st'
      \<and> rh_max_ranges r' = rh_max_ranges r \<and> unat (rh_cutoff r') = unat (rh_cutoff r)" by simp
qed

section \<open>Properties\<close>

text \<open>
  C5. Recording a packet refines the specification \<^const>\<open>received_spec\<close>: the slots, links and
  allocation masks stay well formed, the recorded ranges and the returned status are the
  specified ones, and the time of the largest packet moves exactly when a new largest
  packet is recorded.
\<close>

theorem rechist_received_refines:
  assumes "rh_rep r rs" "unat p < 4611686018427387904" "card (pr_set rs) < 4294967295"
    and "rh_max_ranges r = 0 \<longrightarrow> 2 * rh_n_alloced r \<le> UINT_MAX" "\<forall>n. realloc n \<noteq> None"
    and "lsquic_rechist_received realloc r p now = (r', st)"
    and "received_spec (rh_max_ranges r) (unat (rh_cutoff r)) (unat p) rs = (rs', st')"
  shows "rh_rep r' rs' \<and> st = st' \<and> rh_max_ranges r' = rh_max_ranges r \<and> rh_cutoff r' = rh_cutoff r
    \<and> rh_largest_acked_received r' = (if st = REC_ST_OK \<and> (\<forall>x \<in> pr_set rs. x < unat p) then now
        else rh_largest_acked_received r)"
  using received_refines [OF assms] by simp

theorem rechist_received_refines_witness:
  "rh_rep (fst (lsquic_rechist_received (\<lambda>_. Some \<lparr>re_low = 9, re_count = 9, re_next = 9\<rparr>) (lsquic_rechist_init True 10) 7 100)) [(7, 7)]"
proof -
  obtain r' st where r: "lsquic_rechist_received (\<lambda>_. Some \<lparr>re_low = 9, re_count = 9, re_next = 9\<rparr>) (lsquic_rechist_init True 10) 7 100 = (r', st)"
    by (cases "lsquic_rechist_received (\<lambda>_. Some \<lparr>re_low = 9, re_count = 9, re_next = 9\<rparr>) (lsquic_rechist_init True 10) 7 100")
  have i: "rh_max_ranges (lsquic_rechist_init True 10) = 10" "rh_cutoff (lsquic_rechist_init True 10) = 0"
    by (simp_all add: lsquic_rechist_init_def)
  have "received_spec 10 0 7 [] = ([(7, 7)], REC_ST_OK)" by (simp add: received_spec_def pr_mem_def pr_record_def)
  then show ?thesis
    using rechist_received_refines [OF init_rep [of 10 True] _ _ _ _ r] by (simp add: r i UINT_MAX_def)
qed

text \<open>
  C6. Started empty and given any packets, no more of them than the history may have ranges,
  the history records exactly the set of their numbers and reports as duplicates exactly
  the repeated ones.
\<close>

theorem rechist_exact:
  assumes "rh_rep r []" "rh_max_ranges r \<noteq> 0"
    and "\<forall>(p, t) \<in> set ps. unat p < 4611686018427387904 \<and> unat (rh_cutoff r) \<le> unat p"
    and "length ps \<le> rh_max_ranges r" "length ps < 4294967295"
    and "receive_all (lsquic_rechist_received (\<lambda>n. Some (fresh n))) r ps = (r', sts)"
  shows "\<exists>rs. rh_rep r' rs \<and> pr_set rs = (\<lambda>q. unat (fst q)) ` set ps \<and> sts = dup_marks {} (map (\<lambda>q. unat (fst q)) ps)"
  using rh.receive_all_exact [of r "[]" ps fresh r' sts] assms by auto

theorem rechist_exact_witness:
  "\<exists>r' rs. receive_all (lsquic_rechist_received (\<lambda>n. Some \<lparr>re_low = 0, re_count = 0, re_next = 0\<rparr>))
      (lsquic_rechist_init True 10) [(5, 1), (7, 2), (6, 3), (7, 4)]
        = (r', [REC_ST_OK, REC_ST_OK, REC_ST_OK, REC_ST_DUP])
    \<and> rh_rep r' rs \<and> pr_set rs = {5, 7, 6}"
proof -
  let ?ps = "[(5, 1), (7, 2), (6, 3), (7, 4)] :: (packno \<times> qtime) list"
  obtain r' sts where f: "receive_all (lsquic_rechist_received (\<lambda>n. Some \<lparr>re_low = 0, re_count = 0, re_next = 0\<rparr>))
      (lsquic_rechist_init True 10) ?ps = (r', sts)" by (metis surj_pair)
  have "\<exists>rs. rh_rep r' rs \<and> pr_set rs = (\<lambda>q. unat (fst q)) ` set ?ps \<and> sts = dup_marks {} (map (\<lambda>q. unat (fst q)) ?ps)"
    by (rule rechist_exact [OF init_rep [of 10 True] _ _ _ _ f]) (simp_all add: lsquic_rechist_init_def UINT_MAX_def rechist_zero_def)
  moreover have "dup_marks {} (map (\<lambda>q. unat (fst q)) ?ps) = [REC_ST_OK, REC_ST_OK, REC_ST_OK, REC_ST_DUP]"
    and "(\<lambda>q. unat (fst q)) ` set ?ps = {5, 7, 6}" by auto
  ultimately show ?thesis using f by metis
qed

text \<open>
  C28. Raising the cutoff succeeds, keeps the history well formed and leaves exactly the recorded
  packets that are not below the cutoff.
\<close>

theorem rechist_stop_wait_refines:
  assumes "rh_rep r rs" "rh_cutoff_set r \<longrightarrow> rh_cutoff r \<le> cutoff"
  shows "\<exists>r' rs'. lsquic_rechist_stop_wait r cutoff = Some r' \<and> rh_rep r' rs'
    \<and> pr_set rs' = pr_set rs \<inter> {unat cutoff..} \<and> lsquic_rechist_cutoff r' = cutoff"
proof -
  from stop_wait_refines [OF assms] obtain r' where
    "lsquic_rechist_stop_wait r cutoff = Some r'" "rh_cutoff r' = cutoff" "rh_cutoff_set r'"
    "rh_rep r' (pr_cut (unat cutoff) rs)" by blast
  moreover have "pr_ok rs" using assms(1) by (simp add: rh_rep_def)
  ultimately show ?thesis
    using pr_cut_set by (intro exI [of _ r'] exI [of _ "pr_cut (unat cutoff) rs"]) (simp add: lsquic_rechist_cutoff_def)
qed

theorem rechist_stop_wait_refines_witness:
  "\<exists>r' rs'. lsquic_rechist_stop_wait (lsquic_rechist_init True 10) 5 = Some r' \<and> rh_rep r' rs'
    \<and> pr_set rs' = pr_set [] \<inter> {unat (5 :: u64)..} \<and> lsquic_rechist_cutoff r' = 5"
  by (rule rechist_stop_wait_refines [OF init_rep])
    (simp_all add: UINT_MAX_def lsquic_rechist_init_def rechist_zero_def)

text \<open>
  C29. Calling \<^verbatim>\<open>lsquic_rechist_first\<close> and then \<^verbatim>\<open>lsquic_rechist_next\<close> until it returns nothing
  delivers every recorded range, from the highest down, and nothing else; the largest
  packet number is that of the first range.
\<close>

theorem rechist_iteration:
  assumes "rh_rep r rs" "length rs < n"
  shows "map nat_range (enumerate_ranges n lsquic_rechist_first lsquic_rechist_next r) = rs
    \<and> (rs \<noteq> [] \<longrightarrow> unat (lsquic_rechist_largest_packno r) = Max (pr_set rs))"
  using rechist_enumerates [OF assms] largest_packno_Max [OF assms(1)] by simp

theorem rechist_iteration_witness:
  "map nat_range (enumerate_ranges 1 lsquic_rechist_first lsquic_rechist_next (lsquic_rechist_init True 10)) = []"
  using rechist_iteration [OF init_rep [of 10 True], of 1] by (simp add: UINT_MAX_def)

text \<open>
  C30. Copying the ranges of another history into an empty one keeps the highest ranges, as many
  as the maximum allows, unchanged.
\<close>

theorem rechist_copy_ranges_prefix:
  assumes "rh_rep r []" "rh_max_ranges r \<noteq> 0" "rh_cutoff r = 0" "\<forall>n. realloc n \<noteq> None"
    and "\<forall>rg \<in> set rgs. copyable rg" "pr_ok (map nat_range rgs)"
  shows "\<exists>r'. lsquic_rechist_copy_ranges realloc r rgs = (r', True)
    \<and> rh_rep r' (map nat_range (take (rh_max_ranges r) rgs))"
proof -
  have "rh_n_used r = 0" using rh_rep_length [OF assms(1)] by simp
  moreover have "rh_chain r []" using assms(1) by (auto simp: rh_rep_def rh_ranges_def)
  ultimately obtain r' ks where c: "lsquic_rechist_copy_ranges realloc r rgs = (r', True)" "rh_chain r' ks" "same_meta r r'"
      "rh_ranges (rh_elems r') ks = map nat_range (take (rh_max_ranges r) rgs)"
    using copy_loop_spec [of r "[]" UINT_MAX rgs realloc] assms(2,4,5) by (auto simp: lsquic_rechist_copy_ranges_def)
  have "pr_ok (map nat_range (take (rh_max_ranges r) rgs @ drop (rh_max_ranges r) rgs))" using assms(6) by simp
  then have "pr_ok (map nat_range (take (rh_max_ranges r) rgs))" unfolding map_append pr_ok_append by simp
  with c assms(3) show ?thesis by (auto simp: rh_rep_def same_meta_def)
qed

theorem rechist_copy_ranges_prefix_witness:
  "\<exists>r'. lsquic_rechist_copy_ranges (\<lambda>_. Some \<lparr>re_low = 0, re_count = 0, re_next = 0\<rparr>) (lsquic_rechist_init True 2)
       [\<lparr>pr_low = 8, pr_high = 9\<rparr>, \<lparr>pr_low = 5, pr_high = 6\<rparr>, \<lparr>pr_low = 1, pr_high = 1\<rparr>] = (r', True)
    \<and> rh_rep r' [(8, 9), (5, 6)]"
  using rechist_copy_ranges_prefix [OF init_rep [of 2 True], of "\<lambda>_. Some \<lparr>re_low = 0, re_count = 0, re_next = 0\<rparr>"
      "[\<lparr>pr_low = 8, pr_high = 9\<rparr>, \<lparr>pr_low = 5, pr_high = 6\<rparr>, \<lparr>pr_low = 1, pr_high = 1\<rparr>]"]
  by (simp add: UINT_MAX_def lsquic_rechist_init_def rechist_zero_def copyable_def nat_range_def)

lemma pr_record_evicts:
  assumes "pr_ok (rs @ [(l, h)])" "p + 1 < l"
  shows "pr_ins p (rs @ [(l, h)]) = rs @ [(l, h), (p, p)]" "p \<notin> pr_set (rs @ [(l, h)])" "l \<notin> pr_set (rs @ [(p, p)])"
proof -
  have b: "\<forall>(l2, h2) \<in> set (rs @ [(l, h)]). l2 \<le> h2 \<and> p + 1 < l2" and a: "\<forall>(l2, h2) \<in> set rs. l2 \<le> h2 \<and> l < l2"
    using assms by (fastforce simp: pr_ok_append pr_ok_def [of rs])+
  show "pr_ins p (rs @ [(l, h)]) = rs @ [(l, h), (p, p)]" using pr_ins_skip [OF b, of "[]"] by simp
  show "p \<notin> pr_set (rs @ [(l, h)])" using b by (fastforce simp: pr_set_def)
  show "l \<notin> pr_set (rs @ [(p, p)])" using a assms(2) by (fastforce simp: pr_set_def)
qed

text \<open>
  C33. At the maximum number of ranges a packet below all of them evicts the lowest range above
  it: the smaller packet replaces the larger ones, and when the first packet of the evicted
  range arrives again it is accepted as new.
\<close>

theorem rechist_full_forgets:
  assumes "rh_rep r (rs @ [(unat q, h)])" "rh_max_ranges r = Suc (length rs)" "\<forall>n. realloc n \<noteq> None"
    and "unat p + 1 < unat q" "rh_cutoff r \<le> p" "unat q < 4611686018427387904"
    and "card (pr_set (rs @ [(unat q, h)])) < 4294967294"
    and "lsquic_rechist_received realloc r p now = (r', st)"
  shows "st = REC_ST_OK \<and> rh_rep r' (rs @ [(unat p, unat p)])
    \<and> snd (lsquic_rechist_received realloc r' q now') = REC_ST_OK"
proof -
  let ?rs = "rs @ [(unat q, h)]" and ?rs' = "rs @ [(unat p, unat p)]"
  have ok: "pr_ok ?rs" using assms(1) by (simp add: rh_rep_def)
  note e = pr_record_evicts [OF ok assms(4)]
  have cut: "\<not> unat p < unat (rh_cutoff r)" "\<not> unat q < unat (rh_cutoff r)"
    using assms(4,5) by (simp_all add: word_le_nat_alt)
  have "received_spec (rh_max_ranges r) (unat (rh_cutoff r)) (unat p) ?rs = (?rs', REC_ST_OK)"
    using e(1,2) cut(1) assms(2) by (simp add: received_spec_def pr_mem_set pr_record_def)
  from received_refines [OF assms(1) _ _ _ assms(3,8) this] assms(2,4,6,7)
  have r': "rh_rep r' ?rs'" "st = REC_ST_OK" "rh_max_ranges r' = rh_max_ranges r" "rh_cutoff r' = rh_cutoff r" by auto
  have "pr_set ?rs' \<subseteq> insert (unat p) (pr_set ?rs)" "finite (pr_set ?rs)" by (auto simp: pr_set_def)
  then have "card (pr_set ?rs') \<le> card (insert (unat p) (pr_set ?rs))" by (simp add: card_mono)
  also have "\<dots> \<le> Suc (card (pr_set ?rs))" by (simp add: card_insert_if \<open>finite (pr_set ?rs)\<close>)
  finally have "card (pr_set ?rs') < 4294967295" using assms(7) by simp
  moreover obtain rs2 where "received_spec (rh_max_ranges r') (unat (rh_cutoff r')) (unat q) ?rs' = (rs2, REC_ST_OK)"
    using e(3) cut(2) by (simp add: received_spec_def pr_mem_set r'(4))
  moreover obtain r2 st2 where "lsquic_rechist_received realloc r' q now' = (r2, st2)" by (metis surj_pair)
  ultimately show ?thesis using received_refines [OF r'(1) assms(6) _ _ assms(3)] assms(2,7) r' by fastforce
qed

theorem rechist_full_forgets_witness:
  "\<exists>r r'. rh_rep r [(20, 20), (10, 10)] \<and> rh_max_ranges r = 2
    \<and> lsquic_rechist_received (\<lambda>_. Some \<lparr>re_low = 0, re_count = 0, re_next = 0\<rparr>) r 5 2 = (r', REC_ST_OK)
    \<and> rh_rep r' [(20, 20), (5, 5)]
    \<and> snd (lsquic_rechist_received (\<lambda>_. Some \<lparr>re_low = 0, re_count = 0, re_next = 0\<rparr>) r' 10 3) = REC_ST_OK"
proof -
  let ?f = "\<lambda>_ :: nat. Some \<lparr>re_low = 0 :: packno, re_count = 0 :: u32, re_next = 0 :: nat\<rparr>"
  let ?r0 = "lsquic_rechist_init True 2"
  have i: "rh_max_ranges ?r0 = 2" "rh_cutoff ?r0 = 0" by (simp_all add: lsquic_rechist_init_def rechist_zero_def)
  obtain r1 st1 where a: "lsquic_rechist_received ?f ?r0 20 1 = (r1, st1)" by (metis surj_pair)
  have "received_spec 2 0 20 [] = ([(20, 20)], REC_ST_OK)" by (simp add: received_spec_def pr_mem_def pr_record_def)
  then have r1: "rh_rep r1 [(20, 20)]" "rh_max_ranges r1 = 2" "rh_cutoff r1 = 0"
    using received_refines [OF init_rep [of 2 True] _ _ _ _ a] by (auto simp: i UINT_MAX_def)
  obtain r st where b: "lsquic_rechist_received ?f r1 10 1 = (r, st)" by (metis surj_pair)
  have "received_spec 2 0 10 [(20, 20)] = ([(20, 20), (10, 10)], REC_ST_OK)" by (simp add: received_spec_def pr_mem_def pr_record_def)
  then have r: "rh_rep r [(20, 20), (10, 10)]" "rh_max_ranges r = 2" "rh_cutoff r = 0"
    using received_refines [OF r1(1) _ _ _ _ b] by (auto simp: r1)
  obtain r' st' where c: "lsquic_rechist_received ?f r 5 2 = (r', st')" by (metis surj_pair)
  from rechist_full_forgets [of r "[(20, 20)]" 10 10 ?f 5 2 r' st' 3] r c show ?thesis by (auto simp: pr_set_def)
qed


text \<open>
  C32. When recording fails, because no slot can be allocated or the first packet is below the cutoff,
  the recorded packets, the slots and the cutoff are untouched: at most the time of the
  largest packet has moved.
\<close>

theorem rechist_received_error:
  assumes "lsquic_rechist_received realloc r p now = (r', REC_ST_ERR)"
  shows "r' = r\<lparr>rh_largest_acked_received := rh_largest_acked_received r'\<rparr>"
  using assms
  by (auto simp: lsquic_rechist_received_def insert_first_def insert_before_def insert_tail_def Let_def
      split: if_splits option.splits rh_place.splits)

theorem rechist_received_error_witness:
  "\<exists>r'. lsquic_rechist_received (\<lambda>_. None) (lsquic_rechist_init True 4) 7 1 = (r', REC_ST_ERR)
    \<and> r' = (lsquic_rechist_init True 4)\<lparr>rh_largest_acked_received := rh_largest_acked_received r'\<rparr>"
proof -
  have "lsquic_rechist_received (\<lambda>_. None) (lsquic_rechist_init True 4) 7 1 = (lsquic_rechist_init True 4, REC_ST_ERR)"
    by (simp add: lsquic_rechist_received_def insert_first_def lsquic_rechist_init_def rechist_zero_def
        rechist_alloc_elem_def rechist_grow_def Let_def)
  from this rechist_received_error [OF this] show ?thesis by blast
qed

text \<open>
  C31. The sanity check that the code carries for its unit tests, that walking the list visits as
  many elements as are counted and exactly those whose allocation bit is set, passes in every well formed
  state, hence after every operation.
\<close>

theorem rechist_sanity:
  assumes "rh_rep r rs"
  shows "rechist_test_sanity r"
proof -
  from assms obtain js where "rh_chain r js" by (auto simp: rh_rep_def)
  then have inv: "alloc_inv r (set js)" and d: "distinct js"
    and seg: "js \<noteq> [] \<Longrightarrow> seg (rh_elems r) (rh_head r) js UINT_MAX" by (simp_all add: rh_chain_def)
  let ?z = "replicate (rh_n_masks r) 0 :: u64 list"
  have a: "rh_n_alloced r = length (rh_elems r)" "length (rh_elems r) \<le> UINT_MAX" "rh_n_masks r = length (rh_masks r)"
      "length (rh_elems r) \<le> 64 * length (rh_masks r)" "rh_n_used r = length js"
      "\<forall>i < 64 * length (rh_masks r). slot (rh_masks r) i \<longleftrightarrow> i \<in> set js"
      "length js \<le> length (rh_elems r)"
    using inv d card_mono [of "{..<length (rh_elems r)}" "set js"] by (auto simp: alloc_inv_def distinct_card)
  have z: "\<forall>x < 64 * length ?z. \<not> slot ?z x" by (simp add: slot_def)
  show ?thesis
  proof (cases "js = []")
    case True
    with z a have "?z = rh_masks r" by (intro slots_eqI) auto
    then show ?thesis using True a(5) by (simp add: rechist_test_sanity_def)
  next
    case False
    from sanity_walk_spec [OF seg [OF False] False a(7,2), of ?z] a(3,4)
    obtain ms where w: "sanity_walk (length (rh_elems r)) (length (rh_elems r)) (rh_elems r) (rh_head r) ?z = (length js, ms)"
      "length ms = length (rh_masks r)" "\<forall>x < 64 * length (rh_masks r). slot ms x \<longleftrightarrow> x \<in> set js" using z by auto
    then have "ms = rh_masks r" using a(6) by (intro slots_eqI) auto
    then show ?thesis using w(1) a(1,5) False by (simp add: rechist_test_sanity_def)
  qed
qed

theorem rechist_sanity_witness: "rechist_test_sanity (lsquic_rechist_init True 100)"
  by (rule rechist_sanity [OF init_rep]) (simp add: UINT_MAX_def)

end
