(* ===== verification/Packet_In.thy ===== *)
theory Packet_In
  imports Frames
begin

text \<open>
  Incoming packets: the header parsers of IETF v1, Q046, Q050 and gQUIC, their dispatch, the
  look-up of the connection ID, and the validity check of handshake packets
  (\<^verbatim>\<open>lsquic_parse_ietf_v1.c\<close>, \<^verbatim>\<open>lsquic_parse_iquic_common.c\<close>, \<^verbatim>\<open>lsquic_parse_Q050.c\<close>,
  \<^verbatim>\<open>lsquic_parse_gquic_common.c\<close>, \<^verbatim>\<open>lsquic_parse_common.c\<close>, \<^verbatim>\<open>lsquic_hspack_valid.c\<close>).

  The packet is \<open>pi_data\<close>, a list of as many bytes as the argument \<^verbatim>\<open>length\<close> of the C functions says;
  pointers into it are offsets.  Every read goes through \<open>rd\<close>, \<open>rd_mem\<close> or
  \<open>rd_vint\<close>, and a read outside the packet makes the result \<open>OUT_OF_BOUNDS\<close>; \<open>REJECTED\<close> is
  the return value \<^verbatim>\<open>-1\<close>, after which the caller drops the packet.  The build option
  \<^verbatim>\<open>LSQUIC_QIR\<close> is off.
\<close>

section \<open>Definitions\<close>

unbundle bit_operations_syntax

datatype header_type = HETY_NOT_SET | HETY_VERNEG | HETY_INITIAL | HETY_RETRY | HETY_HANDSHAKE | HETY_0RTT

record lsquic_packet_in =
  pi_received :: qtime
  pi_dcid :: bytes
  pi_packno :: packno
  pi_frame_types :: u32
  pi_header_sz :: u16
  pi_data_sz :: u16
  pi_refcnt :: u16
  pi_flags :: u32
  pi_token_size :: u16
  pi_token :: u8
  pi_odcid :: u8
  pi_odcid_len :: u8
  pi_scid_off :: u8
  pi_scid_len :: u8
  pi_quic_ver :: u8
  pi_nonce :: u8
  pi_header_type :: header_type
  pi_data :: bytes

record packin_parse_state =
  pps_p :: "nat option"
  pps_nbytes :: nat

definition PI_CONN_ID :: u32 where "PI_CONN_ID = 4"
definition PI_GQUIC :: u32 where "PI_GQUIC = 0x80"
definition PIBIT_SPIN_SHIFT :: nat where "PIBIT_SPIN_SHIFT = 11"
definition PIBIT_BITS_SHIFT :: nat where "PIBIT_BITS_SHIFT = 12"

definition GQUIC_CID_LEN :: nat where "GQUIC_CID_LEN = 8"
definition MIN_INITIAL_DCID_LEN :: nat where "MIN_INITIAL_DCID_LEN = 8"
definition GQUIC_MAX_PACKET_SZ :: nat where "GQUIC_MAX_PACKET_SZ = 1370"
definition IQUIC_MIN_INIT_PACKET_SZ :: nat where "IQUIC_MIN_INIT_PACKET_SZ = 1200"

text \<open>Version tags are compared as their four bytes in memory.\<close>

definition TAG_Q046 :: bytes where "TAG_Q046 = [0x51, 0x30, 0x34, 0x36]"
definition TAG_Q050 :: bytes where "TAG_Q050 = [0x51, 0x30, 0x35, 0x30]"

definition bits2ht :: "u8 \<Rightarrow> header_type" where
  "bits2ht b = [HETY_INITIAL, HETY_0RTT, HETY_HANDSHAKE, HETY_RETRY] ! unat b"

datatype 'a parsed = PARSED 'a | REJECTED | OUT_OF_BOUNDS

definition rd :: "bytes \<Rightarrow> nat \<Rightarrow> (u8 \<Rightarrow> 'a parsed) \<Rightarrow> 'a parsed" where
  "rd data p k = (if p < length data then k (data ! p) else OUT_OF_BOUNDS)"

definition rd_mem :: "bytes \<Rightarrow> nat \<Rightarrow> nat \<Rightarrow> (bytes \<Rightarrow> 'a parsed) \<Rightarrow> 'a parsed" where
  "rd_mem data p n k = (if p + n \<le> length data then k (take n (drop p data)) else OUT_OF_BOUNDS)"

definition rd_vint :: "bytes \<Rightarrow> nat \<Rightarrow> (nat \<Rightarrow> u64 \<Rightarrow> 'a parsed) \<Rightarrow> 'a parsed" where
  "rd_vint data p k = (case lsquic_varint_read (drop p data) of None \<Rightarrow> REJECTED | Some (r, v) \<Rightarrow> k r v)"

type_synonym parse_result = "(lsquic_packet_in \<times> packin_parse_state) parsed"

text \<open>The common end of the long header parsers.\<close>

definition finish_long :: "lsquic_packet_in \<Rightarrow> nat \<Rightarrow> nat \<Rightarrow> packin_parse_state \<Rightarrow> parse_result" where
  "finish_long pkt p len st = PARSED (pkt\<lparr>pi_header_sz := of_nat p, pi_data_sz := of_nat len, pi_nonce := 0,
     pi_refcnt := 0, pi_frame_types := 0, pi_received := 0, pi_packno := push_bit 62 1\<rparr>, st)"

definition read_token ::
  "bytes \<Rightarrow> bool \<Rightarrow> lsquic_packet_in \<Rightarrow> nat \<Rightarrow> (lsquic_packet_in \<Rightarrow> nat \<Rightarrow> parse_result) \<Rightarrow> parse_result" where
  "read_token data is_server pkt p k =
     rd_vint data p (\<lambda>r token_len.
       if token_len \<noteq> 0 \<and> \<not> is_server then REJECTED
       else let p = p + r in
         if token_len \<noteq> 0 then
           if token_len \<ge> push_bit 16 1 then REJECTED
           else if p + unat token_len > length data then REJECTED
           else k (pkt\<lparr>pi_token := of_nat p, pi_token_size := ucast token_len\<rparr>) (p + unat token_len)
         else k pkt p)"

definition read_payload_len :: "bytes \<Rightarrow> lsquic_packet_in \<Rightarrow> nat \<Rightarrow> parse_result" where
  "read_payload_len data pkt p =
     (if p \<ge> length data then REJECTED
      else rd_vint data p (\<lambda>r payload_len.
        let p = p + r in
        if p + unat payload_len > length data then REJECTED
        else if length data - p < 4 then REJECTED
        else finish_long (pkt\<lparr>pi_quic_ver := 1\<rparr>) p (p + unat payload_len) \<lparr>pps_p = Some (p - r), pps_nbytes = r\<rparr>))"

definition read_versions :: "bytes \<Rightarrow> lsquic_packet_in \<Rightarrow> nat \<Rightarrow> parse_result" where
  "read_versions data pkt p =
     (if p \<ge> length data \<or> (length data - p) mod 4 \<noteq> 0 then REJECTED
      else finish_long (pkt\<lparr>pi_quic_ver := of_nat p\<rparr>) (length data) (length data) \<lparr>pps_p = None, pps_nbytes = 0\<rparr>)"

definition lsquic_ietf_v1_parse_packet_in_long_begin :: "lsquic_packet_in \<Rightarrow> bool \<Rightarrow> nat \<Rightarrow> packin_parse_state \<Rightarrow> parse_result" where
  "lsquic_ietf_v1_parse_packet_in_long_begin pkt is_server cid_len st =
     (let data = pi_data pkt; end = length data in
      if end < 6 then REJECTED
      else rd data 0 (\<lambda>first_byte. rd_mem data 1 4 (\<lambda>tag.
        let header_type = (if tag = [0, 0, 0, 0] then HETY_VERNEG else bits2ht (drop_bit 4 first_byte AND 3));
            pkt = pkt\<lparr>pi_header_type := header_type\<rparr> in
        rd data 5 (\<lambda>b. let dcil = unat b; p = 6 in
        if p + dcil \<ge> end \<or> dcil > MAX_CID_LEN then REJECTED
        else rd_mem data p dcil (\<lambda>dcid.
        let pkt = (if dcil \<noteq> 0 then pkt\<lparr>pi_dcid := dcid, pi_flags := pi_flags pkt OR PI_CONN_ID\<rparr> else pkt\<lparr>pi_dcid := []\<rparr>);
            p = p + dcil in
        rd data p (\<lambda>b. let scil = unat b; p = p + 1 in
        if p + scil > end \<or> scil > MAX_CID_LEN then REJECTED
        else let pkt = (if scil \<noteq> 0 then pkt\<lparr>pi_scid_off := of_nat p\<rparr> else pkt)\<lparr>pi_scid_len := of_nat scil\<rparr>;
                 p = p + scil in
        case header_type of
          HETY_INITIAL \<Rightarrow>
            if is_server \<and> dcil < MIN_INITIAL_DCID_LEN then REJECTED
            else read_token data is_server pkt p (read_payload_len data)
        | HETY_HANDSHAKE \<Rightarrow> read_payload_len data pkt p
        | HETY_0RTT \<Rightarrow> read_payload_len data pkt p
        | HETY_RETRY \<Rightarrow>
            if p \<ge> end then REJECTED
            else if p + 1 + 16 > end then REJECTED
            else finish_long (pkt\<lparr>pi_token := of_nat p, pi_token_size := of_nat (end - p - 16), pi_quic_ver := 1\<rparr>)
                   end end \<lparr>pps_p = None, pps_nbytes = 0\<rparr>
        | _ \<Rightarrow> read_versions data pkt p))))))"

definition lsquic_Q050_parse_packet_in_long_begin :: "lsquic_packet_in \<Rightarrow> bool \<Rightarrow> nat \<Rightarrow> packin_parse_state \<Rightarrow> parse_result" where
  "lsquic_Q050_parse_packet_in_long_begin pkt is_server cid_len st =
     (let data = pi_data pkt; end = length data in
      if end < 6 then REJECTED
      else rd data 0 (\<lambda>first_byte. rd_mem data 1 4 (\<lambda>tag.
        let header_type = (if tag = [0, 0, 0, 0] then HETY_VERNEG else bits2ht (drop_bit 4 first_byte AND 3));
            pkt = pkt\<lparr>pi_header_type := header_type\<rparr> in
        rd data 5 (\<lambda>b. let dcil = unat b; p = 6 in
        if p + dcil \<ge> end \<or> dcil > MAX_CID_LEN then REJECTED
        else rd_mem data p dcil (\<lambda>dcid.
        let pkt = (if dcil \<noteq> 0 then pkt\<lparr>pi_dcid := dcid, pi_flags := pi_flags pkt OR PI_CONN_ID\<rparr> else pkt);
            p = p + dcil in
        rd data p (\<lambda>b. let scil = unat b; p = p + 1 in
        if p + scil > end \<or> scil > MAX_CID_LEN then REJECTED
        else rd_mem data p scil (\<lambda>scid.
        let pkt = (if scil \<noteq> 0 then pkt\<lparr>pi_dcid := scid, pi_flags := pi_flags pkt OR PI_CONN_ID\<rparr> else pkt);
            p = p + scil in
        if (if is_server then scil \<noteq> 0 else dcil \<noteq> 0) then REJECTED
        else case header_type of
          HETY_INITIAL \<Rightarrow> read_token data is_server pkt p (read_payload_len data)
        | HETY_HANDSHAKE \<Rightarrow> read_payload_len data pkt p
        | HETY_0RTT \<Rightarrow> read_payload_len data pkt p
        | HETY_RETRY \<Rightarrow>
            if p \<ge> end then REJECTED
            else rd data p (\<lambda>b. let odcil = unat b; p = p + 1 in
              if p + odcil > end \<or> odcil > MAX_CID_LEN then REJECTED
              else let pkt = pkt\<lparr>pi_odcid_len := of_nat odcil, pi_odcid := of_nat p\<rparr>; p = p + odcil in
                finish_long (pkt\<lparr>pi_token := of_nat p, pi_token_size := of_nat (end - p), pi_quic_ver := 1\<rparr>)
                  end end \<lparr>pps_p = None, pps_nbytes = 0\<rparr>)
        | _ \<Rightarrow> read_versions data pkt p)))))))"

text \<open>A connection ID length in four bits: zero or the value plus three.\<close>

definition cid_len_nibble :: "u8 \<Rightarrow> nat" where
  "cid_len_nibble n = (if n \<noteq> 0 then unat n + 3 else unat n)"

definition lsquic_Q046_parse_packet_in_long_begin :: "lsquic_packet_in \<Rightarrow> bool \<Rightarrow> nat \<Rightarrow> packin_parse_state \<Rightarrow> parse_result" where
  "lsquic_Q046_parse_packet_in_long_begin pkt is_server cid_len st =
     (let data = pi_data pkt; end = length data in
      if end < 6 then REJECTED
      else rd data 0 (\<lambda>first_byte. rd_mem data 1 4 (\<lambda>tag.
        let verneg = (tag = [0, 0, 0, 0]);
            header_type = (if \<not> verneg then bits2ht (drop_bit 4 first_byte AND 3) else HETY_VERNEG);
            pkt = pkt\<lparr>pi_header_type := header_type\<rparr> in
        rd data 5 (\<lambda>b.
        let dcil = cid_len_nibble (drop_bit 4 b); scil = cid_len_nibble (b AND 0xF); p = 6 in
        if (if is_server then \<not> (dcil = cid_len \<and> scil = 0) else \<not> (dcil = 0 \<and> scil = cid_len)) then REJECTED
        else let packet_len = 1 + unat (first_byte AND 3);
                 pkt = (if \<not> verneg then pkt\<lparr>pi_flags := pi_flags pkt OR push_bit PIBIT_BITS_SHIFT (ucast (first_byte AND 3))\<rparr> else pkt) in
        if end - p < dcil + scil + (if \<not> verneg then packet_len else 4) then REJECTED
        else rd_mem data p cid_len (\<lambda>dcid.
        let pkt = pkt\<lparr>pi_dcid := dcid, pi_flags := pi_flags pkt OR PI_CONN_ID\<rparr>; p = p + cid_len;
            done = (\<lambda>pkt p. PARSED (pkt\<lparr>pi_header_sz := of_nat p, pi_frame_types := 0, pi_data_sz := of_nat end,
                      pi_refcnt := 0, pi_received := 0\<rparr>, st)) in
        if \<not> verneg then
          rd_mem data p packet_len (\<lambda>packno.
            let pkt = pkt\<lparr>pi_packno := be_read packno, pi_quic_ver := 1\<rparr>; p = p + packet_len in
            if is_server \<or> header_type \<noteq> HETY_0RTT then done (pkt\<lparr>pi_nonce := 0\<rparr>) p
            else done (pkt\<lparr>pi_nonce := of_nat p\<rparr>) (p + 32))
        else if p \<ge> end \<or> (end - p) mod 4 \<noteq> 0 then REJECTED
        else done (pkt\<lparr>pi_quic_ver := of_nat p\<rparr>) end)))))"

definition lsquic_Q046_parse_packet_in_short_begin :: "lsquic_packet_in \<Rightarrow> bool \<Rightarrow> nat \<Rightarrow> packin_parse_state \<Rightarrow> parse_result" where
  "lsquic_Q046_parse_packet_in_short_begin pkt is_server cid_len st =
     (let data = pi_data pkt in
      rd data 0 (\<lambda>b.
        if b AND 0x40 = 0 then REJECTED
        else let packet_len = 1 + unat (b AND 3);
                 header_len = (if is_server then 1 + cid_len + packet_len else 1 + packet_len) in
        if length data < header_len then REJECTED
        else let pkt = pkt\<lparr>pi_flags := pi_flags pkt OR push_bit PIBIT_BITS_SHIFT (ucast (b AND 3))\<rparr>;
                 done = (\<lambda>pkt p. rd_mem data p packet_len (\<lambda>packno.
                   PARSED (pkt\<lparr>pi_packno := be_read packno, pi_header_type := HETY_NOT_SET, pi_quic_ver := 0, pi_nonce := 0,
                     pi_header_sz := of_nat (p + packet_len), pi_frame_types := 0, pi_data_sz := of_nat (length data),
                     pi_refcnt := 0, pi_received := 0\<rparr>, st))) in
        if is_server then
          rd_mem data 1 cid_len (\<lambda>dcid.
            done (pkt\<lparr>pi_dcid := dcid, pi_flags := pi_flags pkt OR PI_CONN_ID\<rparr>) (1 + cid_len))
        else done pkt 1))"

definition lsquic_ietf_v1_parse_packet_in_short_begin :: "lsquic_packet_in \<Rightarrow> bool \<Rightarrow> nat \<Rightarrow> packin_parse_state \<Rightarrow> parse_result" where
  "lsquic_ietf_v1_parse_packet_in_short_begin pkt is_server cid_len st =
     (let data = pi_data pkt in
      rd data 0 (\<lambda>b.
        let done = (\<lambda>pkt header_sz. PARSED
              (pkt\<lparr>pi_flags := pi_flags pkt OR push_bit PIBIT_SPIN_SHIFT (of_bool (b AND 0x20 > 0))
                    OR push_bit PIBIT_BITS_SHIFT (ucast (b AND 3)),
                  pi_header_sz := of_nat header_sz, pi_data_sz := of_nat (length data), pi_quic_ver := 0, pi_nonce := 0,
                  pi_refcnt := 0, pi_frame_types := 0, pi_received := 0\<rparr>,
               \<lparr>pps_p = Some header_sz, pps_nbytes = 1 + unat (b AND 3)\<rparr>)) in
        if cid_len \<noteq> 0 then
          if length data < 1 + cid_len then REJECTED
          else rd_mem data 1 cid_len (\<lambda>dcid.
            done (pkt\<lparr>pi_dcid := dcid, pi_flags := pi_flags pkt OR PI_CONN_ID\<rparr>) (1 + cid_len))
        else done pkt 1))"

definition twobit_to_1246 :: "nat \<Rightarrow> nat" where
  "twobit_to_1246 bits = bits * 2 + of_bool (bits = 0)"

text \<open>The gQUIC parser in its three parts: packet number, nonce, version.\<close>

definition gquic_packno_part :: "bool \<Rightarrow> lsquic_packet_in \<Rightarrow> u8 \<Rightarrow> nat \<Rightarrow> parse_result" where
  "gquic_packno_part is_server pkt public_flags p =
     (let pend = length (pi_data pkt);
          with_packno = (public_flags AND 3 = 0 \<or> public_flags AND 1 \<noteq> 0 \<and> is_server);
          bits = drop_bit 4 public_flags AND 3;
          nbytes = (if with_packno then twobit_to_1246 (unat bits) else 0) in
      if with_packno \<and> nbytes > pend - p then REJECTED
      else PARSED (pkt\<lparr>pi_packno := 0, pi_header_sz := of_nat (p + nbytes), pi_frame_types := 0, pi_data_sz := of_nat pend,
              pi_refcnt := 0, pi_received := 0,
              pi_flags := pi_flags pkt OR PI_GQUIC OR push_bit PIBIT_BITS_SHIFT (ucast bits)\<rparr>,
            \<lparr>pps_p = Some p, pps_nbytes = nbytes\<rparr>))"

definition gquic_nonce_part :: "bool \<Rightarrow> lsquic_packet_in \<Rightarrow> u8 \<Rightarrow> nat \<Rightarrow> parse_result" where
  "gquic_nonce_part is_server pkt public_flags p =
     (if \<not> is_server \<and> public_flags AND 4 = 4 then
        if 32 > length (pi_data pkt) - p then REJECTED
        else gquic_packno_part is_server (pkt\<lparr>pi_nonce := of_nat p\<rparr>) public_flags (p + 32)
      else gquic_packno_part is_server (pkt\<lparr>pi_nonce := 0\<rparr>) public_flags p)"

definition gquic_version_part :: "bool \<Rightarrow> lsquic_packet_in \<Rightarrow> u8 \<Rightarrow> nat \<Rightarrow> parse_result" where
  "gquic_version_part is_server pkt public_flags p =
     (let pend = length (pi_data pkt) in
      if public_flags AND 1 \<noteq> 0 then
        let public_flags = public_flags AND NOT 4 in
        if is_server then
          if 4 > pend - p then REJECTED
          else gquic_nonce_part is_server (pkt\<lparr>pi_quic_ver := of_nat p\<rparr>) public_flags (p + 4)
        else if public_flags AND NOT (1 OR 8) \<noteq> 0 \<or> (pend - p) mod 4 \<noteq> 0 then REJECTED
        else if 4 > pend - p then REJECTED
        else gquic_nonce_part is_server (pkt\<lparr>pi_quic_ver := of_nat p\<rparr>) public_flags pend
      else if public_flags AND (0x80 OR 0x40) \<noteq> 0 then REJECTED
      else gquic_nonce_part is_server (pkt\<lparr>pi_quic_ver := 0\<rparr>) public_flags p)"

definition lsquic_gquic_parse_packet_in_begin :: "lsquic_packet_in \<Rightarrow> bool \<Rightarrow> nat \<Rightarrow> packin_parse_state \<Rightarrow> parse_result" where
  "lsquic_gquic_parse_packet_in_begin pkt is_server cid_len st =
     (let data = pi_data pkt; pend = length data in
      if pend > GQUIC_MAX_PACKET_SZ then REJECTED
      else if 1 > pend then REJECTED
      else rd data 0 (\<lambda>public_flags.
        if public_flags AND 8 \<noteq> 0 then
          if 8 > pend - 1 then REJECTED
          else rd_mem data 1 8 (\<lambda>cid.
            gquic_version_part is_server (pkt\<lparr>pi_dcid := cid, pi_flags := pi_flags pkt OR PI_CONN_ID\<rparr>) public_flags 9)
        else gquic_version_part is_server pkt public_flags 1))"

section \<open>Dispatch\<close>

definition parse_ietf_v1_or_Q046plus_long_begin :: "lsquic_packet_in \<Rightarrow> bool \<Rightarrow> nat \<Rightarrow> packin_parse_state \<Rightarrow> parse_result" where
  "parse_ietf_v1_or_Q046plus_long_begin pkt is_server cid_len st =
     (if length (pi_data pkt) \<ge> 5 then
        rd_mem (pi_data pkt) 1 4 (\<lambda>tag.
          if tag = TAG_Q046 then lsquic_Q046_parse_packet_in_long_begin pkt is_server cid_len st
          else if tag = TAG_Q050 then lsquic_Q050_parse_packet_in_long_begin pkt is_server cid_len st
          else lsquic_ietf_v1_parse_packet_in_long_begin pkt is_server cid_len st)
      else REJECTED)"

datatype begin_func = Q046_LONG | V1_OR_Q046PLUS_LONG | V1_SHORT | Q046_SHORT | GQUIC

text \<open>The table, indexed by the five high bits of the first byte.\<close>

definition parse_begin_funcs :: "begin_func list" where
  "parse_begin_funcs =
     [Q046_SHORT, GQUIC, Q046_SHORT, GQUIC, Q046_SHORT, GQUIC, Q046_SHORT, GQUIC]
     @ replicate 8 V1_SHORT
     @ replicate 6 V1_OR_Q046PLUS_LONG @ replicate 2 Q046_LONG
     @ replicate 6 V1_OR_Q046PLUS_LONG @ replicate 2 Q046_LONG"

fun call_begin :: "begin_func \<Rightarrow> lsquic_packet_in \<Rightarrow> bool \<Rightarrow> nat \<Rightarrow> packin_parse_state \<Rightarrow> parse_result" where
  "call_begin Q046_LONG = lsquic_Q046_parse_packet_in_long_begin"
| "call_begin V1_OR_Q046PLUS_LONG = parse_ietf_v1_or_Q046plus_long_begin"
| "call_begin V1_SHORT = lsquic_ietf_v1_parse_packet_in_short_begin"
| "call_begin Q046_SHORT = lsquic_Q046_parse_packet_in_short_begin"
| "call_begin GQUIC = lsquic_gquic_parse_packet_in_begin"

definition lsquic_parse_packet_in_server_begin :: "lsquic_packet_in \<Rightarrow> nat \<Rightarrow> packin_parse_state \<Rightarrow> parse_result" where
  "lsquic_parse_packet_in_server_begin pkt cid_len st =
     (if length (pi_data pkt) \<noteq> 0 then
        rd (pi_data pkt) 0 (\<lambda>b. call_begin (parse_begin_funcs ! unat (drop_bit 3 b)) pkt True cid_len st)
      else REJECTED)"

definition lsquic_parse_packet_in_begin :: "lsquic_packet_in \<Rightarrow> bool \<Rightarrow> nat \<Rightarrow> packin_parse_state \<Rightarrow> parse_result" where
  "lsquic_parse_packet_in_begin pkt is_server cid_len st =
     (if length (pi_data pkt) > 0 then
        rd (pi_data pkt) 0 (\<lambda>b.
          let top = b AND 0xC0 in
          if top = 0xC0 \<or> top = 0x80 then parse_ietf_v1_or_Q046plus_long_begin pkt is_server cid_len st
          else if top = 0 then lsquic_gquic_parse_packet_in_begin pkt is_server cid_len st
          else lsquic_ietf_v1_parse_packet_in_short_begin pkt is_server cid_len st)
      else REJECTED)"

definition lsquic_ietf_v1_parse_packet_in_begin :: "lsquic_packet_in \<Rightarrow> bool \<Rightarrow> nat \<Rightarrow> packin_parse_state \<Rightarrow> parse_result" where
  "lsquic_ietf_v1_parse_packet_in_begin pkt is_server cid_len st =
     (if length (pi_data pkt) > 0 then
        rd (pi_data pkt) 0 (\<lambda>b.
          if b AND 0x80 = 0 then lsquic_ietf_v1_parse_packet_in_short_begin pkt is_server cid_len st
          else lsquic_ietf_v1_parse_packet_in_long_begin pkt is_server cid_len st)
      else REJECTED)"

text \<open>The functions for a client of Q046 and Q050 only; their assertions are preconditions.\<close>

definition lsquic_Q046_parse_packet_in_begin :: "lsquic_packet_in \<Rightarrow> bool \<Rightarrow> nat \<Rightarrow> packin_parse_state \<Rightarrow> parse_result" where
  "lsquic_Q046_parse_packet_in_begin pkt is_server cid_len st =
     (if length (pi_data pkt) > 0 then
        rd (pi_data pkt) 0 (\<lambda>b.
          if b AND 0x80 = 0
          then lsquic_ietf_v1_parse_packet_in_short_begin pkt is_server (if is_server then cid_len else 0) st
          else lsquic_Q046_parse_packet_in_long_begin pkt is_server cid_len st)
      else REJECTED)"

definition lsquic_Q050_parse_packet_in_begin :: "lsquic_packet_in \<Rightarrow> bool \<Rightarrow> nat \<Rightarrow> packin_parse_state \<Rightarrow> parse_result" where
  "lsquic_Q050_parse_packet_in_begin pkt is_server cid_len st =
     (if length (pi_data pkt) > 0 then
        rd (pi_data pkt) 0 (\<lambda>b.
          if b AND 0x80 = 0
          then lsquic_ietf_v1_parse_packet_in_short_begin pkt is_server (if is_server then cid_len else 0) st
          else lsquic_Q050_parse_packet_in_long_begin pkt is_server cid_len st)
      else REJECTED)"

text \<open>The packet structure on the stack of \<^verbatim>\<open>lsquic_cid_from_packet\<close> is the argument \<open>pkt\<close>; it is not initialised.\<close>

definition lsquic_cid_from_packet :: "lsquic_packet_in \<Rightarrow> packin_parse_state \<Rightarrow> bytes \<Rightarrow> bytes parsed" where
  "lsquic_cid_from_packet pkt st buf =
     (case lsquic_parse_packet_in_server_begin (pkt\<lparr>pi_data := buf\<rparr>) 8 st of
        PARSED (pkt, st) \<Rightarrow> (if pi_flags pkt AND PI_CONN_ID \<noteq> 0 then PARSED (pi_dcid pkt) else REJECTED)
      | REJECTED \<Rightarrow> REJECTED
      | OUT_OF_BOUNDS \<Rightarrow> OUT_OF_BOUNDS)"

text \<open>The result is the offset of the connection ID and its length.\<close>

definition dcid_Q046_long :: "bytes \<Rightarrow> (nat \<times> nat) parsed" where
  "dcid_Q046_long buf =
     (if length buf < 14 then REJECTED
      else rd buf 5 (\<lambda>b.
        if cid_len_nibble (drop_bit 4 b) = GQUIC_CID_LEN \<and> cid_len_nibble (b AND 0xF) = 0
        then PARSED (6, GQUIC_CID_LEN) else REJECTED))"

definition lsquic_dcid_from_packet :: "bytes \<Rightarrow> nat \<Rightarrow> (nat \<times> nat) parsed" where
  "lsquic_dcid_from_packet buf server_cid_len =
     (if length buf < 9 then REJECTED
      else rd buf 0 (\<lambda>b.
        case parse_begin_funcs ! unat (drop_bit 3 b) of
          Q046_LONG \<Rightarrow> dcid_Q046_long buf
        | V1_OR_Q046PLUS_LONG \<Rightarrow>
            rd buf 4 (\<lambda>b4. if b4 = 0x36 then dcid_Q046_long buf
              else if length buf < 14 then REJECTED
              else rd buf 5 (\<lambda>b5. let dcil = unat b5 in
                if dcil \<le> MAX_CID_LEN \<and> 6 + dcil < length buf then PARSED (6, dcil) else REJECTED))
        | V1_SHORT \<Rightarrow> (if 1 + server_cid_len \<le> length buf then PARSED (1, server_cid_len) else REJECTED)
        | Q046_SHORT \<Rightarrow>
            (if 1 + server_cid_len \<le> length buf \<and> b AND 0x40 \<noteq> 0 then PARSED (1, server_cid_len) else REJECTED)
        | GQUIC \<Rightarrow>
            (if 1 + GQUIC_CID_LEN \<le> length buf \<and> b AND 8 \<noteq> 0 then PARSED (1, server_cid_len) else REJECTED)))"

section \<open>Validity of handshake packets\<close>

text \<open>The result is the version tag.\<close>

definition lsquic_is_valid_iquic_hs_packet :: "bytes \<Rightarrow> bytes parsed" where
  "lsquic_is_valid_iquic_hs_packet buf =
     (if length buf < 6 then REJECTED
      else rd buf 0 (\<lambda>first_byte. rd_mem buf 1 4 (\<lambda>tag.
        if tag = [0, 0, 0, 0] then REJECTED
        else rd buf 5 (\<lambda>b.
          let dcil = cid_len_nibble (drop_bit 4 b); scil = cid_len_nibble (b AND 0xF); p = 6 in
          if \<not> (dcil = 8 \<and> scil = 0) then REJECTED
          else let packet_len = unat (first_byte AND 3) in
            if length buf - p \<ge> dcil + scil + packet_len then PARSED tag else REJECTED))))"

definition valid_lengths :: "bytes \<Rightarrow> bytes \<Rightarrow> nat \<Rightarrow> bytes parsed" where
  "valid_lengths buf tag p =
     rd_vint buf p (\<lambda>r token_len.
       let p = p + r + unat token_len in
       if p \<ge> length buf then REJECTED
       else rd_vint buf p (\<lambda>r payload_len.
         let p = p + r in
         if p + unat payload_len > length buf then REJECTED
         else if length buf - p < 4 then REJECTED
         else PARSED tag))"

definition lsquic_is_valid_ietf_v1_or_Q046plus_hs_packet :: "bytes \<Rightarrow> bytes parsed" where
  "lsquic_is_valid_ietf_v1_or_Q046plus_hs_packet buf =
     (let end = length buf in
      if end < 6 then REJECTED
      else rd buf 0 (\<lambda>first_byte.
        if bits2ht (drop_bit 4 first_byte AND 3) \<noteq> HETY_INITIAL then REJECTED
        else rd_mem buf 1 4 (\<lambda>tag. rd buf 5 (\<lambda>b. let p = 6 in
          if tag = [0, 0, 0, 0] then REJECTED
          else if tag = TAG_Q046 then
            (let dcil = cid_len_nibble (drop_bit 4 b); scil = cid_len_nibble (b AND 0xF) in
             if \<not> (dcil = GQUIC_CID_LEN \<and> scil = 0) then REJECTED
             else let packet_len = unat (first_byte AND 3) in
               if end - p < dcil + scil + packet_len then REJECTED else PARSED tag)
          else if tag = TAG_Q050 then
            (let dcil = unat b in
             if dcil \<noteq> 8 then REJECTED
             else if p + dcil + 1 \<ge> end then REJECTED
             else rd buf (p + dcil) (\<lambda>b. let scil = unat b in
               if scil \<noteq> 0 then REJECTED else valid_lengths buf tag (p + dcil + 1)))
          else
            (let dcil = unat b in
             if dcil < MIN_INITIAL_DCID_LEN \<or> dcil > MAX_CID_LEN then REJECTED
             else if p + dcil \<ge> end then REJECTED
             else rd buf (p + dcil) (\<lambda>b. let scil = unat b; p = p + dcil + 1 in
               if p + scil > end \<or> scil > MAX_CID_LEN then REJECTED
               else valid_lengths buf tag (p + scil)))))))"

definition SMALLEST_GQUIC_OVERHEAD :: nat where
  "SMALLEST_GQUIC_OVERHEAD = 1 + GQUIC_CID_LEN + 4 + 1 + 1 + 1 + 2 + 12"

definition is_valid_gquic_hs_packet :: "bytes \<Rightarrow> bytes parsed" where
  "is_valid_gquic_hs_packet buf =
     (if length buf > GQUIC_MAX_PACKET_SZ then REJECTED
      else if length buf < SMALLEST_GQUIC_OVERHEAD + 2 then REJECTED
      else rd buf (1 + GQUIC_CID_LEN + 4) (\<lambda>b.
        if b > 64 then REJECTED
        else rd buf 0 (\<lambda>b0.
          if (b0 XOR (NOT (0x80 OR 0x40 OR 0x30 OR 2) AND (1 OR 8))) AND NOT 4 \<noteq> 0 then REJECTED
          else rd_mem buf (1 + 8) 4 PARSED)))"

text \<open>The five classes of the switch are those of the dispatch table.\<close>

definition lsquic_is_valid_hs_packet :: "bytes \<Rightarrow> bytes parsed" where
  "lsquic_is_valid_hs_packet buf =
     (if length buf < 1 then REJECTED
      else rd buf 0 (\<lambda>b.
        case parse_begin_funcs ! unat (drop_bit 3 (b AND 0xF8)) of
          Q046_LONG \<Rightarrow> (if length buf \<ge> IQUIC_MIN_INIT_PACKET_SZ then lsquic_is_valid_iquic_hs_packet buf else REJECTED)
        | V1_OR_Q046PLUS_LONG \<Rightarrow>
            (if length buf \<ge> IQUIC_MIN_INIT_PACKET_SZ then lsquic_is_valid_ietf_v1_or_Q046plus_hs_packet buf else REJECTED)
        | V1_SHORT \<Rightarrow> REJECTED
        | Q046_SHORT \<Rightarrow> REJECTED
        | GQUIC \<Rightarrow> is_valid_gquic_hs_packet buf))"

end
