(* ===== verification/Packet_Safety.thy ===== *)
theory Packet_Safety
  imports Packet_In
begin

text \<open>
  The header parsers never read outside the packet, and the sizes and offsets they store stay
  inside it; the two look-ups of the connection ID agree; the validity check accepts what the
  parser accepts.
\<close>

unbundle bit_operations_syntax

section \<open>Staying inside the packet\<close>

definition pkt_within :: "bytes \<Rightarrow> lsquic_packet_in \<Rightarrow> bool" where
  "pkt_within data pkt \<longleftrightarrow> length (pi_dcid pkt) \<le> MAX_CID_LEN
     \<and> unat (pi_token pkt) + unat (pi_token_size pkt) \<le> length data
     \<and> unat (pi_scid_off pkt) + unat (pi_scid_len pkt) \<le> length data
     \<and> unat (pi_odcid pkt) + unat (pi_odcid_len pkt) \<le> length data
     \<and> (pi_quic_ver pkt = 0 \<or> unat (pi_quic_ver pkt) + 4 \<le> length data)"

definition within :: "bytes \<Rightarrow> parse_result \<Rightarrow> bool" where
  "within data r \<longleftrightarrow> (case r of
     OUT_OF_BOUNDS \<Rightarrow> False
   | REJECTED \<Rightarrow> True
   | PARSED (pkt, st) \<Rightarrow> pi_header_sz pkt \<le> pi_data_sz pkt \<and> unat (pi_data_sz pkt) \<le> length data \<and> pkt_within data pkt)"

lemma within_rejected [simp]: "within data REJECTED"
  by (simp add: within_def)

lemma within_if: "(c \<Longrightarrow> within data a) \<Longrightarrow> (\<not> c \<Longrightarrow> within data b) \<Longrightarrow> within data (if c then a else b)"
  by simp

lemma within_rd: "p < length data \<Longrightarrow> (\<And>b. data ! p = b \<Longrightarrow> within data (k b)) \<Longrightarrow> within data (rd data p k)"
  by (simp add: rd_def)

lemma within_rd_mem:
  "p + n \<le> length data \<Longrightarrow> (\<And>bs. length bs = n \<Longrightarrow> bs = take n (drop p data) \<Longrightarrow> within data (k bs)) \<Longrightarrow> within data (rd_mem data p n k)"
  by (simp add: rd_mem_def)

lemma within_rd_vint:
  "(\<And>r v. p + r \<le> length data \<Longrightarrow> within data (k r v)) \<Longrightarrow> within data (rd_vint data p k)"
  using lsquic_varint_read_len [of "drop p data"] by (fastforce simp: rd_vint_def split: option.split)

lemmas within_intros = within_if within_rd within_rd_mem within_rd_vint

lemma unat_of_nat_le: "unat (of_nat n :: 'a::len word) \<le> n"
  by (simp add: unat_of_nat)

lemma within_done:
  assumes "p \<le> len" "len \<le> length data" "length data \<le> 65535" "pi_header_sz pkt = of_nat p" "pi_data_sz pkt = of_nat len" "pkt_within data pkt"
  shows "within data (PARSED (pkt, st))"
  using assms by (simp add: within_def word_le_nat_alt unat_of_nat)

lemma pkt_within_token:
  assumes "pkt_within data pkt" "p + unat (v :: u64) \<le> length data"
  shows "pkt_within data (pkt\<lparr>pi_token := of_nat p, pi_token_size := ucast v\<rparr>)"
proof -
  have "unat (ucast v :: u16) \<le> unat v" by (simp add: unsigned_ucast_eq take_bit_nat_less_eq_self)
  then show ?thesis using assms unat_of_nat_le [where 'a = 8, of p] by (simp add: pkt_within_def)
qed

lemma within_finish:
  "p \<le> len \<Longrightarrow> len \<le> length data \<Longrightarrow> length data \<le> 65535 \<Longrightarrow> pkt_within data pkt \<Longrightarrow> within data (finish_long pkt p len st)"
  unfolding finish_long_def by (rule within_done) (simp_all add: pkt_within_def)

lemma within_payload:
  "length data \<le> 65535 \<Longrightarrow> 5 \<le> length data \<Longrightarrow> pkt_within data pkt \<Longrightarrow> within data (read_payload_len data pkt p)"
  unfolding read_payload_len_def Let_def
  by (intro within_intros within_finish within_rejected) (auto simp: pkt_within_def)

lemma within_token:
  assumes "length data \<le> 65535" "pkt_within data pkt" "\<And>pkt p. pkt_within data pkt \<Longrightarrow> within data (k pkt p)"
  shows "within data (read_token data is_server pkt p k)"
  unfolding read_token_def Let_def using assms(1,2)
  by (intro within_intros assms(3) within_rejected pkt_within_token)
    auto

lemma pkt_within_ver:
  "p + 4 \<le> length data \<Longrightarrow> pkt_within data pkt \<Longrightarrow> pkt_within data (pkt\<lparr>pi_quic_ver := of_nat p\<rparr>)"
  using unat_of_nat_le [where 'a = 8, of p] by (simp add: pkt_within_def)

lemma pkt_within_no_ver [simp]: "pkt_within data pkt \<Longrightarrow> pkt_within data (pkt\<lparr>pi_quic_ver := 0\<rparr>)"
  by (simp add: pkt_within_def)

lemma versions_left: "\<not> (length data \<le> p \<or> (length data - p) mod 4 \<noteq> 0) \<Longrightarrow> p + 4 \<le> length data"
  by (cases "length data - p < 4") auto

lemma within_versions:
  "length data \<le> 65535 \<Longrightarrow> pkt_within data pkt \<Longrightarrow> within data (read_versions data pkt p)"
  unfolding read_versions_def
  by (intro within_intros within_finish within_rejected pkt_within_ver versions_left) auto

lemma pkt_within_if: "pkt_within data a \<Longrightarrow> pkt_within data b \<Longrightarrow> pkt_within data (if c then a else b)"
  by simp

lemma pkt_within_simple [simp]:
  "pkt_within data (pkt\<lparr>pi_header_type := h\<rparr>) = pkt_within data pkt"
  "pkt_within data (pkt\<lparr>pi_flags := f\<rparr>) = pkt_within data pkt"
  "pkt_within data (pkt\<lparr>pi_nonce := n\<rparr>) = pkt_within data pkt"
  by (simp_all add: pkt_within_def)

lemma pkt_within_dcid:
  "length d \<le> MAX_CID_LEN \<Longrightarrow> pkt_within data pkt \<Longrightarrow> pkt_within data (pkt\<lparr>pi_dcid := d, pi_flags := f\<rparr>)"
  "length d \<le> MAX_CID_LEN \<Longrightarrow> pkt_within data pkt \<Longrightarrow> pkt_within data (pkt\<lparr>pi_dcid := d\<rparr>)"
  by (simp_all add: pkt_within_def)

lemma pkt_within_scid:
  "p + n \<le> length data \<Longrightarrow> pkt_within data pkt \<Longrightarrow>
     pkt_within data ((if n \<noteq> 0 then pkt\<lparr>pi_scid_off := of_nat p\<rparr> else pkt)\<lparr>pi_scid_len := of_nat n\<rparr>)"
  using unat_of_nat_le [where 'a = 8, of p] unat_of_nat_le [where 'a = 8, of n] by (simp add: pkt_within_def)

lemma pkt_within_retry:
  "p + n \<le> length data \<Longrightarrow> 5 \<le> length data \<Longrightarrow> pkt_within data pkt \<Longrightarrow>
     pkt_within data (pkt\<lparr>pi_token := of_nat p, pi_token_size := of_nat n, pi_quic_ver := 1\<rparr>)"
  using unat_of_nat_le [where 'a = 8, of p] unat_of_nat_le [where 'a = 16, of n] by (simp add: pkt_within_def)

lemma pkt_within_odcid:
  "p + n \<le> length data \<Longrightarrow> pkt_within data pkt \<Longrightarrow> pkt_within data (pkt\<lparr>pi_odcid_len := of_nat n, pi_odcid := of_nat p\<rparr>)"
  using unat_of_nat_le [where 'a = 8, of p] unat_of_nat_le [where 'a = 8, of n] by (simp add: pkt_within_def)

lemmas pkt_within_intros = pkt_within_if pkt_within_dcid pkt_within_scid pkt_within_retry pkt_within_odcid

lemma within_case_ht:
  "(h = HETY_INITIAL \<Longrightarrow> within data a) \<Longrightarrow> (h = HETY_HANDSHAKE \<Longrightarrow> within data b) \<Longrightarrow> (h = HETY_0RTT \<Longrightarrow> within data c)
    \<Longrightarrow> (h = HETY_RETRY \<Longrightarrow> within data d) \<Longrightarrow> within data e
    \<Longrightarrow> within data (case h of HETY_INITIAL \<Rightarrow> a | HETY_HANDSHAKE \<Rightarrow> b | HETY_0RTT \<Rightarrow> c | HETY_RETRY \<Rightarrow> d | _ \<Rightarrow> e)"
  by (cases h) simp_all

lemma v1_long_within:
  assumes "length (pi_data pkt) \<le> 65535" "pkt_within (pi_data pkt) pkt"
  shows "within (pi_data pkt) (lsquic_ietf_v1_parse_packet_in_long_begin pkt is_server cid_len st)"
  unfolding lsquic_ietf_v1_parse_packet_in_long_begin_def Let_def using assms
  by (intro within_intros within_case_ht within_rejected within_token within_payload within_versions within_finish
      pkt_within_intros) auto

lemma Q050_long_within:
  assumes "length (pi_data pkt) \<le> 65535" "pkt_within (pi_data pkt) pkt"
  shows "within (pi_data pkt) (lsquic_Q050_parse_packet_in_long_begin pkt is_server cid_len st)"
  unfolding lsquic_Q050_parse_packet_in_long_begin_def Let_def using assms
  by (intro within_intros within_case_ht within_rejected within_token within_payload within_versions within_finish
      pkt_within_intros) auto

lemma within_PARSED:
  "within data (PARSED (pkt, st)) \<longleftrightarrow>
     unat (pi_header_sz pkt) \<le> unat (pi_data_sz pkt) \<and> unat (pi_data_sz pkt) \<le> length data \<and> pkt_within data pkt"
  by (simp add: within_def word_le_nat_alt)

lemmas within_eval = within_PARSED rd_def rd_mem_def unat_of_nat

lemma v1_short_within:
  assumes "length (pi_data pkt) \<le> 65535" "pkt_within (pi_data pkt) pkt" "pi_data pkt \<noteq> []" "cid_len \<le> MAX_CID_LEN"
  shows "within (pi_data pkt) (lsquic_ietf_v1_parse_packet_in_short_begin pkt is_server cid_len st)"
  unfolding lsquic_ietf_v1_parse_packet_in_short_begin_def Let_def using assms
  by (cases "cid_len = 0") (auto simp: Suc_le_eq within_eval pkt_within_def simp del: of_nat_add of_nat_Suc)

lemma Q046_short_within:
  assumes "length (pi_data pkt) \<le> 65535" "pkt_within (pi_data pkt) pkt" "pi_data pkt \<noteq> []" "cid_len \<le> MAX_CID_LEN"
  shows "within (pi_data pkt) (lsquic_Q046_parse_packet_in_short_begin pkt is_server cid_len st)"
  unfolding lsquic_Q046_parse_packet_in_short_begin_def Let_def using assms
  by (auto simp: within_eval pkt_within_def simp del: of_nat_add of_nat_Suc)

lemma gquic_packno_within:
  assumes "p \<le> length (pi_data pkt)" "length (pi_data pkt) \<le> 65535" "pkt_within (pi_data pkt) pkt"
  shows "within (pi_data pkt) (gquic_packno_part is_server pkt flags p)"
  using assms by (auto simp: gquic_packno_part_def Let_def within_eval pkt_within_def simp del: of_nat_add)

lemma gquic_nonce_within:
  assumes "p \<le> length (pi_data pkt)" "length (pi_data pkt) \<le> 65535" "pkt_within (pi_data pkt) pkt"
  shows "within (pi_data pkt) (gquic_nonce_part is_server pkt flags p)"
  using assms gquic_packno_within [of "p + 32" "pkt\<lparr>pi_nonce := of_nat p\<rparr>" is_server flags]
    gquic_packno_within [of p "pkt\<lparr>pi_nonce := 0\<rparr>" is_server flags]
  by (cases is_server) (auto simp: gquic_nonce_part_def)

lemma gquic_version_within:
  assumes "p \<le> length (pi_data pkt)" "length (pi_data pkt) \<le> 65535" "pkt_within (pi_data pkt) pkt"
  shows "within (pi_data pkt) (gquic_version_part is_server pkt flags p)"
proof -
  have none: "within (pi_data pkt) (gquic_nonce_part is_server (pkt\<lparr>pi_quic_ver := 0\<rparr>) fl p)" for fl
    using gquic_nonce_within [of p "pkt\<lparr>pi_quic_ver := 0\<rparr>" is_server fl] assms by simp
  have ver: "within (pi_data pkt) (gquic_nonce_part is_server (pkt\<lparr>pi_quic_ver := of_nat p\<rparr>) fl p')"
    if "p + 4 \<le> length (pi_data pkt)" "p' \<le> length (pi_data pkt)" for fl p'
    using gquic_nonce_within [of p' "pkt\<lparr>pi_quic_ver := of_nat p\<rparr>" is_server fl] pkt_within_ver [OF that(1) assms(3)] assms(2) that
    by simp
  show ?thesis using assms(1) unfolding gquic_version_part_def Let_def
    by (intro within_if within_rejected ver none) auto
qed

lemma gquic_within:
  assumes "length (pi_data pkt) \<le> 65535" "pkt_within (pi_data pkt) pkt"
  shows "within (pi_data pkt) (lsquic_gquic_parse_packet_in_begin pkt is_server cid_len st)"
proof -
  have "within (pi_data pkt) (gquic_version_part is_server (pkt\<lparr>pi_dcid := d, pi_flags := f\<rparr>) b 9)"
    if "length d = 8" "9 \<le> length (pi_data pkt)" for d f b
    using gquic_version_within [of 9 "pkt\<lparr>pi_dcid := d, pi_flags := f\<rparr>" is_server b] assms that
    by (simp add: pkt_within_def MAX_CID_LEN_def)
  then show ?thesis using assms gquic_version_within [of 1 pkt is_server] unfolding lsquic_gquic_parse_packet_in_begin_def Let_def
    by (intro within_intros within_rejected) auto
qed

lemma and3_cases:
  obtains "w AND 3 = (0 :: u8)" | "w AND 3 = (1 :: u8)" | "w AND 3 = (2 :: u8)" | "w AND 3 = (3 :: u8)"
proof -
  have "unat (w AND 3) \<le> unat (3 :: u8)" using word_and_le1 [of w 3] by (simp add: word_le_nat_alt)
  then have "unat (w AND 3) \<in> {0, 1, 2, 3}" by auto
  then have "unat (w AND 3) = unat (0 :: u8) \<or> unat (w AND 3) = unat (1 :: u8)
      \<or> unat (w AND 3) = unat (2 :: u8) \<or> unat (w AND 3) = unat (3 :: u8)" by simp
  then show thesis using that unfolding word_unat_eq_iff [symmetric] by blast
qed

lemma bits2ht_cases:
  "bits2ht (w AND 3) = HETY_INITIAL \<longleftrightarrow> w AND 3 = 0"
  "bits2ht (w AND 3) = HETY_0RTT \<longleftrightarrow> w AND 3 = 1"
  "bits2ht (w AND 3) = HETY_HANDSHAKE \<longleftrightarrow> w AND 3 = 2"
  "bits2ht (w AND 3) = HETY_RETRY \<longleftrightarrow> w AND 3 = 3"
  by (rule and3_cases [of w]; simp add: bits2ht_def)+

text \<open>A client that parses a 0-RTT packet skips a nonce of 32 bytes without looking whether it is there.\<close>

lemma Q046_long_within:
  assumes "length (pi_data pkt) \<le> 65535" "pkt_within (pi_data pkt) pkt" "cid_len \<le> MAX_CID_LEN"
    and "is_server \<or> drop_bit 4 (pi_data pkt ! 0) AND 3 \<noteq> 1"
  shows "within (pi_data pkt) (lsquic_Q046_parse_packet_in_long_begin pkt is_server cid_len st)"
  unfolding lsquic_Q046_parse_packet_in_long_begin_def Let_def using assms
  by (auto simp: bits2ht_cases within_eval pkt_within_def simp del: of_nat_add of_nat_Suc)

lemma v1_or_Q046plus_within:
  assumes "length (pi_data pkt) \<le> 65535" "pkt_within (pi_data pkt) pkt" "cid_len \<le> MAX_CID_LEN"
    and "is_server \<or> take 4 (drop 1 (pi_data pkt)) \<noteq> TAG_Q046 \<or> drop_bit 4 (pi_data pkt ! 0) AND 3 \<noteq> 1"
  shows "within (pi_data pkt) (parse_ietf_v1_or_Q046plus_long_begin pkt is_server cid_len st)"
  unfolding parse_ietf_v1_or_Q046plus_long_begin_def
  using assms v1_long_within Q050_long_within Q046_long_within by (intro within_intros within_rejected) auto

lemma server_begin_within:
  assumes "length (pi_data pkt) \<le> 65535" "pkt_within (pi_data pkt) pkt" "cid_len \<le> MAX_CID_LEN"
  shows "within (pi_data pkt) (lsquic_parse_packet_in_server_begin pkt cid_len st)"
  unfolding lsquic_parse_packet_in_server_begin_def
proof (intro within_intros within_rejected)
  fix b
  assume ne: "length (pi_data pkt) \<noteq> 0"
  show "within (pi_data pkt) (call_begin (parse_begin_funcs ! unat (drop_bit 3 b)) pkt True cid_len st)"
    using ne assms v1_or_Q046plus_within [of pkt cid_len True] Q046_long_within [of pkt cid_len True]
      v1_short_within Q046_short_within gquic_within
    by (cases "parse_begin_funcs ! unat (drop_bit 3 b)") auto
qed simp

section \<open>Properties\<close>

definition blank_packet :: "bytes \<Rightarrow> lsquic_packet_in" where
  "blank_packet data = \<lparr>pi_received = 0, pi_dcid = [], pi_packno = 0, pi_frame_types = 0, pi_header_sz = 0, pi_data_sz = 0,
     pi_refcnt = 0, pi_flags = 0, pi_token_size = 0, pi_token = 0, pi_odcid = 0, pi_odcid_len = 0, pi_scid_off = 0,
     pi_scid_len = 0, pi_quic_ver = 0, pi_nonce = 0, pi_header_type = HETY_NOT_SET, pi_data = data\<rparr>"

text \<open>
  C8. Whatever bytes a server receives in a datagram, parsing the packet header reads nothing outside
  the packet; and if the packet is accepted, the header lies inside the data and the data inside the packet, the
  recorded offsets and sizes of the token, of the source connection ID, of the original destination connection ID
  and of the version lie inside the packet, and the destination connection ID fits its buffer.  (The position
  of the packet number, \<^verbatim>\<open>pps_p\<close> and \<^verbatim>\<open>pps_nbytes\<close>, is not covered: in a short header it may extend past the packet.)
\<close>

theorem server_parse_safe:
  assumes "length (pi_data pkt) \<le> 65535" "cid_len \<le> MAX_CID_LEN" "pkt_within (pi_data pkt) pkt"
  shows "within (pi_data pkt) (lsquic_parse_packet_in_server_begin pkt cid_len st)"
  by (rule server_begin_within [OF assms(1,3,2)])

definition initial_packet :: bytes where
  "initial_packet = [0xC0, 0, 0, 0, 1, 8, 1, 2, 3, 4, 5, 6, 7, 8, 0, 0, 4, 0, 0, 0, 0]"

theorem server_parse_safe_witness:
  "within initial_packet (lsquic_parse_packet_in_server_begin (blank_packet initial_packet) 8 \<lparr>pps_p = None, pps_nbytes = 0\<rparr>)
   \<and> (\<exists>pkt' st'. lsquic_parse_packet_in_server_begin (blank_packet initial_packet) 8 \<lparr>pps_p = None, pps_nbytes = 0\<rparr> = PARSED (pkt', st')
        \<and> pi_header_sz pkt' = 17 \<and> pi_data_sz pkt' = 21)"
  (is "?A \<and> ?B")
proof
  have "pi_data (blank_packet initial_packet) = initial_packet" by (simp add: blank_packet_def)
  then show ?A
    using server_parse_safe [of "blank_packet initial_packet" 8 "\<lparr>pps_p = None, pps_nbytes = 0\<rparr>"]
    by (simp add: blank_packet_def initial_packet_def MAX_CID_LEN_def pkt_within_def)
  show ?B
    by (simp add: lsquic_parse_packet_in_server_begin_def parse_begin_funcs_def blank_packet_def initial_packet_def rd_def rd_mem_def rd_vint_def
      parse_ietf_v1_or_Q046plus_long_begin_def TAG_Q046_def TAG_Q050_def lsquic_ietf_v1_parse_packet_in_long_begin_def MAX_CID_LEN_def
      MIN_INITIAL_DCID_LEN_def read_token_def read_payload_len_def finish_long_def lsquic_varint_read_def VINT_MASK_def bits2ht_def Let_def nth_append)
qed

text \<open>
  A client parsing a Q046 packet whose type bits say 0-RTT skips 32 bytes of nonce that need not be there:
  this 15-byte packet is accepted with a header of 47 bytes.
\<close>

theorem Q046_nonce_overrun:
  "\<exists>pkt' st'. lsquic_parse_packet_in_begin (blank_packet ([0xD0] @ TAG_Q046 @ [0x05, 1, 2, 3, 4, 5, 6, 7, 8, 0])) False 8 st
      = PARSED (pkt', st') \<and> pi_header_sz pkt' = 47 \<and> pi_data_sz pkt' = 15"
  by (simp add: lsquic_parse_packet_in_begin_def blank_packet_def TAG_Q046_def rd_def rd_mem_def
      parse_ietf_v1_or_Q046plus_long_begin_def lsquic_Q046_parse_packet_in_long_begin_def cid_len_nibble_def
      bits2ht_def Let_def)

section \<open>What an accepted packet says\<close>

definition accepted :: "(lsquic_packet_in \<Rightarrow> bool) \<Rightarrow> parse_result \<Rightarrow> bool" where
  "accepted Q r \<longleftrightarrow> (\<forall>pkt st. r = PARSED (pkt, st) \<longrightarrow> Q pkt)"

lemma accepted_rejected [simp]: "accepted Q REJECTED"
  by (simp add: accepted_def)

lemma accepted_intros:
  "(c \<Longrightarrow> accepted Q a) \<Longrightarrow> (\<not> c \<Longrightarrow> accepted Q b) \<Longrightarrow> accepted Q (if c then a else b)"
  "(\<And>b. p < length data \<Longrightarrow> data ! p = b \<Longrightarrow> accepted Q (k b)) \<Longrightarrow> accepted Q (rd data p k)"
  "(\<And>bs. bs = take n (drop p data) \<Longrightarrow> p + n \<le> length data \<Longrightarrow> accepted Q (km bs)) \<Longrightarrow> accepted Q (rd_mem data p n km)"
  "(\<And>r v. accepted Q (k' r v)) \<Longrightarrow> accepted Q (rd_vint data p k')"
  by (auto simp: accepted_def rd_def rd_mem_def rd_vint_def split: option.split)

lemma accepted_case_ht:
  "(h = HETY_INITIAL \<Longrightarrow> accepted Q a) \<Longrightarrow> (h = HETY_HANDSHAKE \<Longrightarrow> accepted Q b) \<Longrightarrow> (h = HETY_0RTT \<Longrightarrow> accepted Q c)
    \<Longrightarrow> (h = HETY_RETRY \<Longrightarrow> accepted Q d) \<Longrightarrow> accepted Q e
    \<Longrightarrow> accepted Q (case h of HETY_INITIAL \<Rightarrow> a | HETY_HANDSHAKE \<Rightarrow> b | HETY_0RTT \<Rightarrow> c | HETY_RETRY \<Rightarrow> d | _ \<Rightarrow> e)"
  by (cases h) simp_all

text \<open>The connection ID and the flags are settled before the lengths are read.\<close>

definition cid_says :: "bytes \<Rightarrow> lsquic_packet_in \<Rightarrow> bool" where
  "cid_says d pkt \<longleftrightarrow> (bit (pi_flags pkt) 2 \<longrightarrow> pi_dcid pkt = d)"

lemma bit_PI_CONN_ID: "bit PI_CONN_ID k \<longleftrightarrow> k = 2"
proof -
  have e: "(4 :: u32) = 2 ^ 2" by simp
  show ?thesis unfolding PI_CONN_ID_def e bit_exp_iff by (auto simp: possible_bit_word)
qed

lemma conn_id_flag: "w AND PI_CONN_ID \<noteq> 0 \<longleftrightarrow> bit w 2"
proof -
  have "bit (w AND PI_CONN_ID) k \<longleftrightarrow> k = 2 \<and> bit w k" for k by (auto simp: bit_and_iff bit_PI_CONN_ID)
  then show ?thesis by (metis bit_eqI bit_0_eq bot_apply bot_bool_def)
qed

lemma cid_says_update [simp]:
  "cid_says d (pkt\<lparr>pi_token := t, pi_token_size := n\<rparr>) = cid_says d pkt"
  "cid_says d (pkt\<lparr>pi_quic_ver := v\<rparr>) = cid_says d pkt"
  "cid_says d (pkt\<lparr>pi_nonce := nn\<rparr>) = cid_says d pkt"
  by (simp_all add: cid_says_def)

lemma accepted_finish: "cid_says d pkt \<Longrightarrow> accepted (cid_says d) (finish_long pkt p len st)"
  by (simp add: accepted_def finish_long_def cid_says_def)

lemma accepted_payload: "cid_says d pkt \<Longrightarrow> accepted (cid_says d) (read_payload_len data pkt p)"
  unfolding read_payload_len_def Let_def by (intro accepted_intros accepted_finish accepted_rejected) simp

lemma accepted_versions: "cid_says d pkt \<Longrightarrow> accepted (cid_says d) (read_versions data pkt p)"
  unfolding read_versions_def Let_def by (intro accepted_intros accepted_finish accepted_rejected) simp

lemma accepted_token:
  "cid_says d pkt \<Longrightarrow> accepted (cid_says d) (read_token data is_server pkt p (read_payload_len data))"
  unfolding read_token_def Let_def by (intro accepted_intros accepted_payload accepted_rejected) simp_all

lemmas accepted_long = accepted_intros accepted_case_ht accepted_rejected accepted_token accepted_payload
  accepted_versions accepted_finish

lemma v1_long_cid:
  "accepted (cid_says (take (unat (pi_data pkt ! 5)) (drop 6 (pi_data pkt))))
     (lsquic_ietf_v1_parse_packet_in_long_begin pkt is_server cid_len st)"
  unfolding lsquic_ietf_v1_parse_packet_in_long_begin_def Let_def
  by (intro accepted_long) (auto simp: cid_says_def)

lemma Q050_long_cid:
  "\<not> bit (pi_flags pkt) 2 \<Longrightarrow> accepted (cid_says (take (unat (pi_data pkt ! 5)) (drop 6 (pi_data pkt))))
     (lsquic_Q050_parse_packet_in_long_begin pkt True cid_len st)"
  unfolding lsquic_Q050_parse_packet_in_long_begin_def Let_def
  by (intro accepted_long) (auto simp: cid_says_def)

lemma Q046_long_cid:
  "accepted (cid_says (take cid_len (drop 6 (pi_data pkt)))) (lsquic_Q046_parse_packet_in_long_begin pkt True cid_len st)"
  unfolding lsquic_Q046_parse_packet_in_long_begin_def Let_def
  by (intro accepted_intros accepted_rejected) (auto simp: cid_says_def accepted_def)

lemma Q046_short_cid:
  "accepted (cid_says (take cid_len (drop 1 (pi_data pkt)))) (lsquic_Q046_parse_packet_in_short_begin pkt True cid_len st)"
  unfolding lsquic_Q046_parse_packet_in_short_begin_def Let_def
  by (intro accepted_intros accepted_rejected) (auto simp: cid_says_def accepted_def)

lemma v1_short_cid:
  "\<not> bit (pi_flags pkt) 2 \<Longrightarrow> accepted (cid_says (take cid_len (drop 1 (pi_data pkt))))
     (lsquic_ietf_v1_parse_packet_in_short_begin pkt True cid_len st)"
  unfolding lsquic_ietf_v1_parse_packet_in_short_begin_def Let_def
  by (intro accepted_intros accepted_rejected) (auto simp: cid_says_def accepted_def bit_simps PIBIT_SPIN_SHIFT_def PIBIT_BITS_SHIFT_def)

lemma gquic_parts_cid:
  assumes "cid_says d pkt"
  shows "accepted (cid_says d) (gquic_packno_part is_server pkt flags p)"
    and "accepted (cid_says d) (gquic_nonce_part is_server pkt flags p)"
    and "accepted (cid_says d) (gquic_version_part is_server pkt flags p)"
proof -
  have 1: "accepted (cid_says d) (gquic_packno_part is_server pkt flags p)" if "cid_says d pkt" for pkt flags p
    using that by (auto simp: gquic_packno_part_def Let_def accepted_def cid_says_def bit_simps PIBIT_BITS_SHIFT_def PI_GQUIC_def)
  have 2: "accepted (cid_says d) (gquic_nonce_part is_server pkt flags p)" if "cid_says d pkt" for pkt flags p
    using that unfolding gquic_nonce_part_def by (intro accepted_intros accepted_rejected 1) simp_all
  show "accepted (cid_says d) (gquic_version_part is_server pkt flags p)"
    using assms unfolding gquic_version_part_def Let_def by (intro accepted_intros accepted_rejected 2) simp_all
  show "accepted (cid_says d) (gquic_packno_part is_server pkt flags p)" "accepted (cid_says d) (gquic_nonce_part is_server pkt flags p)"
    using 1 2 assms by simp_all
qed

lemma gquic_cid:
  "\<not> bit (pi_flags pkt) 2 \<Longrightarrow> accepted (cid_says (take 8 (drop 1 (pi_data pkt)))) (lsquic_gquic_parse_packet_in_begin pkt True cid_len st)"
  unfolding lsquic_gquic_parse_packet_in_begin_def Let_def
  by (intro accepted_intros accepted_rejected gquic_parts_cid(3)) (auto simp: cid_says_def)

lemma TAG_Q046_4: "5 \<le> length data \<Longrightarrow> take 4 (drop 1 data) = TAG_Q046 \<Longrightarrow> data ! 4 = 0x36"
  using nth_take [of 3 4 "drop 1 data"] nth_drop [of 1 data 3] by (simp add: TAG_Q046_def)

lemma TAG_Q050_4: "5 \<le> length data \<Longrightarrow> take 4 (drop 1 data) = TAG_Q050 \<Longrightarrow> data ! 4 \<noteq> 0x36"
  using nth_take [of 3 4 "drop 1 data"] nth_drop [of 1 data 3] by (simp add: TAG_Q050_def)

text \<open>A Q046 length byte is too large for the other long headers.\<close>

lemma nibble_big: "cid_len_nibble (drop_bit 4 b) = 8 \<Longrightarrow> MAX_CID_LEN < unat b"
proof -
  assume "cid_len_nibble (drop_bit 4 b) = 8"
  then have "unat (drop_bit 4 b) = 5" by (simp add: cid_len_nibble_def split: if_splits)
  moreover have "unat (drop_bit 4 b) = drop_bit 4 (unat b)"
    unfolding unsigned_drop_bit_eq using unat_lt_exp [of 8 b] by (simp add: take_bit_nat_eq_self)
  ultimately have "unat b div 16 = 5" by (simp add: drop_bit_eq_div)
  then show ?thesis by (simp add: MAX_CID_LEN_def)
qed

lemma v1_long_big: "MAX_CID_LEN < unat (pi_data pkt ! 5) \<Longrightarrow> accepted (\<lambda>_. False) (lsquic_ietf_v1_parse_packet_in_long_begin pkt is_server cid_len st)"
  by (simp add: lsquic_ietf_v1_parse_packet_in_long_begin_def rd_def rd_mem_def accepted_def Let_def)

lemma Q050_long_big: "MAX_CID_LEN < unat (pi_data pkt ! 5) \<Longrightarrow> accepted (\<lambda>_. False) (lsquic_Q050_parse_packet_in_long_begin pkt is_server cid_len st)"
  by (simp add: lsquic_Q050_parse_packet_in_long_begin_def rd_def rd_mem_def accepted_def Let_def)

lemma accepted_cid: "accepted (cid_says d) r \<Longrightarrow> r = PARSED (pkt, st) \<Longrightarrow> bit (pi_flags pkt) 2 \<Longrightarrow> pi_dcid pkt = d"
  by (auto simp: accepted_def cid_says_def)

lemma dcid_Q046: "dcid_Q046_long buf = PARSED (off, len) \<Longrightarrow> off = 6 \<and> len = 8 \<and> cid_len_nibble (drop_bit 4 (buf ! 5)) = 8"
  by (auto simp: dcid_Q046_long_def rd_def GQUIC_CID_LEN_def split: if_splits)

lemma Q046_long_len:
  "lsquic_Q046_parse_packet_in_long_begin pkt True cid_len st = PARSED r \<Longrightarrow> cid_len_nibble (drop_bit 4 (pi_data pkt ! 5)) = cid_len"
  by (auto simp: lsquic_Q046_parse_packet_in_long_begin_def rd_def rd_mem_def Let_def split: if_splits)

lemma long_dcid:
  assumes "parse_ietf_v1_or_Q046plus_long_begin pkt True cid_len st = PARSED (pkt', st')" "\<not> bit (pi_flags pkt) 2" "bit (pi_flags pkt') 2"
    and "pi_data pkt ! 4 = 0x36 \<Longrightarrow> cid_len_nibble (drop_bit 4 (pi_data pkt ! 5)) = 8"
  shows "pi_dcid pkt' = (if pi_data pkt ! 4 = 0x36 then take 8 (drop 6 (pi_data pkt)) else take (unat (pi_data pkt ! 5)) (drop 6 (pi_data pkt)))"
proof -
  let ?d = "pi_data pkt" and ?tag = "take 4 (drop 1 (pi_data pkt))"
  have len: "5 \<le> length ?d" using assms(1) by (simp add: parse_ietf_v1_or_Q046plus_long_begin_def split: if_splits)
  consider (q46) "?tag = TAG_Q046" | (q50) "?tag = TAG_Q050" "?tag \<noteq> TAG_Q046" | (v1) "?tag \<noteq> TAG_Q046" "?tag \<noteq> TAG_Q050" by blast
  then show ?thesis
  proof cases
    case q46
    then have p: "lsquic_Q046_parse_packet_in_long_begin pkt True cid_len st = PARSED (pkt', st')"
      using assms(1) len by (simp add: parse_ietf_v1_or_Q046plus_long_begin_def rd_mem_def)
    from TAG_Q046_4 [OF len q46] show ?thesis
      using accepted_cid [OF Q046_long_cid p assms(3)] Q046_long_len [OF p] assms(4) by simp
  next
    case q50
    then have p: "lsquic_Q050_parse_packet_in_long_begin pkt True cid_len st = PARSED (pkt', st')"
      using assms(1) len by (simp add: parse_ietf_v1_or_Q046plus_long_begin_def rd_mem_def)
    from TAG_Q050_4 [OF len q50(1)] show ?thesis
      using accepted_cid [OF Q050_long_cid [OF assms(2)] p assms(3)] by simp
  next
    case v1
    then have p: "lsquic_ietf_v1_parse_packet_in_long_begin pkt True cid_len st = PARSED (pkt', st')"
      using assms(1) len by (simp add: parse_ietf_v1_or_Q046plus_long_begin_def rd_mem_def)
    have "?d ! 4 \<noteq> 0x36"
      using v1_long_big [of pkt True cid_len st] nibble_big assms(4) p by (auto simp: accepted_def)
    then show ?thesis using accepted_cid [OF v1_long_cid p assms(3)] by simp
  qed
qed

text \<open>
  C36. The quick look-up of the destination connection ID, used to find the connection of a packet, and
  the header parser of the server agree on it for every packet both accept (gQUIC packets provided that
  the server uses connection IDs of eight bytes).
\<close>

theorem dcid_lookup_agrees:
  assumes "lsquic_dcid_from_packet (pi_data pkt) cid_len = PARSED (off, len)"
    and "lsquic_parse_packet_in_server_begin pkt cid_len st = PARSED (pkt', st')"
    and "pi_flags pkt AND PI_CONN_ID = 0" "pi_flags pkt' AND PI_CONN_ID \<noteq> 0"
    and "cid_len = 8 \<or> parse_begin_funcs ! unat (drop_bit 3 (pi_data pkt ! 0)) \<noteq> GQUIC"
  shows "pi_dcid pkt' = take len (drop off (pi_data pkt))"
proof -
  let ?d = "pi_data pkt"
  have fl: "\<not> bit (pi_flags pkt) 2" "bit (pi_flags pkt') 2" using assms(3,4) conn_id_flag by blast+
  have ne: "?d \<noteq> []" using assms(2) by (auto simp: lsquic_parse_packet_in_server_begin_def)
  let ?f = "parse_begin_funcs ! unat (drop_bit 3 (?d ! 0))"
  have c: "call_begin ?f pkt True cid_len st = PARSED (pkt', st')"
    using assms(2) ne by (simp add: lsquic_parse_packet_in_server_begin_def rd_def)
  note look = assms(1) [unfolded lsquic_dcid_from_packet_def rd_def]
  show ?thesis
  proof (cases ?f)
    case Q046_LONG
    then have p: "lsquic_Q046_parse_packet_in_long_begin pkt True cid_len st = PARSED (pkt', st')" using c by simp
    have "dcid_Q046_long ?d = PARSED (off, len)" using look Q046_LONG ne by (auto split: if_splits)
    from dcid_Q046 [OF this] show ?thesis
      using accepted_cid [OF Q046_long_cid p fl(2)] Q046_long_len [OF p] by simp
  next
    case V1_OR_Q046PLUS_LONG
    then have p: "parse_ietf_v1_or_Q046plus_long_begin pkt True cid_len st = PARSED (pkt', st')" using c by simp
    have l: "if ?d ! 4 = 0x36 then dcid_Q046_long ?d = PARSED (off, len) else off = 6 \<and> len = unat (?d ! 5)"
      using look V1_OR_Q046PLUS_LONG ne by (auto simp: Let_def split: if_splits)
    then show ?thesis
      using long_dcid [OF p fl] dcid_Q046 [of ?d off len] by (auto split: if_splits)
  next
    case V1_SHORT
    then have p: "lsquic_ietf_v1_parse_packet_in_short_begin pkt True cid_len st = PARSED (pkt', st')" using c by simp
    have "off = 1 \<and> len = cid_len" using look V1_SHORT ne by (auto split: if_splits)
    then show ?thesis using accepted_cid [OF v1_short_cid [OF fl(1)] p fl(2)] by simp
  next
    case Q046_SHORT
    then have p: "lsquic_Q046_parse_packet_in_short_begin pkt True cid_len st = PARSED (pkt', st')" using c by simp
    have "off = 1 \<and> len = cid_len" using look Q046_SHORT ne by (auto split: if_splits)
    then show ?thesis using accepted_cid [OF Q046_short_cid p fl(2)] by simp
  next
    case GQUIC
    then have p: "lsquic_gquic_parse_packet_in_begin pkt True cid_len st = PARSED (pkt', st')" using c by simp
    have "off = 1 \<and> len = cid_len" using look GQUIC ne by (auto split: if_splits)
    then show ?thesis using accepted_cid [OF gquic_cid [OF fl(1)] p fl(2)] assms(5) GQUIC by simp
  qed
qed

definition short_packet :: bytes where
  "short_packet = [0x40, 1, 2, 3, 4, 5, 6, 7, 8, 9, 10]"

theorem dcid_lookup_agrees_witness:
  "\<exists>pkt' st'. lsquic_parse_packet_in_server_begin (blank_packet short_packet) 8 \<lparr>pps_p = None, pps_nbytes = 0\<rparr> = PARSED (pkt', st')
     \<and> pi_dcid pkt' = take 8 (drop 1 (pi_data (blank_packet short_packet)))"
proof -
  let ?p = "blank_packet short_packet" and ?st = "\<lparr>pps_p = None, pps_nbytes = 0\<rparr>"
  have l: "lsquic_dcid_from_packet (pi_data ?p) 8 = PARSED (1, 8)"
    by (simp add: blank_packet_def lsquic_dcid_from_packet_def parse_begin_funcs_def rd_def short_packet_def nth_append)
  obtain pkt' st' where p: "lsquic_parse_packet_in_server_begin ?p 8 ?st = PARSED (pkt', st')" "pi_flags pkt' AND PI_CONN_ID \<noteq> 0"
    by (simp add: lsquic_parse_packet_in_server_begin_def parse_begin_funcs_def rd_def rd_mem_def short_packet_def nth_append
        lsquic_ietf_v1_parse_packet_in_short_begin_def Let_def blank_packet_def PI_CONN_ID_def PIBIT_SPIN_SHIFT_def PIBIT_BITS_SHIFT_def)
  have "pi_flags ?p AND PI_CONN_ID = 0" by (simp add: blank_packet_def)
  from dcid_lookup_agrees [OF l p(1) this p(2)] p(1) show ?thesis by blast
qed

text \<open>
  For gQUIC packets the quick look-up reports the length the server uses for its own connection
  IDs although it has only checked for eight bytes: with longer connection IDs it points past the packet.
\<close>

theorem gquic_dcid_overrun:
  "lsquic_dcid_from_packet [8, 1, 2, 3, 4, 5, 6, 7, 8] 18 = PARSED (1, 18)"
  by (simp add: lsquic_dcid_from_packet_def parse_begin_funcs_def rd_def GQUIC_CID_LEN_def)

section \<open>The validity check\<close>

lemma lengths_agree:
  assumes "length buf \<le> 65535"
  shows "(\<exists>r. read_token buf True pkt p (read_payload_len buf) = PARSED r) \<longleftrightarrow> valid_lengths buf tag p = PARSED tag"
proof -
  have pl: "(\<exists>r. read_payload_len buf pkt q = PARSED r) \<longleftrightarrow>
      (if q \<ge> length buf then REJECTED else rd_vint buf q (\<lambda>r payload_len. let p = q + r in
         if p + unat payload_len > length buf then REJECTED else if length buf - p < 4 then REJECTED else PARSED tag)) = PARSED tag"
    for pkt q
    by (auto simp: read_payload_len_def rd_vint_def finish_long_def Let_def split: option.split)
  show ?thesis
  proof (cases "lsquic_varint_read (drop p buf)")
    case None
    then show ?thesis by (simp add: read_token_def valid_lengths_def rd_vint_def)
  next
    case (Some rv)
    obtain r v where rv: "rv = (r, v)" by (cases rv)
    have big: "65536 \<le> unat v" if "push_bit 16 1 \<le> v" using that by (simp add: word_le_nat_alt)
    have v: "valid_lengths buf tag p = (if p + r + unat v \<ge> length buf then REJECTED
        else rd_vint buf (p + r + unat v) (\<lambda>r' payload_len. let q = p + r + unat v + r' in
         if q + unat payload_len > length buf then REJECTED else if length buf - q < 4 then REJECTED else PARSED tag))"
      by (simp add: valid_lengths_def rd_vint_def [of buf p] Some rv Let_def)
    have t: "read_token buf True pkt p (read_payload_len buf) =
       (if v \<noteq> 0 then if v \<ge> push_bit 16 1 then REJECTED else if p + r + unat v > length buf then REJECTED
          else read_payload_len buf (pkt\<lparr>pi_token := of_nat (p + r), pi_token_size := ucast v\<rparr>) (p + r + unat v)
        else read_payload_len buf pkt (p + r))"
      by (simp add: read_token_def rd_vint_def [of buf p] Some rv Let_def)
    consider "v = 0" | "v \<noteq> 0" "push_bit 16 1 \<le> v \<or> p + r + unat v > length buf" | "v \<noteq> 0" "\<not> push_bit 16 1 \<le> v" "\<not> p + r + unat v > length buf" by blast
    then show ?thesis
    proof cases
      case 1
      then show ?thesis unfolding v t using pl [of pkt "p + r"] by simp
    next
      case 2
      then have "length buf \<le> p + r + unat v" using big assms by auto
      then show ?thesis unfolding v t using 2 by auto
    next
      case 3
      then show ?thesis unfolding v t using pl [of "pkt\<lparr>pi_token := of_nat (p + r), pi_token_size := ucast v\<rparr>" "p + r + unat v"] by simp
    qed
  qed
qed

text \<open>
  C37. For Initial packets of IETF QUIC in a datagram the validity check that guards the engine accepts
  exactly the packets whose header the server then parses.
\<close>

theorem valid_initial_iff_parsed:
  assumes "length (pi_data pkt) \<le> 65535" "drop_bit 4 (pi_data pkt ! 0) AND 3 = 0"
    and "take 4 (drop 1 (pi_data pkt)) \<notin> {[0, 0, 0, 0], TAG_Q046, TAG_Q050}"
  shows "lsquic_is_valid_ietf_v1_or_Q046plus_hs_packet (pi_data pkt) = PARSED (take 4 (drop 1 (pi_data pkt)))
    \<longleftrightarrow> (\<exists>r. lsquic_ietf_v1_parse_packet_in_long_begin pkt True cid_len st = PARSED r)"
proof (cases "length (pi_data pkt) < 6")
  case False
  let ?d = "pi_data pkt"
  have h: "bits2ht (drop_bit 4 (?d ! 0) AND 3) = HETY_INITIAL" using assms(2) by (simp add: bits2ht_def)
  show ?thesis
    using False assms(3) h lengths_agree [OF assms(1), symmetric, of "take 4 (drop 1 ?d)"]
    by (auto simp: lsquic_is_valid_ietf_v1_or_Q046plus_hs_packet_def lsquic_ietf_v1_parse_packet_in_long_begin_def
        rd_def rd_mem_def Let_def)
qed (simp_all add: lsquic_is_valid_ietf_v1_or_Q046plus_hs_packet_def lsquic_ietf_v1_parse_packet_in_long_begin_def)

theorem valid_initial_iff_parsed_witness:
  "\<exists>r. lsquic_ietf_v1_parse_packet_in_long_begin (blank_packet initial_packet) True 8 \<lparr>pps_p = None, pps_nbytes = 0\<rparr> = PARSED r"
proof -
  have d: "pi_data (blank_packet initial_packet) = initial_packet" by (simp add: blank_packet_def)
  have "lsquic_is_valid_ietf_v1_or_Q046plus_hs_packet initial_packet = PARSED (take 4 (drop 1 initial_packet))"
    by (simp add: lsquic_is_valid_ietf_v1_or_Q046plus_hs_packet_def initial_packet_def rd_def rd_mem_def rd_vint_def bits2ht_def
        TAG_Q046_def TAG_Q050_def MIN_INITIAL_DCID_LEN_def MAX_CID_LEN_def valid_lengths_def lsquic_varint_read_def VINT_MASK_def Let_def)
  then show ?thesis
    using valid_initial_iff_parsed [of "blank_packet initial_packet" 8 "\<lparr>pps_p = None, pps_nbytes = 0\<rparr>"] unfolding d
    by (simp add: initial_packet_def TAG_Q046_def TAG_Q050_def)
qed

text \<open>
  The look-up of a connection ID through the full parser tests a flag of a packet structure that
  nobody initialised: for a packet without connection ID the outcome depends on what the memory held.
\<close>

theorem cid_from_packet_uninitialised:
  "lsquic_cid_from_packet (blank_packet []) st [0xE0, 0, 0, 0, 1, 0, 0, 4, 0, 0, 0, 0] = REJECTED
   \<and> lsquic_cid_from_packet ((blank_packet [])\<lparr>pi_flags := PI_CONN_ID\<rparr>) st [0xE0, 0, 0, 0, 1, 0, 0, 4, 0, 0, 0, 0] = PARSED []"
  by (simp add: lsquic_cid_from_packet_def lsquic_parse_packet_in_server_begin_def parse_begin_funcs_def blank_packet_def rd_def
      rd_mem_def rd_vint_def parse_ietf_v1_or_Q046plus_long_begin_def TAG_Q046_def TAG_Q050_def
      lsquic_ietf_v1_parse_packet_in_long_begin_def MAX_CID_LEN_def read_payload_len_def finish_long_def lsquic_varint_read_def
      VINT_MASK_def bits2ht_def Let_def nth_append PI_CONN_ID_def)

end
