(* ===== verification/Packet_Out.thy ===== *)
theory Packet_Out
  imports Packet_Safety Packet_Frames Packno
begin

text \<open>
  Outgoing packet headers (\<^verbatim>\<open>lsquic_parse_ietf_v1.c\<close>), version tags
  (\<^verbatim>\<open>lsquic_version.c\<close>) and version negotiation packets, with the iterator that a client uses on them
  (\<^verbatim>\<open>lsquic_packet_in.c\<close>).  The records hold the members of \<^verbatim>\<open>struct lsquic_conn\<close> and
  \<^verbatim>\<open>struct lsquic_packet_out\<close> that the header depends on.
\<close>

section \<open>Definitions\<close>

unbundle bit_operations_syntax

record hdr_conn =
  cn_version :: lsquic_version
  cn_scid :: bytes
  cn_handshake_done :: bool          \<comment> \<open>\<^verbatim>\<open>cn_flags & LSCONN_HANDSHAKE_DONE\<close>\<close>
  esf_tag_len :: nat

record packet_out =
  po_packno :: packno
  po_flags :: u32
  po_lflags :: u16
  po_data_sz :: u16
  po_token :: bytes                  \<comment> \<open>with \<^verbatim>\<open>po_token_len\<close>\<close>
  po_header_type :: header_type
  np_dcid :: bytes                   \<comment> \<open>of \<^verbatim>\<open>po_path\<close>\<close>

definition lsquic_packet_out_packno_bits :: "packet_out \<Rightarrow> nat" where
  "lsquic_packet_out_packno_bits p = unat (drop_bit 5 (po_flags p) AND 3)"

definition po_conn_id :: "u32 \<Rightarrow> bool" where
  "po_conn_id flags \<longleftrightarrow> flags AND push_bit 9 1 \<noteq> 0"

fun version_tags :: "lsquic_version \<Rightarrow> bytes" where
  "version_tags LSQVER_043 = [0x51, 0x30, 0x34, 0x33]"
| "version_tags LSQVER_046 = [0x51, 0x30, 0x34, 0x36]"
| "version_tags LSQVER_050 = [0x51, 0x30, 0x35, 0x30]"
| "version_tags LSQVER_ID27 = [0xFF, 0, 0, 27]"
| "version_tags LSQVER_ID29 = [0xFF, 0, 0, 29]"
| "version_tags LSQVER_I001 = [0, 0, 0, 1]"
| "version_tags LSQVER_VERNEG = [0xFA, 0xFA, 0xFA, 0xFA]"

text \<open>The enumerators in order; a number without enumerator has the tag zero.\<close>

definition all_versions :: "lsquic_version list" where
  "all_versions = [LSQVER_043, LSQVER_046, LSQVER_050, LSQVER_ID27, LSQVER_ID29, LSQVER_I001, LSQVER_VERNEG]"

definition lsquic_ver2tag :: "nat \<Rightarrow> bytes" where
  "lsquic_ver2tag version = (if version < length all_versions then version_tags (all_versions ! version) else [0, 0, 0, 0])"

fun tag2ver_from :: "lsquic_version list \<Rightarrow> bytes \<Rightarrow> lsquic_version option" where
  "tag2ver_from [] tag = None"
| "tag2ver_from (v # vs) tag = (if version_tags v = tag then Some v else tag2ver_from vs tag)"

definition lsquic_tag2ver :: "bytes \<Rightarrow> lsquic_version option" where
  "lsquic_tag2ver tag = tag2ver_from all_versions tag"

text \<open>The loop runs while bits are left, at most 32 times; \<open>space\<close> is the room left in the buffer.\<close>

fun gen_ver_tags_from :: "nat \<Rightarrow> nat \<Rightarrow> nat \<Rightarrow> u32 \<Rightarrow> bytes option" where
  "gen_ver_tags_from 0 n space versions = (if versions = 0 then Some [] else None)"
| "gen_ver_tags_from (Suc fuel) n space versions =
     (if versions = 0 then Some []
      else if bit versions n then
        if 4 > space then None
        else let tag = lsquic_ver2tag n in
          if tag = [0, 0, 0, 0] then None
          else map_option (\<lambda>r. tag @ r) (gen_ver_tags_from fuel (n + 1) (space - 4) (versions AND NOT (push_bit n 1)))
      else gen_ver_tags_from fuel (n + 1) space versions)"

definition lsquic_gen_ver_tags :: "nat \<Rightarrow> u32 \<Rightarrow> bytes option" where
  "lsquic_gen_ver_tags bufsz version_bitmask = gen_ver_tags_from 32 0 bufsz version_bitmask"

definition popcount :: "u32 \<Rightarrow> nat" where
  "popcount v = length (filter (bit v) [0..<32])"

definition ietf_v1_packout_header_size_long_by_flags :: "hdr_conn \<Rightarrow> header_type \<Rightarrow> u32 \<Rightarrow> nat \<Rightarrow> nat" where
  "ietf_v1_packout_header_size_long_by_flags lconn header_type flags dcid_len =
     1 + 4 + 1 + dcid_len + 1 + length (cn_scid lconn) + of_bool (header_type = HETY_INITIAL) + 2
       + iquic_packno_bits2len (unat (drop_bit 5 flags AND 3))"

definition ietf_v1_packout_header_size_long_by_packet :: "hdr_conn \<Rightarrow> packet_out \<Rightarrow> nat" where
  "ietf_v1_packout_header_size_long_by_packet lconn po =
     1 + 4 + 1 + length (np_dcid po) + 1 + length (cn_scid lconn)
       + (if po_header_type po = HETY_INITIAL
          then 2 ^ vint_val2bits (of_nat (length (po_token po))) + length (po_token po) else 0)
       + 2 + iquic_packno_bits2len (lsquic_packet_out_packno_bits po)"

definition ietf_v1_packout_header_size_short :: "u32 \<Rightarrow> nat \<Rightarrow> nat" where
  "ietf_v1_packout_header_size_short flags dcid_len =
     1 + (if po_conn_id flags then dcid_len else 0) + iquic_packno_bits2len (unat (drop_bit 5 flags AND 3))"

definition ietf_v1_packout_max_header_size :: "hdr_conn \<Rightarrow> u32 \<Rightarrow> nat \<Rightarrow> header_type \<Rightarrow> nat" where
  "ietf_v1_packout_max_header_size lconn flags dcid_len header_type =
     (if cn_handshake_done lconn \<and> header_type = HETY_NOT_SET
      then ietf_v1_packout_header_size_short flags dcid_len
      else ietf_v1_packout_header_size_long_by_flags lconn header_type flags dcid_len)"

fun header_type_to_bin :: "header_type \<Rightarrow> u8" where
  "header_type_to_bin HETY_INITIAL = 0"
| "header_type_to_bin HETY_0RTT = 1"
| "header_type_to_bin HETY_HANDSHAKE = 2"
| "header_type_to_bin HETY_RETRY = 3"
| "header_type_to_bin _ = 0"

text \<open>The results are the header, the offset of the packet number and its length.\<close>

definition gen_long_pkt_header :: "hdr_conn \<Rightarrow> packet_out \<Rightarrow> nat \<Rightarrow> (bytes \<times> nat \<times> nat) option" where
  "gen_long_pkt_header lconn po bufsz =
     (if ietf_v1_packout_header_size_long_by_packet lconn po > bufsz then None
      else let packno_bits = lsquic_packet_out_packno_bits po;
               p = [0xC0 OR push_bit 4 (header_type_to_bin (po_header_type po)) OR of_nat packno_bits]
                 @ version_tags (cn_version lconn)
                 @ [of_nat (length (np_dcid po))] @ np_dcid po
                 @ [of_nat (length (cn_scid lconn))] @ cn_scid lconn
                 @ (if po_header_type po = HETY_INITIAL
                    then vwrite (of_nat (length (po_token po))) @ po_token po else []);
               payload_len = unat (po_data_sz po) + esf_tag_len lconn + iquic_packno_bits2len packno_bits;
               p = p @ vint_write (of_nat payload_len) 1 (2 ^ 1)
           in Some (p @ write_packno (po_packno po) packno_bits, length p, iquic_packno_bits2len packno_bits))"

definition gen_short_pkt_header :: "hdr_conn \<Rightarrow> packet_out \<Rightarrow> nat \<Rightarrow> (bytes \<times> nat \<times> nat) option" where
  "gen_short_pkt_header lconn po bufsz =
     (let packno_bits = lsquic_packet_out_packno_bits po;
          packno_len = iquic_packno_bits2len packno_bits;
          cid_len = (if po_conn_id (po_flags po) then length (np_dcid po) else 0);
          need = 1 + cid_len + packno_len in
      if need > bufsz then None
      else Some ([0x40 OR push_bit 5 (of_bool (bit (po_flags po) 30)) OR push_bit 4 (of_bool (bit (po_lflags po) 7))
                  OR push_bit 3 (of_bool (bit (po_lflags po) 8)) OR push_bit 2 (of_bool (bit (po_lflags po) 3))
                  OR of_nat packno_bits]
                 @ take cid_len (np_dcid po) @ write_packno (po_packno po) packno_bits, 1 + cid_len, packno_len))"

definition ietf_v1_gen_reg_pkt_header :: "hdr_conn \<Rightarrow> packet_out \<Rightarrow> nat \<Rightarrow> (bytes \<times> nat \<times> nat) option" where
  "ietf_v1_gen_reg_pkt_header lconn po bufsz =
     (if po_header_type po = HETY_NOT_SET then gen_short_pkt_header lconn po bufsz else gen_long_pkt_header lconn po bufsz)"

definition ietf_v1_packout_size :: "hdr_conn \<Rightarrow> packet_out \<Rightarrow> nat" where
  "ietf_v1_packout_size lconn po =
     (if cn_handshake_done lconn \<and> po_header_type po = HETY_NOT_SET
      then ietf_v1_packout_header_size_short (po_flags po) (length (np_dcid po))
      else ietf_v1_packout_header_size_long_by_packet lconn po)
     + unat (po_data_sz po) + esf_tag_len lconn"

definition lsquic_ietf_v1_gen_ver_nego_pkt :: "nat \<Rightarrow> bytes \<Rightarrow> bytes \<Rightarrow> u32 \<Rightarrow> u8 \<Rightarrow> bytes option" where
  "lsquic_ietf_v1_gen_ver_nego_pkt bufsz scid dcid versions rand =
     (let need = 1 + 4 + 1 + length dcid + 1 + length scid + popcount versions * 4 in
      if need > bufsz then None
      else map_option (\<lambda>tags. [0x80 OR 0x40 OR rand] @ [0, 0, 0, 0] @ [of_nat (length dcid)] @ dcid
                        @ [of_nat (length scid)] @ scid @ tags)
             (lsquic_gen_ver_tags (bufsz - 1 - 4 - 2 - length dcid - length scid) versions))"

text \<open>The version iterator is the offset of the next tag.\<close>

definition lsquic_packet_in_ver_next :: "lsquic_packet_in \<Rightarrow> nat \<Rightarrow> (nat \<times> bytes) option" where
  "lsquic_packet_in_ver_next pkt off =
     (if off + 4 \<le> unat (pi_header_sz pkt) then Some (off + 4, take 4 (drop off (pi_data pkt))) else None)"

definition lsquic_packet_in_ver_first :: "lsquic_packet_in \<Rightarrow> (nat \<times> bytes) option" where
  "lsquic_packet_in_ver_first pkt = lsquic_packet_in_ver_next pkt (unat (pi_quic_ver pkt))"

definition lsquic_scid_from_packet_in :: "lsquic_packet_in \<Rightarrow> bytes" where
  "lsquic_scid_from_packet_in pkt = take (unat (pi_scid_len pkt)) (drop (unat (pi_scid_off pkt)) (pi_data pkt))"

section \<open>Reading along a layout\<close>

lemma rd_drop: "drop p data = b # r \<Longrightarrow> rd data p k = k b"
  by (auto simp: rd_def nth_via_drop)

lemma rd_mem_drop: "drop p data = xs @ r \<Longrightarrow> length xs = n \<Longrightarrow> p \<le> length data \<Longrightarrow> rd_mem data p n k = k xs"
proof -
  assume a: "drop p data = xs @ r" "length xs = n" "p \<le> length data"
  have "length data - p = n + length r" using arg_cong [OF a(1), of length] a(2) by simp
  then have "p + n \<le> length data" using a(3) by linarith
  with a show ?thesis by (simp add: rd_mem_def)
qed

lemma drop_step: "drop p data = xs @ r \<Longrightarrow> drop (p + length xs) data = r"
  by (metis add.commute append_eq_conv_conj drop_drop)

lemma drop_step1: "drop p data = b # r \<Longrightarrow> drop (p + 1) data = r"
  using drop_step [of p data "[b]" r] by simp

lemma rd_vint_drop: "drop p data = vs @ r \<Longrightarrow> lsquic_varint_read (vs @ r) = Some (n, v) \<Longrightarrow> rd_vint data p k = k n v"
  by (simp add: rd_vint_def)

lemma unat_len_byte: "n \<le> MAX_CID_LEN \<Longrightarrow> unat (of_nat n :: u8) = n"
  by (simp add: unat_of_nat MAX_CID_LEN_def)

text \<open>The part of a long header that header protection leaves alone, after the first byte.\<close>

definition long_layout :: "bytes \<Rightarrow> bytes \<Rightarrow> bytes \<Rightarrow> bytes option \<Rightarrow> nat \<Rightarrow> bytes" where
  "long_layout tag dcid scid token payload_len =
     tag @ [of_nat (length dcid)] @ dcid @ [of_nat (length scid)] @ scid
       @ (case token of None \<Rightarrow> [] | Some t \<Rightarrow> vwrite (of_nat (length t)) @ t) @ vint_write (of_nat payload_len) 1 2"

lemma read_payload_layout:
  assumes "drop p data = vint_write (of_nat n) 1 2 @ tail" "n < 16384" "n \<le> length tail" "4 \<le> length tail" "length data \<le> 65535" "p < length data"
  shows "read_payload_len data pkt p = finish_long (pkt\<lparr>pi_quic_ver := 1\<rparr>) (p + 2) (p + 2 + n) \<lparr>pps_p = Some p, pps_nbytes = 2\<rparr>"
proof -
  have v: "lsquic_varint_read (vint_write (of_nat n) 1 2 @ tail) = Some (2, of_nat n)"
    using varint_read_write [of 1 "of_nat n" tail] assms(2) by (simp add: unat_of_nat)
  have l: "length data = p + 2 + length tail"
    using arg_cong [OF assms(1), of length] assms(6) by simp
  have u: "unat (of_nat n :: u64) = n" using assms(2) by (simp add: unat_of_nat)
  show ?thesis
    using assms(3,4,6) l u by (simp add: read_payload_len_def rd_vint_drop [OF assms(1) v] Let_def)
qed

lemma read_token_layout:
  assumes "drop p data = vwrite (of_nat (length t)) @ t @ r" "length t < 65536" "t \<noteq> [] \<longrightarrow> is_server" "length data \<le> 65535" "p < length data"
  shows "\<exists>off. read_token data is_server pkt p k
      = k (if t = [] then pkt else pkt\<lparr>pi_token := of_nat off, pi_token_size := of_nat (length t)\<rparr>) (p + vint_size (of_nat (length t)) + length t)
    \<and> off = p + vint_size (of_nat (length t)) \<and> drop off data = t @ r"
proof -
  let ?n = "of_nat (length t) :: u64"
  have v: "lsquic_varint_read (vwrite ?n @ t @ r) = Some (vint_size ?n, ?n)"
    using assms(2) by (intro varint_read_vwrite) (simp add: frame_simps)
  have u: "unat ?n = length t" using assms(2) by (simp add: unat_of_nat)
  have z: "?n = 0 \<longleftrightarrow> t = []" unfolding word_unat_eq_iff u by simp
  have big: "\<not> push_bit 16 1 \<le> ?n" using assms(2) u by (simp add: word_le_nat_alt)
  have c: "ucast ?n = (of_nat (length t) :: u16)" by (rule bit_word_eqI) (auto simp: bit_simps)
  have l: "length data = p + vint_size ?n + length t + length r"
    using arg_cong [OF assms(1), of length] assms(5) by (simp add: frame_simps)
  have d: "drop (p + vint_size ?n) data = t @ r"
    using drop_step [OF assms(1)] by (simp add: length_vwrite)
  show ?thesis
    using assms(3) l d z big u c unfolding read_token_def rd_vint_drop [OF assms(1) v] Let_def by auto
qed

text \<open>What the parser has recorded of a long header when it reaches the token or the length field.\<close>

definition long_head :: "bytes \<Rightarrow> header_type \<Rightarrow> bytes \<Rightarrow> bytes \<Rightarrow> lsquic_packet_in" where
  "long_head data ht dcid scid =
     (let pkt = (blank_packet data)\<lparr>pi_header_type := ht\<rparr>;
          pkt = (if length dcid \<noteq> 0 then pkt\<lparr>pi_dcid := dcid, pi_flags := pi_flags pkt OR PI_CONN_ID\<rparr> else pkt\<lparr>pi_dcid := []\<rparr>)
      in (if length scid \<noteq> 0 then pkt\<lparr>pi_scid_off := of_nat (6 + length dcid + 1)\<rparr> else pkt)\<lparr>pi_scid_len := of_nat (length scid)\<rparr>)"

lemma long_head_simps [simp]:
  "pi_header_type (long_head data ht dcid scid) = ht" "pi_dcid (long_head data ht dcid scid) = dcid"
  "pi_data (long_head data ht dcid scid) = data" "pi_token_size (long_head data ht dcid scid) = 0"
  by (auto simp: long_head_def Let_def blank_packet_def)

lemma long_head_scid:
  assumes "length dcid \<le> MAX_CID_LEN" "length scid \<le> MAX_CID_LEN" "drop (6 + length dcid + 1) data = scid @ r"
  shows "take (unat (pi_scid_len (long_head data ht dcid scid))) (drop (unat (pi_scid_off (long_head data ht dcid scid))) data) = scid"
proof -
  have "unat (pi_scid_len (long_head data ht dcid scid)) = length scid"
    using unat_len_byte [OF assms(2)] by (simp add: long_head_def Let_def)
  moreover have "unat (pi_scid_off (long_head data ht dcid scid)) = 6 + length dcid + 1" if "length scid \<noteq> 0"
    using that assms(1) by (simp add: long_head_def Let_def MAX_CID_LEN_def unat_of_nat del: of_nat_add of_nat_Suc)
  ultimately show ?thesis using assms(3) by (cases "length scid = 0") simp_all
qed

lemma parse_long_head:
  assumes data: "data = b0 # tag @ [of_nat (length dcid)] @ dcid @ [of_nat (length scid)] @ scid @ r" "r \<noteq> []"
    and tag: "length tag = 4"
    and ht: "(if tag = [0, 0, 0, 0] then HETY_VERNEG else bits2ht (drop_bit 4 b0 AND 3)) = ht" "ht \<in> {HETY_INITIAL, HETY_HANDSHAKE, HETY_0RTT, HETY_VERNEG}"
    and cids: "length dcid \<le> MAX_CID_LEN" "length scid \<le> MAX_CID_LEN" "ht = HETY_INITIAL \<and> is_server \<longrightarrow> 8 \<le> length dcid"
    and p: "p = 6 + length dcid + 1 + length scid"
  shows "lsquic_ietf_v1_parse_packet_in_long_begin (blank_packet data) is_server cid_len st =
      (if ht = HETY_INITIAL then read_token data is_server (long_head data ht dcid scid) p (read_payload_len data)
       else if ht = HETY_VERNEG then read_versions data (long_head data ht dcid scid) p
       else read_payload_len data (long_head data ht dcid scid) p)" (is ?parse)
    and "drop p data = r" "length data = p + length r"
    and "take (unat (pi_scid_len (long_head data ht dcid scid))) (drop (unat (pi_scid_off (long_head data ht dcid scid))) data) = scid"
proof -
  let ?dl = "length dcid" and ?sl = "length scid"
  have d1: "drop 1 data = tag @ [of_nat ?dl] @ dcid @ [of_nat ?sl] @ scid @ r" by (simp add: data)
  have d5: "drop 5 data = of_nat ?dl # dcid @ [of_nat ?sl] @ scid @ r" using drop_step [OF d1] tag by simp
  have d6: "drop 6 data = dcid @ [of_nat ?sl] @ scid @ r" using drop_step1 [OF d5] by simp
  have d7: "drop (6 + ?dl) data = of_nat ?sl # scid @ r" using drop_step [OF d6] by simp
  have d8: "drop (6 + ?dl + 1) data = scid @ r" by (rule drop_step1 [OF d7])
  show "drop p data = r" unfolding p by (rule drop_step [OF d8])
  show len: "length data = p + length r" using tag by (simp add: data p)
  show "take (unat (pi_scid_len (long_head data ht dcid scid))) (drop (unat (pi_scid_off (long_head data ht dcid scid))) data) = scid"
    by (rule long_head_scid [OF cids(1,2) d8])
  have pd: "pi_data (blank_packet data) = data" by (simp add: blank_packet_def)
  have r0: "rd data 0 k = k b0" for k :: "u8 \<Rightarrow> parse_result" by (simp add: data rd_def)
  have b: "\<not> length data < 6" "1 \<le> length data" "6 \<le> length data" "\<not> length data \<le> 6 + ?dl" "\<not> length data < 6 + ?dl + 1 + ?sl"
    using len data(2) p by auto
  note reads = r0 rd_mem_drop [OF d1 tag b(2)] rd_drop [OF d5] rd_mem_drop [OF d6 refl b(3)] rd_drop [OF d7]
  have m: "\<not> MAX_CID_LEN < ?dl" "\<not> MAX_CID_LEN < ?sl" using cids by simp_all
  show ?parse
    unfolding lsquic_ietf_v1_parse_packet_in_long_begin_def Let_def pd reads unat_len_byte [OF cids(1)] unat_len_byte [OF cids(2)]
      ht(1) p long_head_def MIN_INITIAL_DCID_LEN_def
    using ht(2) b m cids(3) by (elim insertE emptyE; simp; auto)
qed

lemma u16_of_nat: "k \<le> n \<Longrightarrow> n \<le> 65535 \<Longrightarrow> unat (of_nat k :: u16) = k"
  by (simp add: unat_of_nat)

lemma parse_long_layout:
  assumes data: "data = b0 # long_layout tag dcid scid token n @ tail"
    and tag: "length tag = 4" "tag \<noteq> [0, 0, 0, 0]"
    and ht: "bits2ht (drop_bit 4 b0 AND 3) = ht" "ht \<in> {HETY_INITIAL, HETY_HANDSHAKE, HETY_0RTT}" "token \<noteq> None \<longleftrightarrow> ht = HETY_INITIAL"
    and cids: "length dcid \<le> MAX_CID_LEN" "length scid \<le> MAX_CID_LEN" "ht = HETY_INITIAL \<and> is_server \<longrightarrow> 8 \<le> length dcid"
    and tok: "\<forall>t. token = Some t \<longrightarrow> length t < 65536 \<and> (t \<noteq> [] \<longrightarrow> is_server)"
    and n: "n < 16384" "n \<le> length tail" "4 \<le> length tail" "length data \<le> 65535"
  shows "\<exists>pkt' st'. lsquic_ietf_v1_parse_packet_in_long_begin (blank_packet data) is_server cid_len st = PARSED (pkt', st')
    \<and> pi_header_type pkt' = ht \<and> pi_dcid pkt' = dcid \<and> lsquic_scid_from_packet_in pkt' = scid
    \<and> take (unat (pi_token_size pkt')) (drop (unat (pi_token pkt')) data) = (case token of None \<Rightarrow> [] | Some t \<Rightarrow> t)
    \<and> unat (pi_header_sz pkt') = 1 + length (long_layout tag dcid scid token n)
    \<and> unat (pi_data_sz pkt') = 1 + length (long_layout tag dcid scid token n) + n"
proof -
  let ?T = "case token of None \<Rightarrow> [] | Some t \<Rightarrow> vwrite (of_nat (length t)) @ t"
  let ?pl = "vint_write (of_nat n) 1 2" and ?p = "6 + length dcid + 1 + length scid"
  let ?pkt = "long_head data ht dcid scid"
  have d0: "data = b0 # tag @ [of_nat (length dcid)] @ dcid @ [of_nat (length scid)] @ scid @ ?T @ ?pl @ tail"
    by (simp add: data long_layout_def)
  have ne: "?T @ ?pl @ tail \<noteq> []" using n(3) by auto
  have t: "(if tag = [0, 0, 0, 0] then HETY_VERNEG else bits2ht (drop_bit 4 b0 AND 3)) = ht"
    "ht \<in> {HETY_INITIAL, HETY_HANDSHAKE, HETY_0RTT, HETY_VERNEG}" using tag(2) ht(1,2) by auto
  have nv: "ht \<noteq> HETY_VERNEG" using ht(2) by auto
  note head = parse_long_head [OF d0 ne tag(1) t cids refl]
  have len: "length data = ?p + length ?T + 2 + length tail" unfolding head(3) by simp
  have L: "1 + length (long_layout tag dcid scid token n) = ?p + length ?T + 2" using tag(1) by (simp add: long_layout_def)
  show ?thesis
  proof (cases token)
    case None
    then have p: "lsquic_ietf_v1_parse_packet_in_long_begin (blank_packet data) is_server cid_len st
        = finish_long (?pkt\<lparr>pi_quic_ver := 1\<rparr>) (?p + 2) (?p + 2 + n) \<lparr>pps_p = Some ?p, pps_nbytes = 2\<rparr>"
      using head(1) nv ht(3) read_payload_layout [of ?p data n tail ?pkt] head(2) n len by simp
    show ?thesis unfolding p finish_long_def
      using head(4) L u16_of_nat [of "?p + 2", OF _ n(4)] u16_of_nat [of "?p + 2 + n", OF _ n(4)] len n(2) None
      by (simp add: lsquic_scid_from_packet_in_def del: of_nat_add of_nat_Suc)
  next
    case (Some t)
    let ?n = "of_nat (length t) :: u64"
    have T: "?T = vwrite ?n @ t" and t: "length t < 65536" "t \<noteq> [] \<longrightarrow> is_server" and i: "ht = HETY_INITIAL" using Some tok ht(3) by auto
    have lT: "length ?T = vint_size ?n + length t" unfolding T by (simp add: frame_simps)
    let ?q = "?p + vint_size ?n"
    let ?pkt' = "if t = [] then ?pkt else ?pkt\<lparr>pi_token := of_nat ?q, pi_token_size := of_nat (length t)\<rparr>"
    have dt: "drop ?p data = vwrite ?n @ t @ (?pl @ tail)" using head(2) unfolding T by simp
    have rt: "read_token data is_server ?pkt ?p (read_payload_len data) = read_payload_len data ?pkt' (?q + length t)"
      and dq: "drop ?q data = t @ ?pl @ tail"
      using read_token_layout [OF dt t n(4), of ?pkt "read_payload_len data"] len by auto
    have p: "lsquic_ietf_v1_parse_packet_in_long_begin (blank_packet data) is_server cid_len st
        = finish_long (?pkt'\<lparr>pi_quic_ver := 1\<rparr>) (?q + length t + 2) (?q + length t + 2 + n) \<lparr>pps_p = Some (?q + length t), pps_nbytes = 2\<rparr>"
      unfolding head(1) rt using i read_payload_layout [OF drop_step [OF dq] n, of ?pkt'] len lT by simp
    have q: "unat (of_nat ?q :: u8) = ?q" using cids(1,2) vint_size_cases [of ?n] by (auto simp: unat_of_nat MAX_CID_LEN_def simp del: of_nat_add of_nat_Suc)
    have l: "unat (of_nat (length t) :: u16) = length t" using t(1) by (simp add: unat_of_nat)
    have tk: "take (unat (pi_token_size ?pkt')) (drop (unat (pi_token ?pkt')) data) = t"
      using q l dq by (simp del: of_nat_add of_nat_Suc)
    have f: "pi_header_type ?pkt' = ht" "pi_dcid ?pkt' = dcid" "pi_data ?pkt' = data"
        "pi_scid_len ?pkt' = pi_scid_len ?pkt" "pi_scid_off ?pkt' = pi_scid_off ?pkt" by simp_all
    show ?thesis unfolding p finish_long_def
      using f tk head(4) L lT u16_of_nat [of "?q + length t + 2", OF _ n(4)] u16_of_nat [of "?q + length t + 2 + n", OF _ n(4)] len n(2) Some
      by (simp add: lsquic_scid_from_packet_in_def del: of_nat_add of_nat_Suc)
  qed
qed

end
