(* ===== verification/Packet_Sent.thy ===== *)
theory Packet_Sent
  imports Packet_Out
begin

text \<open>
  From the sender's header generator through header protection to the receiver's parser: packets with long
  and with short headers.
\<close>
unbundle bit_operations_syntax

section \<open>Sending a long header\<close>

lemma hp_first_mask_long:
  assumes "bit b 7"
  shows "drop_bit 4 (b XOR hp_first_mask ql b m0) = drop_bit 4 b"
proof -
  have "n < 3" if "bit (7 :: u8) n" for n using that bit_lt_pow [of "7 :: u8" 3 n] by simp
  moreover have "n < 4" if "bit (15 :: u8) n" for n using that bit_lt_pow [of "15 :: u8" 4 n] by simp
  moreover have "n \<le> 3" if "bit b (n - 3 + 7)" "3 \<le> n" for n using bit_imp_le_length [OF that(1)] that(2) by simp
  ultimately have m: "n < 4" if "bit (hp_first_mask ql b m0) n" for n
    using assms that and_128 [of b]
    by (cases ql) (force simp: hp_first_mask_def bit_or_iff bit_and_iff bit_push_bit_iff bit_drop_bit_eq)+
  show ?thesis by (rule bit_word_eqI) (use m in \<open>fastforce simp: bit_simps\<close>)
qed

lemma apply_hp_shape:
  assumes "0 < off" "off + 4 \<le> length dst" "1 \<le> len" "len \<le> 4"
  shows "apply_hp ql dst hp off len = (dst ! 0 XOR hp_first_mask ql (dst ! 0) (hp ! 0)) # take (off - 1) (drop 1 dst)
    @ drop off (apply_hp ql dst hp off len)"
proof -
  let ?e = "apply_hp ql dst hp off len"
  note a = apply_hp_number [OF assms(3,4), of ql dst hp off]
  have l: "length ?e = length dst" by (simp add: a)
  have n: "?e ! i = dst ! i" if "0 < i" "i < off" for i
    using that assms(2) by (simp add: a hp_number_nth_outside nth_xor_at)
  have z: "?e ! 0 = dst ! 0 XOR hp_first_mask ql (dst ! 0) (hp ! 0)"
  proof -
    have "dst \<noteq> []" using assms(2) by auto
    then show ?thesis using assms(1) by (simp add: a hp_number_nth_outside nth_xor_at)
  qed
  have "take off ?e = ?e ! 0 # take (off - 1) (drop 1 dst)"
  proof (rule nth_equalityI)
    show "length (take off ?e) = length (?e ! 0 # take (off - 1) (drop 1 dst))" using l assms(1,2) by simp
    fix i assume "i < length (take off ?e)"
    then show "take off ?e ! i = (?e ! 0 # take (off - 1) (drop 1 dst)) ! i"
      using n [of i] l assms(1,2) by (cases i) auto
  qed
  then show ?thesis using z append_take_drop_id [of off ?e] by simp
qed

lemma long_first_byte:
  fixes k :: nat
  assumes "k \<le> 3" "ht \<in> {HETY_INITIAL, HETY_HANDSHAKE, HETY_0RTT}"
    and b: "b0 = (0xC0 :: u8) OR push_bit 4 (header_type_to_bin ht) OR of_nat k"
  shows "bit b0 7" "bit b0 6" "bits2ht (drop_bit 4 b0 AND 3) = ht" "unat (b0 AND 3) = k"
proof -
  have "k \<in> {0, 1, 2, 3}" using assms(1) by auto
  then show "bit b0 7" "bit b0 6" "bits2ht (drop_bit 4 b0 AND 3) = ht" "unat (b0 AND 3) = k"
    using assms(2) by (elim insertE emptyE; simp add: b bits2ht_def)+
qed
lemma length_version_tags [simp]: "length (version_tags v) = 4"
  by (cases v) simp_all

lemma gen_long_shape:
  assumes "gen_long_pkt_header lconn po bufsz = Some (hdr, off, len)" "po_header_type po \<in> {HETY_INITIAL, HETY_HANDSHAKE, HETY_0RTT}"
  obtains b0 where "bit b0 7" "bit b0 6" "bits2ht (drop_bit 4 b0 AND 3) = po_header_type po" "1 + unat (b0 AND 3) = len"
    and "hdr = b0 # long_layout (version_tags (cn_version lconn)) (np_dcid po) (cn_scid lconn)
      (if po_header_type po = HETY_INITIAL then Some (po_token po) else None)
      (unat (po_data_sz po) + esf_tag_len lconn + len) @ write_packno (po_packno po) (lsquic_packet_out_packno_bits po)"
    and "off = 1 + length (long_layout (version_tags (cn_version lconn)) (np_dcid po) (cn_scid lconn)
      (if po_header_type po = HETY_INITIAL then Some (po_token po) else None) (unat (po_data_sz po) + esf_tag_len lconn + len))"
    and "len = iquic_packno_bits2len (lsquic_packet_out_packno_bits po)" "length hdr \<le> bufsz"
    and "length hdr = ietf_v1_packout_header_size_long_by_packet lconn po"
proof -
  let ?b = "lsquic_packet_out_packno_bits po"
  define b0 :: u8 where "b0 = 0xC0 OR push_bit 4 (header_type_to_bin (po_header_type po)) OR of_nat ?b"
  have b3: "?b \<le> 3"
    using word_and_le1 [of "drop_bit 5 (po_flags po)" 3] by (simp add: lsquic_packet_out_packno_bits_def word_le_nat_alt)
  note b = long_first_byte [OF b3 assms(2) b0_def]
  show thesis
    by (rule that [of b0])
      (use assms b b3 write_packno_be [OF b3, of "po_packno po"] in
        \<open>auto simp: gen_long_pkt_header_def Let_def b0_def long_layout_def iquic_packno_bits2len_def
          ietf_v1_packout_header_size_long_by_packet_def frame_simps simp del: of_nat_add of_nat_Suc split: if_splits\<close>)
qed

lemma bit_C0: "bit (0xC0 :: u8) n \<longleftrightarrow> n = 7 \<or> n = 6"
proof -
  have e: "(0xC0 :: u8) = 2 ^ 7 OR 2 ^ 6" by simp
  show ?thesis unfolding e bit_or_iff bit_exp_iff by auto
qed

lemma lead_C0: "bit b 7 \<Longrightarrow> bit b 6 \<Longrightarrow> (b :: u8) AND 0xC0 = 0xC0"
  by (rule bit_word_eqI, unfold bit_and_iff bit_C0) auto

lemma top_bits:
  assumes "drop_bit 4 a = drop_bit 4 (b :: u8)"
  shows "bit a 7 = bit b 7" "bit a 6 = bit b 6"
  using arg_cong [OF assms, of "\<lambda>w. bit w 3"] arg_cong [OF assms, of "\<lambda>w. bit w 2"] by (simp_all add: bit_drop_bit_eq)

definition ietf_version :: "lsquic_version \<Rightarrow> bool" where
  "ietf_version v \<longleftrightarrow> v \<in> {LSQVER_ID27, LSQVER_ID29, LSQVER_I001}"

lemma long_dispatch:
  assumes "5 \<le> length data" "data ! 0 AND 0xC0 = 0xC0" "take 4 (drop 1 data) = tag" "tag \<noteq> TAG_Q046" "tag \<noteq> TAG_Q050"
  shows "lsquic_parse_packet_in_begin (blank_packet data) is_server cid_len st
      = lsquic_ietf_v1_parse_packet_in_long_begin (blank_packet data) is_server cid_len st"
proof -
  have d: "pi_data (blank_packet data) = data" by (simp add: blank_packet_def)
  have r: "rd data 0 k = k (data ! 0)" "rd_mem data 1 4 k' = k' tag" for k :: "u8 \<Rightarrow> parse_result" and k' :: "bytes \<Rightarrow> parse_result"
    using assms(1,3) by (auto simp: rd_def rd_mem_def)
  show ?thesis
    unfolding lsquic_parse_packet_in_begin_def parse_ietf_v1_or_Q046plus_long_begin_def d r Let_def using assms by auto
qed

lemma long_header_sent:
  assumes gen: "gen_long_pkt_header lconn po bufsz = Some (hdr, off, len)"
    and po: "po_header_type po \<in> {HETY_INITIAL, HETY_HANDSHAKE, HETY_0RTT}" "ietf_version (cn_version lconn)"
    and cids: "length (np_dcid po) \<le> MAX_CID_LEN" "length (cn_scid lconn) \<le> MAX_CID_LEN"
      "po_header_type po = HETY_INITIAL \<and> is_server \<longrightarrow> 8 \<le> length (np_dcid po)"
    and tok: "po_header_type po = HETY_INITIAL \<longrightarrow> length (po_token po) < 65536 \<and> (po_token po \<noteq> [] \<longrightarrow> is_server)"
    and body: "length body = unat (po_data_sz po) + esf_tag_len lconn" "4 \<le> length body" "length body + len < 16384"
    and enc: "enc = apply_hp ql (hdr @ body) hp off len" "length (enc @ rest) \<le> 65535"
  shows "\<exists>pkt' st'. lsquic_parse_packet_in_begin (blank_packet (enc @ rest)) is_server cid_len st = PARSED (pkt', st')
    \<and> pi_header_type pkt' = po_header_type po \<and> pi_dcid pkt' = np_dcid po \<and> lsquic_scid_from_packet_in pkt' = cn_scid lconn
    \<and> (po_header_type po = HETY_INITIAL \<longrightarrow>
         take (unat (pi_token_size pkt')) (drop (unat (pi_token pkt')) (enc @ rest)) = po_token po)
    \<and> unat (pi_header_sz pkt') = off \<and> unat (pi_data_sz pkt') = length enc"
proof -
  let ?tok = "if po_header_type po = HETY_INITIAL then Some (po_token po) else None"
  let ?n = "unat (po_data_sz po) + esf_tag_len lconn + len"
  let ?lay = "long_layout (version_tags (cn_version lconn)) (np_dcid po) (cn_scid lconn) ?tok ?n"
  let ?pn = "write_packno (po_packno po) (lsquic_packet_out_packno_bits po)"
  obtain b0 where b0: "bit b0 7" "bit b0 6" "bits2ht (drop_bit 4 b0 AND 3) = po_header_type po" "1 + unat (b0 AND 3) = len"
    and h: "hdr = b0 # ?lay @ ?pn" "off = 1 + length ?lay" and len: "len = iquic_packno_bits2len (lsquic_packet_out_packno_bits po)"
    using gen_long_shape [OF gen po(1)] by metis
  have pn: "length ?pn = len" "1 \<le> len" "len \<le> 4"
    using len b0(4) word_and_le1 [of b0 3] write_packno_be [of "lsquic_packet_out_packno_bits po" "po_packno po"]
    by (auto simp: iquic_packno_bits2len_def word_le_nat_alt)
  have offs: "0 < off" "off + 4 \<le> length (hdr @ body)" using h body(2) by simp_all
  define c0 where "c0 = b0 XOR hp_first_mask ql b0 (hp ! 0)"
  have c0: "drop_bit 4 c0 = drop_bit 4 b0" unfolding c0_def by (rule hp_first_mask_long [OF b0(1)])
  define tail where "tail = drop off enc @ rest"
  have data: "enc @ rest = c0 # ?lay @ tail"
    using apply_hp_shape [OF offs pn(2,3), of ql hp] h unfolding enc(1) [symmetric] by (simp add: c0_def tail_def)
  have le: "length enc = length (hdr @ body)" unfolding enc(1) by (simp add: apply_hp_number [OF pn(2,3)])
  have lt: "length enc = off + ?n" using le h pn(1) body(1) by simp
  have tl: "?n \<le> length tail" "4 \<le> length tail" using lt body(1,2) by (simp_all add: tail_def)
  have c76: "bit c0 7" "bit c0 6" using top_bits [OF c0] b0 by simp_all
  have tag: "length (version_tags (cn_version lconn)) = 4" "version_tags (cn_version lconn) \<noteq> [0, 0, 0, 0]"
      "version_tags (cn_version lconn) \<noteq> TAG_Q046" "version_tags (cn_version lconn) \<noteq> TAG_Q050"
    using po(2) by (cases "cn_version lconn"; simp add: ietf_version_def TAG_Q046_def TAG_Q050_def)+
  have t4: "take 4 (drop 1 (c0 # ?lay @ tail)) = version_tags (cn_version lconn)" using tag(1) by (simp add: long_layout_def)
  have l5: "5 \<le> length (c0 # ?lay @ tail)" using tl(2) by simp
  have disp: "lsquic_parse_packet_in_begin (blank_packet (enc @ rest)) is_server cid_len st
      = lsquic_ietf_v1_parse_packet_in_long_begin (blank_packet (enc @ rest)) is_server cid_len st"
    unfolding data by (rule long_dispatch [OF l5 _ t4 tag(3,4)]) (simp add: lead_C0 [OF c76])
  have tt: "\<forall>t. ?tok = Some t \<longrightarrow> length t < 65536 \<and> (t \<noteq> [] \<longrightarrow> is_server)" using tok by simp
  have ni: "?tok \<noteq> None \<longleftrightarrow> po_header_type po = HETY_INITIAL" by simp
  have n: "?n < 16384" using body by simp
  from parse_long_layout [OF data tag(1,2) b0(3) [folded c0] po(1) ni cids tt n tl enc(2), of cid_len st]
  show ?thesis unfolding disp using h(2) lt by auto
qed


section \<open>Sending a short header\<close>

lemma bit_small:
  "bit (4 :: u8) n \<longleftrightarrow> n = 2" "bit (8 :: u8) n \<longleftrightarrow> n = 3" "bit (16 :: u8) n \<longleftrightarrow> n = 4" "bit (32 :: u8) n \<longleftrightarrow> n = 5" "bit (64 :: u8) n \<longleftrightarrow> n = 6"
proof -
  have e: "(4 :: u8) = 2 ^ 2" "(8 :: u8) = 2 ^ 3" "(16 :: u8) = 2 ^ 4" "(32 :: u8) = 2 ^ 5" "(64 :: u8) = 2 ^ 6" by simp_all
  show "bit (4 :: u8) n \<longleftrightarrow> n = 2" "bit (8 :: u8) n \<longleftrightarrow> n = 3" "bit (16 :: u8) n \<longleftrightarrow> n = 4" "bit (32 :: u8) n \<longleftrightarrow> n = 5" "bit (64 :: u8) n \<longleftrightarrow> n = 6"
    unfolding e bit_exp_iff by auto
qed

definition short_first_byte :: "bool \<Rightarrow> bool \<Rightarrow> bool \<Rightarrow> bool \<Rightarrow> nat \<Rightarrow> u8" where
  "short_first_byte spin square loss phase k = 0x40 OR push_bit 5 (of_bool spin) OR push_bit 4 (of_bool square)
     OR push_bit 3 (of_bool loss) OR push_bit 2 (of_bool phase) OR of_nat k"

lemma short_first_byte:
  assumes "k \<le> 3"
  shows "\<not> bit (short_first_byte s q l ph k) 7" "bit (short_first_byte s q l ph k) 6" "bit (short_first_byte s q l ph k) 5 = s"
    "unat (short_first_byte s q l ph k AND 3) = k"
proof -
  have "k \<in> {0, 1, 2, 3}" using assms by auto
  then show "\<not> bit (short_first_byte s q l ph k) 7" "bit (short_first_byte s q l ph k) 6" "bit (short_first_byte s q l ph k) 5 = s"
    "unat (short_first_byte s q l ph k AND 3) = k"
    by (elim insertE emptyE; cases s; cases q; cases l; cases ph; simp add: short_first_byte_def)+
qed

lemma hp_first_mask_short:
  assumes "5 \<le> n"
  shows "bit (b XOR hp_first_mask ql b m0) n = bit b n"
proof -
  have "n < 3" if "bit (7 :: u8) n" for n using that bit_lt_pow [of "7 :: u8" 3 n] by simp
  moreover have "n < 4" if "bit (15 :: u8) n" for n using that bit_lt_pow [of "15 :: u8" 4 n] by simp
  moreover have "n \<le> 3" if "bit b (n - 3 + 7)" "3 \<le> n" for n using bit_imp_le_length [OF that(1)] that(2) by simp
  ultimately have "n < 5" if "bit (hp_first_mask ql b m0) n" for n
    using that by (cases ql) (force simp: hp_first_mask_def bit_or_iff bit_and_iff bit_push_bit_iff bit_drop_bit_eq bit_of_bool_iff)+
  with assms have "\<not> bit (hp_first_mask ql b m0) n" by (meson leD)
  then show ?thesis by (simp add: bit_xor_iff)
qed

lemma and_C0_short: "\<not> bit b 7 \<Longrightarrow> bit b 6 \<Longrightarrow> (b :: u8) AND 0xC0 = 0x40"
  by (rule bit_word_eqI, unfold bit_and_iff bit_C0 bit_small) auto

lemma and_20: "(b :: u8) AND 0x20 > 0 \<longleftrightarrow> bit b 5"
proof -
  have "b AND 0x20 \<noteq> 0 \<longleftrightarrow> bit b 5"
  proof
    assume "b AND 0x20 \<noteq> 0"
    then obtain n where "bit (b AND 0x20) n" using bit_word_eqI [of "b AND 0x20" 0] by auto
    then show "bit b 5" unfolding bit_and_iff bit_small by blast
  next
    assume "bit b 5"
    then have "bit (b AND 0x20) 5" unfolding bit_and_iff bit_small by simp
    then show "b AND 0x20 \<noteq> 0" by auto
  qed
  then show ?thesis by (simp add: word_neq_0_conv)
qed

lemma short_header_sent:
  assumes gen: "gen_short_pkt_header lconn po bufsz = Some (hdr, off, len)"
    and cid: "cid_len = (if po_conn_id (po_flags po) then length (np_dcid po) else 0)"
    and enc: "enc = apply_hp ql (hdr @ body) hp off len" "4 \<le> length body" "length enc \<le> 65535"
  shows "\<exists>pkt' st'. lsquic_parse_packet_in_begin (blank_packet enc) is_server cid_len st = PARSED (pkt', st')
    \<and> pi_dcid pkt' = take cid_len (np_dcid po) \<and> bit (pi_flags pkt') PIBIT_SPIN_SHIFT = bit (po_flags po) 30
    \<and> unat (pi_header_sz pkt') = off \<and> unat (pi_data_sz pkt') = length enc"
proof -
  let ?k = "lsquic_packet_out_packno_bits po"
  define dcid where "dcid = take cid_len (np_dcid po)"
  define b0 where "b0 = short_first_byte (bit (po_flags po) 30) (bit (po_lflags po) 7) (bit (po_lflags po) 8) (bit (po_lflags po) 3) ?k"
  have k3: "?k \<le> 3"
    using word_and_le1 [of "drop_bit 5 (po_flags po)" 3] by (simp add: lsquic_packet_out_packno_bits_def word_le_nat_alt)
  have h: "hdr = b0 # dcid @ write_packno (po_packno po) ?k" "off = 1 + cid_len" "len = ?k + 1" "length dcid = cid_len"
    using gen cid by (auto simp: gen_short_pkt_header_def Let_def b0_def short_first_byte_def dcid_def iquic_packno_bits2len_def split: if_splits)
  have pn: "1 \<le> len" "len \<le> 4" using h(3) k3 by simp_all
  have offs: "0 < off" "off + 4 \<le> length (hdr @ body)" using h(1,2,4) enc(2) by simp_all
  define c0 where "c0 = b0 XOR hp_first_mask ql b0 (hp ! 0)"
  define tail where "tail = drop off enc"
  have data: "enc = c0 # dcid @ tail"
    using apply_hp_shape [OF offs pn, of ql hp] h(1,2,4) unfolding enc(1) [symmetric] by (simp add: c0_def tail_def)
  note c = short_first_byte [OF k3, of "bit (po_flags po) 30" "bit (po_lflags po) 7" "bit (po_lflags po) 8" "bit (po_lflags po) 3",
      folded b0_def]
  have c0: "\<not> bit c0 7" "bit c0 6" "bit c0 5 = bit (po_flags po) 30"
    using c unfolding c0_def by (simp_all add: hp_first_mask_short)
  have pd: "pi_data (blank_packet enc) = enc" by (simp add: blank_packet_def)
  have r: "rd enc 0 k = k c0" "rd_mem enc 1 cid_len k' = k' dcid" for k :: "u8 \<Rightarrow> parse_result" and k' :: "bytes \<Rightarrow> parse_result"
    by (simp_all add: data rd_def rd_mem_def h(4))
  have l: "0 < length enc" "1 + cid_len \<le> length enc" "\<not> length enc < 1 + cid_len" unfolding data using h(4) by simp_all
  have disp: "lsquic_parse_packet_in_begin (blank_packet enc) is_server cid_len st
      = lsquic_ietf_v1_parse_packet_in_short_begin (blank_packet enc) is_server cid_len st"
    unfolding lsquic_parse_packet_in_begin_def pd r Let_def and_C0_short [OF c0(1,2)] using l(1) by simp
  have u: "unat (of_nat (1 + cid_len) :: u16) = 1 + cid_len" "unat (of_nat (length enc) :: u16) = length enc"
    using u16_of_nat [OF l(2) enc(3)] u16_of_nat [OF order_refl enc(3)] by simp_all
  have sp: "bit (fl OR push_bit PIBIT_SPIN_SHIFT (of_bool s) OR push_bit PIBIT_BITS_SHIFT (ucast w)) PIBIT_SPIN_SHIFT = s"
    if "\<not> bit fl PIBIT_SPIN_SHIFT" for fl :: u32 and s and w :: u8
    using that by (auto simp: bit_or_iff bit_push_bit_iff PIBIT_SPIN_SHIFT_def PIBIT_BITS_SHIFT_def)
  have f: "\<not> bit (0 :: u32) PIBIT_SPIN_SHIFT" "\<not> bit (PI_CONN_ID) PIBIT_SPIN_SHIFT"
    by (simp_all add: bit_PI_CONN_ID PIBIT_SPIN_SHIFT_def)
  show ?thesis
    unfolding disp lsquic_ietf_v1_parse_packet_in_short_begin_def pd r Let_def and_20 dcid_def [symmetric]
    using l(3) h(4) u sp [OF f(1)] sp [OF f(2)] h(2) c0(3) by (auto simp: blank_packet_def simp del: of_nat_add of_nat_Suc)
qed


section \<open>Properties\<close>

lemma gen_short_shape:
  assumes "gen_short_pkt_header lconn po bufsz = Some (hdr, off, len)"
  shows "unat (hdr ! 0 AND 3) = lsquic_packet_out_packno_bits po" "take len (drop off hdr) = write_packno (po_packno po) (lsquic_packet_out_packno_bits po)"
    "0 < off" "len = iquic_packno_bits2len (lsquic_packet_out_packno_bits po)" "length hdr = off + len" "length hdr \<le> bufsz"
proof -
  let ?k = "lsquic_packet_out_packno_bits po"
  have k3: "?k \<le> 3"
    using word_and_le1 [of "drop_bit 5 (po_flags po)" 3] by (simp add: lsquic_packet_out_packno_bits_def word_le_nat_alt)
  note s = short_first_byte(4) [OF k3, of "bit (po_flags po) 30" "bit (po_lflags po) 7" "bit (po_lflags po) 8" "bit (po_lflags po) 3", unfolded short_first_byte_def]
  show "unat (hdr ! 0 AND 3) = ?k" "take len (drop off hdr) = write_packno (po_packno po) ?k" "0 < off"
    "len = iquic_packno_bits2len ?k" "length hdr = off + len" "length hdr \<le> bufsz"
    using assms s write_packno_be [OF k3, of "po_packno po"]
    by (auto simp: gen_short_pkt_header_def Let_def iquic_packno_bits2len_def split: if_splits)
qed

text \<open>
  C7. A packet with a long header, end to end.  The sender picks the length of the packet number, writes
  header and sealed body, and protects the header; the packet arrives at the head of a datagram.  Then
  the receiver's parser finds the type, both connection IDs, the token and the extent of this packet in the
  datagram, and removing the header protection where the parser says gives back the header the sender
  wrote and the full packet number.
\<close>

theorem long_header_end_to_end:
  fixes lu nif max_packno :: u64
  assumes gen: "ietf_v1_gen_reg_pkt_header lconn po bufsz = Some (hdr, off, len)"
    and po: "po_header_type po \<in> {HETY_INITIAL, HETY_HANDSHAKE, HETY_0RTT}" "ietf_version (cn_version lconn)"
    and cids: "length (np_dcid po) \<le> MAX_CID_LEN" "length (cn_scid lconn) \<le> MAX_CID_LEN"
      "po_header_type po = HETY_INITIAL \<and> is_server \<longrightarrow> 8 \<le> length (np_dcid po)"
    and tok: "po_header_type po = HETY_INITIAL \<longrightarrow> length (po_token po) < 65536 \<and> (po_token po \<noteq> [] \<longrightarrow> is_server)"
    and body: "length body = unat (po_data_sz po) + esf_tag_len lconn" "4 \<le> length body" "length body + len < 16384"
    and pn: "lsquic_packet_out_packno_bits po = ietf_v1_calc_packno_bits (po_packno po) lu nif"
      "lu \<le> po_packno po" "uint (po_packno po) - uint lu < 2 ^ 30" "uint nif < 2 ^ 30" "uint (po_packno po) < 2 ^ 62"
      "uint max_packno < 2 ^ 62" "uint lu \<le> uint max_packno + 1" "uint max_packno \<le> uint (po_packno po) + uint nif"
    and data: "data = apply_hp_immediately hp_gen_mask ql (hdr @ body) off len @ rest" "length data \<le> 65535"
  shows "\<exists>pkt st'. lsquic_parse_packet_in_begin (blank_packet data) is_server cid_len st = PARSED (pkt, st')
    \<and> pi_header_type pkt = po_header_type po \<and> pi_dcid pkt = np_dcid po \<and> lsquic_scid_from_packet_in pkt = cn_scid lconn
    \<and> (po_header_type po = HETY_INITIAL \<longrightarrow> take (unat (pi_token_size pkt)) (drop (unat (pi_token pkt)) data) = po_token po)
    \<and> drop (unat (pi_data_sz pkt)) data = rest
    \<and> (let enc = take (unat (pi_data_sz pkt)) data; off = unat (pi_header_sz pkt) in
       strip_hp ql (Some max_packno) (hp_gen_mask (take 16 (drop (off + 4) enc))) enc off = (hdr @ body, len, po_packno po))"
proof -
  have g: "gen_long_pkt_header lconn po bufsz = Some (hdr, off, len)"
    using gen po(1) by (auto simp: ietf_v1_gen_reg_pkt_header_def)
  let ?enc = "apply_hp_immediately hp_gen_mask ql (hdr @ body) off len"
  let ?n = "unat (po_data_sz po) + esf_tag_len lconn + len"
  let ?k = "lsquic_packet_out_packno_bits po"
  obtain b0 lay where b0: "1 + unat (b0 AND 3) = len" and h: "hdr = b0 # lay @ write_packno (po_packno po) ?k" "off = 1 + length lay"
    and len: "len = iquic_packno_bits2len ?k"
    using gen_long_shape [OF g po(1)] by metis
  have k: "?k \<le> 3" unfolding pn(1) by simp
  have front: "0 < off" "off + 4 \<le> length (hdr @ body)" "unat ((hdr @ body) ! 0 AND 3) = ?k"
      "take len (drop off (hdr @ body)) = write_packno (po_packno po) ?k"
    using h body(2) b0 len write_packno_be [OF k, of "po_packno po"] by (simp_all add: iquic_packno_bits2len_def)
  have strip: "strip_hp ql (Some max_packno) (hp_gen_mask (take 16 (drop (off + 4) ?enc))) ?enc off = (hdr @ body, len, po_packno po)"
    by (rule hp_roundtrip [OF pn(2-8) pn(1) len front refl])
  have le: "length ?enc = length (hdr @ body)"
    using k unfolding apply_hp_immediately_def by (simp add: apply_hp_number len iquic_packno_bits2len_def)
  obtain pkt st' where p: "lsquic_parse_packet_in_begin (blank_packet data) is_server cid_len st = PARSED (pkt, st')"
      "pi_header_type pkt = po_header_type po" "pi_dcid pkt = np_dcid po" "lsquic_scid_from_packet_in pkt = cn_scid lconn"
      "po_header_type po = HETY_INITIAL \<longrightarrow> take (unat (pi_token_size pkt)) (drop (unat (pi_token pkt)) data) = po_token po"
      "unat (pi_header_sz pkt) = off" "unat (pi_data_sz pkt) = length ?enc"
    using long_header_sent [OF g po cids tok body apply_hp_immediately_def data(2) [unfolded data(1)], of cid_len st]
    unfolding data(1) by blast
  have e: "take (length ?enc) data = ?enc" "drop (length ?enc) data = rest" unfolding data(1) by simp_all
  show ?thesis
    by (rule exI [of _ pkt], rule exI [of _ st'])
      (use p(1-5) in \<open>simp only: p(6,7) e strip Let_def simp_thms\<close>)
qed

definition sample_conn :: hdr_conn where
  "sample_conn = \<lparr>cn_version = LSQVER_I001, cn_scid = [1, 2, 3, 4], cn_handshake_done = False, esf_tag_len = 16\<rparr>"

definition sample_packet :: "header_type \<Rightarrow> packet_out" where
  "sample_packet ht = \<lparr>po_packno = 300, po_flags = 0x20 OR push_bit 9 1, po_lflags = 0, po_data_sz = 4,
     po_token = [9, 9], po_header_type = ht, np_dcid = [8, 7, 6, 5, 4, 3, 2, 1]\<rparr>"

lemma sample_bits: "lsquic_packet_out_packno_bits (sample_packet ht) = ietf_v1_calc_packno_bits (po_packno (sample_packet ht)) 200 50"
  by (simp add: sample_packet_def lsquic_packet_out_packno_bits_def ietf_v1_calc_packno_bits_def)

lemma sample_long_header:
  "\<exists>hdr. ietf_v1_gen_reg_pkt_header sample_conn (sample_packet HETY_INITIAL) 100 = Some (hdr, 24, 2) \<and> length hdr = 26"
proof -
  have "map_option (\<lambda>(h, off, len). (length h, off, len)) (ietf_v1_gen_reg_pkt_header sample_conn (sample_packet HETY_INITIAL) 100) = Some (26, 24, 2)"
    by code_simp
  then show ?thesis by auto
qed

theorem long_header_end_to_end_witness:
  "\<exists>hdr pkt st'. ietf_v1_gen_reg_pkt_header sample_conn (sample_packet HETY_INITIAL) 100 = Some (hdr, 24, 2)
    \<and> lsquic_parse_packet_in_begin (blank_packet (apply_hp_immediately (map (\<lambda>b. b XOR 85)) False (hdr @ replicate 20 7) 24 2 @ [1, 2, 3]))
        True 8 \<lparr>pps_p = None, pps_nbytes = 0\<rparr> = PARSED (pkt, st')
    \<and> pi_header_type pkt = HETY_INITIAL \<and> pi_dcid pkt = [8, 7, 6, 5, 4, 3, 2, 1] \<and> lsquic_scid_from_packet_in pkt = [1, 2, 3, 4]"
proof -
  obtain hdr where h: "ietf_v1_gen_reg_pkt_header sample_conn (sample_packet HETY_INITIAL) 100 = Some (hdr, 24, 2)" "length hdr = 26"
    using sample_long_header by blast
  let ?d = "apply_hp_immediately (map (\<lambda>b :: u8. b XOR 85)) False (hdr @ replicate 20 7) 24 2 @ [1, 2, 3]"
  have "length ?d \<le> 65535" unfolding apply_hp_immediately_def using h(2) by (simp add: apply_hp_number)
  from long_header_end_to_end [OF h(1) _ _ _ _ _ _ _ _ _ sample_bits _ _ _ _ _ _ _ refl this,
      where is_server = True and max_packno = 255 and cid_len = 8 and st = "\<lparr>pps_p = None, pps_nbytes = 0\<rparr>"] h(1)
  show ?thesis
    by (auto simp: sample_packet_def sample_conn_def ietf_version_def MAX_CID_LEN_def)
qed

text \<open>
  C38. A packet with a short header, end to end: the receiver, which knows the length of its own connection
  IDs, finds the connection ID and the spin bit in the protected packet, and removing the header
  protection gives back the header the sender wrote and the full packet number.
\<close>

theorem short_header_end_to_end:
  fixes lu nif max_packno :: u64
  assumes gen: "ietf_v1_gen_reg_pkt_header lconn po bufsz = Some (hdr, off, len)" "po_header_type po = HETY_NOT_SET"
    and cid: "cid_len = (if po_conn_id (po_flags po) then length (np_dcid po) else 0)"
    and body: "4 \<le> length body"
    and pn: "lsquic_packet_out_packno_bits po = ietf_v1_calc_packno_bits (po_packno po) lu nif"
      "lu \<le> po_packno po" "uint (po_packno po) - uint lu < 2 ^ 30" "uint nif < 2 ^ 30" "uint (po_packno po) < 2 ^ 62"
      "uint max_packno < 2 ^ 62" "uint lu \<le> uint max_packno + 1" "uint max_packno \<le> uint (po_packno po) + uint nif"
    and data: "data = apply_hp_immediately hp_gen_mask ql (hdr @ body) off len" "length data \<le> 65535"
  shows "\<exists>pkt st'. lsquic_parse_packet_in_begin (blank_packet data) is_server cid_len st = PARSED (pkt, st')
    \<and> pi_dcid pkt = take cid_len (np_dcid po) \<and> bit (pi_flags pkt) PIBIT_SPIN_SHIFT = bit (po_flags po) 30
    \<and> unat (pi_data_sz pkt) = length data
    \<and> (let off = unat (pi_header_sz pkt) in
       strip_hp ql (Some max_packno) (hp_gen_mask (take 16 (drop (off + 4) data))) data off = (hdr @ body, len, po_packno po))"
proof -
  have g: "gen_short_pkt_header lconn po bufsz = Some (hdr, off, len)"
    using gen by (simp add: ietf_v1_gen_reg_pkt_header_def)
  note h = gen_short_shape [OF g]
  have "hdr \<noteq> []" using h(3,5) by auto
  have "take len (drop off (hdr @ body)) = take len (drop off hdr)" using h(5) by simp
  with \<open>hdr \<noteq> []\<close> have front: "off + 4 \<le> length (hdr @ body)" "unat ((hdr @ body) ! 0 AND 3) = lsquic_packet_out_packno_bits po"
      "take len (drop off (hdr @ body)) = write_packno (po_packno po) (lsquic_packet_out_packno_bits po)"
    using h(1,2,5) body by (simp_all only: nth_append) auto
  have strip: "strip_hp ql (Some max_packno) (hp_gen_mask (take 16 (drop (off + 4) data))) data off = (hdr @ body, len, po_packno po)"
    by (rule hp_roundtrip [OF pn(2-8) pn(1) h(4,3) front data(1)])
  obtain pkt st' where p: "lsquic_parse_packet_in_begin (blank_packet data) is_server cid_len st = PARSED (pkt, st')"
      "pi_dcid pkt = take cid_len (np_dcid po)" "bit (pi_flags pkt) PIBIT_SPIN_SHIFT = bit (po_flags po) 30"
      "unat (pi_header_sz pkt) = off" "unat (pi_data_sz pkt) = length data"
    using short_header_sent [OF g cid data(1) [unfolded apply_hp_immediately_def] body data(2)] by blast
  show ?thesis
    by (rule exI [of _ pkt], rule exI [of _ st']) (use p(1-3,5) in \<open>simp only: p(4) strip Let_def simp_thms\<close>)
qed

lemma sample_short_header:
  "\<exists>hdr. ietf_v1_gen_reg_pkt_header sample_conn (sample_packet HETY_NOT_SET) 100 = Some (hdr, 9, 2) \<and> length hdr = 11"
proof -
  have "map_option (\<lambda>(h, off, len). (length h, off, len)) (ietf_v1_gen_reg_pkt_header sample_conn (sample_packet HETY_NOT_SET) 100) = Some (11, 9, 2)"
    by code_simp
  then show ?thesis by auto
qed

theorem short_header_end_to_end_witness:
  "\<exists>hdr pkt st'. ietf_v1_gen_reg_pkt_header sample_conn (sample_packet HETY_NOT_SET) 100 = Some (hdr, 9, 2)
    \<and> lsquic_parse_packet_in_begin (blank_packet (apply_hp_immediately (map (\<lambda>b. b XOR 85)) False (hdr @ replicate 20 7) 9 2))
        True 8 \<lparr>pps_p = None, pps_nbytes = 0\<rparr> = PARSED (pkt, st')
    \<and> pi_dcid pkt = [8, 7, 6, 5, 4, 3, 2, 1]"
proof -
  obtain hdr where h: "ietf_v1_gen_reg_pkt_header sample_conn (sample_packet HETY_NOT_SET) 100 = Some (hdr, 9, 2)" "length hdr = 11"
    using sample_short_header by blast
  let ?d = "apply_hp_immediately (map (\<lambda>b :: u8. b XOR 85)) False (hdr @ replicate 20 7) 9 2"
  have l: "length ?d \<le> 65535" unfolding apply_hp_immediately_def using h(2) by (simp add: apply_hp_number)
  have c: "8 = (if po_conn_id (po_flags (sample_packet HETY_NOT_SET)) then length (np_dcid (sample_packet HETY_NOT_SET)) else 0)"
    by (simp add: sample_packet_def po_conn_id_def)
  from short_header_end_to_end [OF h(1) _ c _ sample_bits _ _ _ _ _ _ _ refl l,
      where is_server = True and max_packno = 255 and st = "\<lparr>pps_p = None, pps_nbytes = 0\<rparr>"] h(1)
  show ?thesis by (auto simp: sample_packet_def)
qed


end
