(* ===== verification/Ver_Neg.thy ===== *)
theory Ver_Neg
  imports Packet_Sent
begin

text \<open>
  Version negotiation between a server that does not speak the client's version and the client
  (\<^verbatim>\<open>lsquic_ietf_v1_gen_ver_nego_pkt\<close>, and \<^verbatim>\<open>process_incoming_packet_verneg\<close> with its
  helpers in \<^verbatim>\<open>lsquic_full_conn_ietf.c\<close>).  The record holds \<^verbatim>\<open>struct ver_neg\<close> and the
  members of the connection that the negotiation reads and writes.
\<close>

section \<open>Definitions\<close>

unbundle bit_operations_syntax

datatype ver_neg_state = VN_START | VN_IN_PROGRESS | VN_END

record vn_conn =
  vn_supp :: u32
  vn_ver :: nat
  vn_state :: ver_neg_state
  vn_buf :: bytes
  vn_tag :: bool                     \<comment> \<open>the pointer is not \<^verbatim>\<open>NULL\<close>\<close>
  vc_cn_version :: nat
  vc_ver_set :: bool                 \<comment> \<open>\<^verbatim>\<open>cn_flags & LSCONN_VER_SET\<close>\<close>
  vc_cn_cid :: bytes
  vc_cur_dcid :: bytes
  vc_hsk_failed :: bool              \<comment> \<open>\<^verbatim>\<open>ifc_flags & IFC_ERROR\<close> and \<^verbatim>\<open>IFC_HSK_FAILED\<close>\<close>
  vc_fast :: bool                    \<comment> \<open>\<^verbatim>\<open>ifc_process_incoming_packet == process_incoming_packet_fast\<close>\<close>
  vc_expired_all :: nat              \<comment> \<open>calls of \<^verbatim>\<open>lsquic_send_ctl_expire_all\<close>\<close>

fun ver_num :: "lsquic_version \<Rightarrow> nat" where
  "ver_num LSQVER_043 = 0" | "ver_num LSQVER_046 = 1" | "ver_num LSQVER_050 = 2" | "ver_num LSQVER_ID27 = 3"
| "ver_num LSQVER_ID29 = 4" | "ver_num LSQVER_I001 = 5" | "ver_num LSQVER_VERNEG = 6"

definition N_LSQVER :: nat where "N_LSQVER = 7"

definition LSQUIC_IETF_DRAFT_VERSIONS :: u32 where
  "LSQUIC_IETF_DRAFT_VERSIONS = push_bit (ver_num LSQVER_ID27) 1 OR push_bit (ver_num LSQVER_ID29) 1 OR push_bit (ver_num LSQVER_VERNEG) 1"

text \<open>The result for zero is undefined, as that of \<^verbatim>\<open>__builtin_clz\<close> is.\<close>

definition highest_bit_set :: "u32 \<Rightarrow> nat" where
  "highest_bit_set sz = last (filter (bit sz) [0..<32])"

definition set_versions :: "vn_conn \<Rightarrow> u32 \<Rightarrow> nat option \<Rightarrow> vn_conn" where
  "set_versions conn versions ver =
     (let v = (case ver of Some v \<Rightarrow> v | None \<Rightarrow> highest_bit_set versions) in
      conn\<lparr>vn_supp := versions, vn_ver := v, vn_buf := lsquic_ver2tag v, vc_cn_version := v\<rparr>)"

definition init_ver_neg :: "vn_conn \<Rightarrow> u32 \<Rightarrow> nat option \<Rightarrow> vn_conn" where
  "init_ver_neg conn versions ver = (set_versions conn versions ver)\<lparr>vn_tag := True, vn_state := VN_START\<rparr>"

definition verneg_ok :: "vn_conn \<Rightarrow> bool" where
  "verneg_ok conn \<longleftrightarrow> push_bit (highest_bit_set (vn_supp conn)) 1 AND LSQUIC_IETF_DRAFT_VERSIONS \<noteq> 0"

definition lsquic_packet_in_is_verneg :: "lsquic_packet_in \<Rightarrow> bool" where
  "lsquic_packet_in_is_verneg p =
     (if pi_flags p AND PI_GQUIC \<noteq> 0 then pi_data p ! 0 AND 1 \<noteq> 0 else pi_header_type p = HETY_VERNEG)"

text \<open>The loop over the versions listed in the packet.\<close>

function collect_versions :: "lsquic_packet_in \<Rightarrow> nat \<Rightarrow> u32 \<Rightarrow> u32" where
  "collect_versions pkt off versions =
     (case lsquic_packet_in_ver_next pkt off of
        None \<Rightarrow> versions
      | Some (off', ver_tag) \<Rightarrow> collect_versions pkt off'
          (case lsquic_tag2ver ver_tag of None \<Rightarrow> versions | Some version \<Rightarrow> versions OR push_bit (ver_num version) 1))"
  by auto
termination
  by (relation "measure (\<lambda>(pkt, off, _). unat (pi_header_sz pkt) - off)")
    (auto simp: lsquic_packet_in_ver_next_def split: if_splits)

declare collect_versions.simps [simp del]

datatype vn_result = VN_RETURN int | VN_REGULAR   \<comment> \<open>the latter goes on to \<^verbatim>\<open>process_regular_packet\<close>\<close>

definition abort_hsk :: "vn_conn \<Rightarrow> vn_conn \<times> vn_result" where
  "abort_hsk conn = (conn\<lparr>vc_hsk_failed := True\<rparr>, VN_RETURN (- 1))"

definition process_incoming_packet_verneg :: "vn_conn \<Rightarrow> lsquic_packet_in \<Rightarrow> vn_conn \<times> vn_result" where
  "process_incoming_packet_verneg conn pkt =
     (if lsquic_packet_in_is_verneg pkt then
        if vn_state conn \<noteq> VN_START then (conn, VN_RETURN 0)
        else if \<not> (vc_cn_cid conn = pi_dcid pkt \<and> length (vc_cur_dcid conn) = unat (pi_scid_len pkt)
                   \<and> vc_cur_dcid conn = lsquic_scid_from_packet_in pkt) then (conn, VN_RETURN 0)
        else let versions = collect_versions pkt (unat (pi_quic_ver pkt)) 0 in
          if versions AND push_bit (vn_ver conn) 1 \<noteq> 0 then (conn, VN_RETURN 0)
          else if \<not> verneg_ok conn then abort_hsk conn
          else let versions = versions AND vn_supp conn in
            if versions = 0 then abort_hsk conn
            else let conn = set_versions conn versions None in
              (conn\<lparr>vn_state := VN_IN_PROGRESS, vc_expired_all := vc_expired_all conn + 1\<rparr>, VN_RETURN 0)
      else (conn\<lparr>vn_state := VN_END, vn_tag := False, vc_cn_version := vn_ver conn, vc_ver_set := True, vc_fast := True\<rparr>,
            VN_REGULAR))"

section \<open>Version tags\<close>

lemma tag2ver_ver2tag: "n < N_LSQVER \<Longrightarrow> map_option ver_num (lsquic_tag2ver (lsquic_ver2tag n)) = Some n"
proof -
  assume "n < N_LSQVER"
  then have "n \<in> {0, 1, 2, 3, 4, 5, 6}" by (auto simp: N_LSQVER_def)
  then show ?thesis by (elim insertE emptyE) (simp_all add: lsquic_ver2tag_def all_versions_def lsquic_tag2ver_def)
qed

lemma ver2tag_nonzero: "n < N_LSQVER \<Longrightarrow> lsquic_ver2tag n \<noteq> [0, 0, 0, 0]"
proof -
  assume "n < N_LSQVER"
  then have "n \<in> {0, 1, 2, 3, 4, 5, 6}" by (auto simp: N_LSQVER_def)
  then show ?thesis by (elim insertE emptyE) (simp_all add: lsquic_ver2tag_def all_versions_def)
qed

lemma length_ver2tag [simp]: "length (lsquic_ver2tag n) = 4"
  by (simp add: lsquic_ver2tag_def)

text \<open>The tags of the versions of a mask, in ascending order.\<close>

definition tags_from :: "nat \<Rightarrow> u32 \<Rightarrow> bytes" where
  "tags_from n versions = concat (map lsquic_ver2tag (filter (bit versions) [n..<N_LSQVER]))"

lemma bit_clear: "bit (versions AND NOT (push_bit n 1 :: u32)) k \<longleftrightarrow> bit versions k \<and> k \<noteq> n"
  by (auto simp: bit_and_iff bit_not_iff bit_exp_iff dest: bit_imp_le_length)

lemma clear_bit_filter:
  assumes "n < (m :: nat)"
  shows "filter (bit (versions AND NOT (push_bit n 1 :: u32))) [m..<k] = filter (bit versions) [m..<k]"
  using assms by (intro filter_cong) (simp_all only: bit_clear, auto)

lemma gen_ver_tags_from:
  assumes "\<forall>k < n. \<not> bit versions k" "\<forall>k \<ge> N_LSQVER. \<not> bit versions k" "N_LSQVER \<le> n + fuel" "length (tags_from n versions) \<le> space"
  shows "gen_ver_tags_from fuel n space versions = Some (tags_from n versions)"
  using assms
proof (induction fuel arbitrary: n space versions)
  case 0
  then have "versions = 0" by (intro bit_word_eqI) (metis bit_0_eq bot_apply bot_bool_def le_less_linear add_0_right le_trans)
  then show ?case by (simp add: tags_from_def)
next
  case (Suc fuel)
  show ?case
  proof (cases "versions = 0")
    case True
    then show ?thesis by (simp add: tags_from_def)
  next
    case False
    have n: "n < N_LSQVER"
    proof (rule ccontr)
      assume "\<not> n < N_LSQVER"
      then have "versions = 0" using Suc.prems(1,2) by (intro bit_word_eqI) (metis bit_0_eq bot_apply bot_bool_def le_less_linear le_trans)
      with False show False by simp
    qed
    let ?v = "versions AND NOT (push_bit n 1)"
    have t: "tags_from n versions = (if bit versions n then lsquic_ver2tag n @ tags_from (n + 1) versions else tags_from (n + 1) versions)"
      using n by (simp add: tags_from_def upt_conv_Cons)
    have c: "tags_from (n + 1) ?v = tags_from (n + 1) versions" unfolding tags_from_def by (subst clear_bit_filter) simp_all
    show ?thesis
    proof (cases "bit versions n")
      case True
      have "gen_ver_tags_from fuel (n + 1) (space - 4) ?v = Some (tags_from (n + 1) ?v)"
        by (rule Suc.IH) (use Suc.prems t True c in \<open>simp_all only: bit_clear c, auto simp: less_Suc_eq\<close>)
      with True False t c Suc.prems(4) ver2tag_nonzero [OF n] show ?thesis by (simp add: Let_def)
    next
      case nb: False
      have "gen_ver_tags_from fuel (n + 1) space versions = Some (tags_from (n + 1) versions)"
        by (rule Suc.IH) (use Suc.prems t nb in \<open>auto simp: less_Suc_eq\<close>)
      with nb False t show ?thesis by simp
    qed
  qed
qed


section \<open>Bit sets\<close>

lemma bit_or_push: "bit (v OR push_bit n 1 :: u32) k \<longleftrightarrow> bit v k \<or> k = n \<and> n < 32"
  by (auto simp: bit_or_iff bit_exp_iff)

lemma and_push_0: "(v AND push_bit n 1 :: u32) \<noteq> 0 \<longleftrightarrow> bit v n"
proof
  assume "v AND push_bit n 1 \<noteq> 0"
  then obtain k where "bit (v AND push_bit n 1) k" using bit_word_eqI [of "v AND push_bit n 1" 0] by auto
  then show "bit v n" by (auto simp: bit_and_iff bit_exp_iff)
next
  assume "bit v n"
  then have "bit (v AND push_bit n 1) n" using bit_imp_le_length [of v n] by (auto simp: bit_and_iff bit_exp_iff)
  then show "v AND push_bit n 1 \<noteq> 0" by (metis bit_0_eq bot_apply bot_bool_def)
qed

lemma bit_fold_push:
  "bit (fold (\<lambda>n v. v OR push_bit n (1 :: u32)) ns v) k \<longleftrightarrow> bit v k \<or> k \<in> set ns \<and> k < 32"
  by (induction ns arbitrary: v) (auto simp only: fold.simps bit_or_push id_apply list.set comp_apply empty_iff insert_iff)

lemma le_last: "sorted xs \<Longrightarrow> x \<in> set xs \<Longrightarrow> x \<le> last (xs :: nat list)"
  by (induction xs) auto

lemma highest_bit_set:
  assumes "sz \<noteq> 0"
  shows "bit sz (highest_bit_set sz)" "bit sz k \<Longrightarrow> k \<le> highest_bit_set sz"
proof -
  define l where "l = filter (bit sz) [0..<32]"
  have m: "k \<in> set l \<longleftrightarrow> bit sz k" for k using bit_imp_le_length [of sz k] by (auto simp: l_def)
  have "sorted l" unfolding l_def by (rule sorted_wrt_filter) (rule sorted_upt)
  have h: "highest_bit_set sz = last l" by (simp only: highest_bit_set_def l_def)
  have "l \<noteq> []"
  proof
    assume "l = []"
    then have "\<not> bit sz k" for k using m [of k] by simp
    then have "sz = 0" by (intro bit_word_eqI) simp
    with assms show False by simp
  qed
  then show "bit sz (highest_bit_set sz)" unfolding h using m [of "last l"] by simp
  show "bit sz k \<Longrightarrow> k \<le> highest_bit_set sz" unfolding h using m [of k] \<open>sorted l\<close> by (simp add: le_last)
qed

section \<open>The packet on the wire\<close>

lemma gen_ver_nego_shape:
  assumes "lsquic_ietf_v1_gen_ver_nego_pkt bufsz scid dcid versions rand = Some data" "\<forall>k \<ge> N_LSQVER. \<not> bit versions k"
  shows "data = (0x80 OR 0x40 OR rand) # [0, 0, 0, 0] @ [of_nat (length dcid)] @ dcid @ [of_nat (length scid)] @ scid @ tags_from 0 versions"
    and "length data = 7 + length dcid + length scid + 4 * popcount versions" "length data \<le> bufsz"
proof -
  have u: "[0..<32] = [0..<N_LSQVER] @ [N_LSQVER..<32]" by (simp add: N_LSQVER_def upt_rec)
  have pc: "length (tags_from 0 versions) = 4 * popcount versions"
  proof -
    have "filter (bit versions) [N_LSQVER..<32] = []" using assms(2) by (simp add: filter_empty_conv)
    moreover have "length (concat (map lsquic_ver2tag ns)) = 4 * length ns" for ns by (induction ns) auto
    ultimately show ?thesis unfolding popcount_def tags_from_def u by simp
  qed
  have b: "7 + length dcid + length scid + 4 * popcount versions \<le> bufsz"
    using assms(1) by (auto simp: lsquic_ietf_v1_gen_ver_nego_pkt_def Let_def split: if_splits)
  have g: "lsquic_gen_ver_tags (bufsz - 1 - 4 - 2 - length dcid - length scid) versions = Some (tags_from 0 versions)"
    unfolding lsquic_gen_ver_tags_def by (rule gen_ver_tags_from) (use assms(2) b pc in \<open>auto simp: N_LSQVER_def\<close>)
  show d: "data = (0x80 OR 0x40 OR rand) # [0, 0, 0, 0] @ [of_nat (length dcid)] @ dcid @ [of_nat (length scid)] @ scid @ tags_from 0 versions"
    using assms(1) unfolding lsquic_ietf_v1_gen_ver_nego_pkt_def Let_def g by (simp split: if_splits)
  show "length data = 7 + length dcid + length scid + 4 * popcount versions" unfolding d using pc by simp
  then show "length data \<le> bufsz" using b by simp
qed

lemma collect_tags:
  assumes "drop off (pi_data pkt) = concat (map lsquic_ver2tag ns)" "off \<le> length (pi_data pkt)" "\<forall>n \<in> set ns. n < N_LSQVER"
    "unat (pi_header_sz pkt) = length (pi_data pkt)"
  shows "collect_versions pkt off v = fold (\<lambda>n v. v OR push_bit n 1) ns v"
  using assms
proof (induction ns arbitrary: off v)
  case Nil
  then show ?case by (subst collect_versions.simps) (simp add: lsquic_packet_in_ver_next_def)
next
  case (Cons n ns)
  have d: "drop off (pi_data pkt) = lsquic_ver2tag n @ concat (map lsquic_ver2tag ns)" using Cons.prems(1) by simp
  have l: "off + 4 \<le> length (pi_data pkt)" using arg_cong [OF d, of length] Cons.prems(2) by simp
  have nx: "lsquic_packet_in_ver_next pkt off = Some (off + 4, lsquic_ver2tag n)"
    using l d Cons.prems(4) by (simp add: lsquic_packet_in_ver_next_def)
  obtain w where w: "lsquic_tag2ver (lsquic_ver2tag n) = Some w" "ver_num w = n"
    using tag2ver_ver2tag [of n] Cons.prems(3) by auto
  have d': "drop (off + 4) (pi_data pkt) = concat (map lsquic_ver2tag ns)" using drop_step [OF d] by simp
  have "collect_versions pkt off v = collect_versions pkt (off + 4) (v OR push_bit n 1)"
    by (subst collect_versions.simps) (simp only: nx w option.case prod.case)
  also have "\<dots> = fold (\<lambda>n v. v OR push_bit n 1) ns (v OR push_bit n 1)"
    by (rule Cons.IH [OF d' l]) (use Cons.prems in auto)
  finally show ?case by simp
qed

lemma collect_all:
  assumes "drop off (pi_data pkt) = tags_from 0 versions" "off \<le> length (pi_data pkt)" "unat (pi_header_sz pkt) = length (pi_data pkt)"
    "\<forall>k \<ge> N_LSQVER. \<not> bit versions k"
  shows "collect_versions pkt off 0 = versions"
proof -
  have c: "collect_versions pkt off 0 = fold (\<lambda>n v. v OR push_bit n 1) (filter (bit versions) [0..<N_LSQVER]) 0"
    by (rule collect_tags) (use assms in \<open>auto simp: tags_from_def\<close>)
  show ?thesis unfolding c
    by (rule bit_word_eqI, unfold bit_fold_push) (use assms(4) in \<open>auto simp: not_le\<close>)
qed


lemma parse_verneg:
  assumes data: "data = b0 # [0, 0, 0, 0] @ [of_nat (length dcid)] @ dcid @ [of_nat (length scid)] @ scid @ tags"
    and b0: "bit b0 7" "bit b0 6" and tags: "tags \<noteq> []" "4 dvd length tags"
    and cids: "length dcid \<le> MAX_CID_LEN" "length scid \<le> MAX_CID_LEN" and len: "length data \<le> 65535"
  shows "\<exists>pkt st'. lsquic_parse_packet_in_begin (blank_packet data) False cid_len st = PARSED (pkt, st')
    \<and> lsquic_packet_in_is_verneg pkt \<and> pi_dcid pkt = dcid \<and> unat (pi_scid_len pkt) = length scid \<and> lsquic_scid_from_packet_in pkt = scid
    \<and> drop (unat (pi_quic_ver pkt)) (pi_data pkt) = tags \<and> unat (pi_quic_ver pkt) \<le> length (pi_data pkt)
    \<and> unat (pi_header_sz pkt) = length (pi_data pkt)"
proof -
  let ?h = "long_head data HETY_VERNEG dcid scid" and ?p = "6 + length dcid + 1 + length scid"
  note head = parse_long_head [OF data tags(1) _ _ _ cids _ refl, where ht = HETY_VERNEG and is_server = False]
  have h: "lsquic_ietf_v1_parse_packet_in_long_begin (blank_packet data) False cid_len st = read_versions data ?h ?p"
      "drop ?p data = tags" "length data = ?p + length tags"
      "take (unat (pi_scid_len ?h)) (drop (unat (pi_scid_off ?h)) data) = scid"
    using head by simp_all
  have "lsquic_parse_packet_in_begin (blank_packet data) False cid_len st = lsquic_ietf_v1_parse_packet_in_long_begin (blank_packet data) False cid_len st"
    by (rule long_dispatch [of _ "[0, 0, 0, 0]"]) (use h(3) lead_C0 [OF b0] in \<open>auto simp: data TAG_Q046_def TAG_Q050_def\<close>)
  also have "\<dots> = finish_long (?h\<lparr>pi_quic_ver := of_nat ?p\<rparr>) (length data) (length data) \<lparr>pps_p = None, pps_nbytes = 0\<rparr>"
    unfolding h(1) read_versions_def using h(3) tags by (simp add: mod_eq_0_iff_dvd)
  finally have p: "lsquic_parse_packet_in_begin (blank_packet data) False cid_len st = \<dots>" .
  have q: "unat (of_nat ?p :: u8) = ?p" using cids by (simp add: unat_of_nat MAX_CID_LEN_def del: of_nat_add of_nat_Suc)
  have f: "pi_flags ?h AND PI_GQUIC = 0" "unat (pi_scid_len ?h) = length scid"
    using unat_len_byte [OF cids(2)] by (simp_all add: long_head_def Let_def blank_packet_def PI_GQUIC_def PI_CONN_ID_def)
  show ?thesis unfolding p finish_long_def
    using q h(2,3,4) f u16_of_nat [OF order_refl len]
    by (simp add: lsquic_packet_in_is_verneg_def lsquic_scid_from_packet_in_def del: of_nat_add of_nat_Suc)
qed

lemma and_0_iff: "v AND w = 0 \<longleftrightarrow> (\<forall>k. \<not> (bit v k \<and> bit (w :: u32) k))"
proof (intro iffI allI)
  fix k assume "v AND w = 0"
  then have "\<not> bit (v AND w) k" by simp
  then show "\<not> (bit v k \<and> bit w k)" by (simp add: bit_and_iff)
next
  assume "\<forall>k. \<not> (bit v k \<and> bit w k)"
  then show "v AND w = 0" by (intro bit_word_eqI) (simp add: bit_and_iff)
qed

lemma tags_nonempty:
  assumes "versions \<noteq> 0" "\<forall>k \<ge> N_LSQVER. \<not> bit versions k"
  shows "tags_from 0 versions \<noteq> []" "4 dvd length (tags_from 0 versions)"
proof -
  have "length (concat (map lsquic_ver2tag ns)) = 4 * length ns" for ns by (induction ns) auto
  then have l: "length (tags_from 0 versions) = 4 * length (filter (bit versions) [0..<N_LSQVER])" by (simp add: tags_from_def)
  then show "4 dvd length (tags_from 0 versions)" by simp
  have "highest_bit_set versions \<in> set (filter (bit versions) [0..<N_LSQVER])"
    using highest_bit_set(1) [OF assms(1)] assms(2) by (auto simp: not_le [symmetric])
  then have "filter (bit versions) [0..<N_LSQVER] \<noteq> []" by force
  with l show "tags_from 0 versions \<noteq> []" by auto
qed

text \<open>What holds of a client that was initialised with the mask \<open>supp\<close> and has received any packets since.\<close>

definition vn_inv :: "u32 \<Rightarrow> vn_conn \<Rightarrow> bool" where
  "vn_inv supp conn \<longleftrightarrow> bit (vn_supp conn) (vn_ver conn) \<and> vn_supp conn AND supp = vn_supp conn
     \<and> vc_cn_version conn = vn_ver conn \<and> vn_buf conn = lsquic_ver2tag (vn_ver conn)
     \<and> (vn_tag conn \<longleftrightarrow> vn_state conn \<noteq> VN_END) \<and> (vc_fast conn \<longleftrightarrow> vn_state conn = VN_END)
     \<and> vc_expired_all conn \<le> of_bool (vn_state conn \<noteq> VN_START)"

text \<open>The connection goes on receiving packets; after negotiation, or a failed handshake, this handler sees no more of them.\<close>

fun vn_run :: "vn_conn \<Rightarrow> lsquic_packet_in list \<Rightarrow> vn_conn" where
  "vn_run conn [] = conn"
| "vn_run conn (pkt # pkts) =
     (if vc_fast conn \<or> vc_hsk_failed conn then conn else vn_run (fst (process_incoming_packet_verneg conn pkt)) pkts)"

lemma process_verneg_inv:
  assumes "vn_inv supp conn"
  shows "vn_inv supp (fst (process_incoming_packet_verneg conn pkt))"
proof -
  define versions where "versions = collect_versions pkt (unat (pi_quic_ver pkt)) 0"
  have s: "(versions AND vn_supp conn) AND supp = versions AND vn_supp conn"
    using assms by (simp add: vn_inv_def and.assoc)
  have "vn_inv supp ((set_versions conn (versions AND vn_supp conn) None)\<lparr>vn_state := VN_IN_PROGRESS, vc_expired_all := Suc (vc_expired_all conn)\<rparr>)"
    if "vn_state conn = VN_START" "versions AND vn_supp conn \<noteq> 0"
    using that assms s highest_bit_set(1) [OF that(2)] by (simp add: vn_inv_def set_versions_def Let_def)
  then show ?thesis
    using assms unfolding process_incoming_packet_verneg_def versions_def [symmetric] Let_def
    by (auto simp: abort_hsk_def vn_inv_def set_versions_def Let_def)
qed

section \<open>Properties\<close>

text \<open>
  C10. Version negotiation, end to end.  The server lists the versions it supports in a packet that echoes
  the connection IDs; the client, which has not yet seen such a packet, parses it.  If the list contains the
  version the client used, the packet is ignored; if the client may not negotiate or there is no common
  version, the handshake fails; otherwise the client switches to the highest common version, and will resend
  everything.
\<close>

theorem version_negotiation:
  assumes gen: "lsquic_ietf_v1_gen_ver_nego_pkt bufsz (vc_cur_dcid conn) (vc_cn_cid conn) versions rand = Some data"
    and versions: "versions \<noteq> 0" "\<forall>k \<ge> N_LSQVER. \<not> bit versions k"
    and cids: "length (vc_cn_cid conn) \<le> MAX_CID_LEN" "length (vc_cur_dcid conn) \<le> MAX_CID_LEN" and len: "bufsz \<le> 65535"
    and start: "vn_state conn = VN_START"
  shows "\<exists>pkt st'. lsquic_parse_packet_in_begin (blank_packet data) False cid_len st = PARSED (pkt, st') \<and>
    (let (conn', r) = process_incoming_packet_verneg conn pkt; common = (\<lambda>v. bit versions v \<and> bit (vn_supp conn) v) in
     if bit versions (vn_ver conn) then conn' = conn \<and> r = VN_RETURN 0
     else if \<not> verneg_ok conn \<or> (\<forall>v. \<not> common v) then conn' = conn\<lparr>vc_hsk_failed := True\<rparr> \<and> r = VN_RETURN (- 1)
     else r = VN_RETURN 0 \<and> vn_state conn' = VN_IN_PROGRESS \<and> common (vn_ver conn') \<and> (\<forall>v. common v \<longrightarrow> v \<le> vn_ver conn')
        \<and> vc_cn_version conn' = vn_ver conn' \<and> vn_buf conn' = lsquic_ver2tag (vn_ver conn')
        \<and> vc_expired_all conn' = vc_expired_all conn + 1)"
proof -
  note shape = gen_ver_nego_shape [OF gen versions(2)]
  have b0: "bit (0x80 OR 0x40 OR rand) 7" "bit (0x80 OR 0x40 OR rand) 6" by (simp_all add: bit_or_iff)
  note tags = tags_nonempty [OF versions]
  have "length data \<le> 65535" using shape(3) len by simp
  then obtain pkt st' where p: "lsquic_parse_packet_in_begin (blank_packet data) False cid_len st = PARSED (pkt, st')"
    and v: "lsquic_packet_in_is_verneg pkt" "pi_dcid pkt = vc_cn_cid conn" "unat (pi_scid_len pkt) = length (vc_cur_dcid conn)"
      "lsquic_scid_from_packet_in pkt = vc_cur_dcid conn"
    and t: "drop (unat (pi_quic_ver pkt)) (pi_data pkt) = tags_from 0 versions" "unat (pi_quic_ver pkt) \<le> length (pi_data pkt)"
      "unat (pi_header_sz pkt) = length (pi_data pkt)"
    using parse_verneg [OF shape(1) b0 tags cids, of cid_len st] by blast
  have c: "collect_versions pkt (unat (pi_quic_ver pkt)) 0 = versions" by (rule collect_all [OF t versions(2)])
  note z = and_0_iff [of versions "vn_supp conn"]
  have "process_incoming_packet_verneg conn pkt =
      (if bit versions (vn_ver conn) then (conn, VN_RETURN 0)
       else if \<not> verneg_ok conn \<or> versions AND vn_supp conn = 0 then abort_hsk conn
       else let conn = set_versions conn (versions AND vn_supp conn) None in
         (conn\<lparr>vn_state := VN_IN_PROGRESS, vc_expired_all := vc_expired_all conn + 1\<rparr>, VN_RETURN 0))"
    unfolding process_incoming_packet_verneg_def c Let_def and_push_0 using v start by simp
  with p highest_bit_set [of "versions AND vn_supp conn"] z show ?thesis
    by (intro exI [of _ pkt] exI [of _ st'])
      (auto simp: abort_hsk_def set_versions_def Let_def bit_and_iff not_le [symmetric])
qed

definition sample_client :: vn_conn where
  "sample_client = init_ver_neg \<lparr>vn_supp = 0, vn_ver = 0, vn_state = VN_END, vn_buf = [], vn_tag = False, vc_cn_version = 0,
     vc_ver_set = False, vc_cn_cid = [1, 2, 3], vc_cur_dcid = [4, 5, 6, 7, 8, 9, 10, 11], vc_hsk_failed = False, vc_fast = False,
     vc_expired_all = 0\<rparr> 0x58 None"

theorem version_negotiation_witness:
  "\<exists>data pkt st'. lsquic_ietf_v1_gen_ver_nego_pkt 1200 (vc_cur_dcid sample_client) (vc_cn_cid sample_client) 0x3F 5 = Some data
    \<and> lsquic_parse_packet_in_begin (blank_packet data) False 3 \<lparr>pps_p = None, pps_nbytes = 0\<rparr> = PARSED (pkt, st')
    \<and> vn_ver sample_client = 6 \<and> vn_ver (fst (process_incoming_packet_verneg sample_client pkt)) = 4"
proof -
  have s: "vn_ver sample_client = 6" "vn_supp sample_client = 0x58" "vn_state sample_client = VN_START" "verneg_ok sample_client"
      "length (vc_cn_cid sample_client) \<le> MAX_CID_LEN" "length (vc_cur_dcid sample_client) \<le> MAX_CID_LEN"
    by code_simp+
  have "lsquic_ietf_v1_gen_ver_nego_pkt 1200 (vc_cur_dcid sample_client) (vc_cn_cid sample_client) 0x3F 5 \<noteq> None" by code_simp
  then obtain data where g: "lsquic_ietf_v1_gen_ver_nego_pkt 1200 (vc_cur_dcid sample_client) (vc_cn_cid sample_client) 0x3F 5 = Some data"
    by blast
  define a :: u32 where "a = 0x3F"
  have lt: "v < 6" if "bit a v" for v by (rule bit_lt_pow [OF _ that]) (simp add: a_def)
  have a: "a \<noteq> 0" "\<not> bit a 6" "bit a 4" by (simp_all add: a_def)
  have a7: "\<forall>k \<ge> N_LSQVER. \<not> bit a k" by (auto simp: N_LSQVER_def dest: lt)
  have a5: "v \<le> 5" if "bit a v" for v using lt [OF that] by linarith
  have c: "bit (vn_supp sample_client) 4" "\<not> bit (vn_supp sample_client) 5" by (simp_all add: s(2))
  have nc: "(\<forall>v. \<not> (bit a v \<and> bit (vn_supp sample_client) v)) = False" using a(3) c(1) by blast
  obtain pkt st' where p: "lsquic_parse_packet_in_begin (blank_packet data) False 3 \<lparr>pps_p = None, pps_nbytes = 0\<rparr> = PARSED (pkt, st')"
    and r: "case process_incoming_packet_verneg sample_client pkt of (conn', r) \<Rightarrow>
      (bit a (vn_ver conn') \<and> bit (vn_supp sample_client) (vn_ver conn'))
      \<and> (\<forall>v. bit a v \<and> bit (vn_supp sample_client) v \<longrightarrow> v \<le> vn_ver conn')"
    using version_negotiation [OF g [folded a_def] a(1) a7 s(5,6) _ s(3), of 3 "\<lparr>pps_p = None, pps_nbytes = 0\<rparr>"]
    unfolding Let_def nc s(1) split_def using a(2) s(4) by (simp only: simp_thms if_False not_False_eq_True) auto
  obtain conn' x where q: "process_incoming_packet_verneg sample_client pkt = (conn', x)" by (metis surj_pair)
  have "4 \<le> vn_ver conn'" "vn_ver conn' \<le> 5" "vn_ver conn' \<noteq> 5" using r a(3) a5 c unfolding q by auto
  then have "vn_ver conn' = 4" by linarith
  with g p q s(1) show ?thesis by auto
qed

text \<open>
  C39. Whatever packets a client receives, the version it uses is one it supports, the tag it puts into its packets
  belongs to that version, it starts over at most once, and the assertions of the handler hold: the tag is there as
  long as the negotiation has not ended.
\<close>

theorem version_negotiation_invariant:
  assumes "versions \<noteq> 0" "case ver of None \<Rightarrow> True | Some v \<Rightarrow> bit versions v" "vc_expired_all conn = 0" "\<not> vc_fast conn"
    and "conn' = vn_run (init_ver_neg conn versions ver) pkts"
  shows "bit versions (vn_ver conn') \<and> vc_cn_version conn' = vn_ver conn' \<and> vn_buf conn' = lsquic_ver2tag (vn_ver conn')
     \<and> (vn_tag conn' \<longleftrightarrow> vn_state conn' \<noteq> VN_END) \<and> vc_expired_all conn' \<le> 1"
proof -
  have init: "vn_inv versions (init_ver_neg conn versions ver)"
    using assms(1-4) highest_bit_set(1) [OF assms(1)]
    by (auto simp: vn_inv_def init_ver_neg_def set_versions_def Let_def split: option.splits)
  have "vn_inv versions (vn_run c pkts)" if "vn_inv versions c" for c
    using that by (induction pkts arbitrary: c) (auto simp: process_verneg_inv)
  from this [OF init] have inv: "vn_inv versions conn'" unfolding assms(5) .
  then have "bit (vn_supp conn' AND versions) (vn_ver conn')" unfolding vn_inv_def by simp
  then have "bit versions (vn_ver conn')" by (simp add: bit_and_iff)
  moreover have "vc_expired_all conn' \<le> 1" using inv by (auto simp: vn_inv_def of_bool_def split: if_splits)
  ultimately show ?thesis using inv by (simp add: vn_inv_def)
qed

theorem version_negotiation_invariant_witness:
  "bit (0x58 :: u32) (vn_ver (vn_run sample_client [blank_packet []])) \<and> vn_state (vn_run sample_client [blank_packet []]) = VN_END"
proof -
  let ?c = "\<lparr>vn_supp = 0, vn_ver = 0, vn_state = VN_END, vn_buf = [], vn_tag = False, vc_cn_version = 0,
     vc_ver_set = False, vc_cn_cid = [1, 2, 3], vc_cur_dcid = [4, 5, 6, 7, 8, 9, 10, 11], vc_hsk_failed = False, vc_fast = False,
     vc_expired_all = 0\<rparr>"
  have "bit (0x58 :: u32) (vn_ver (vn_run (init_ver_neg ?c 0x58 None) [blank_packet []]))"
    using version_negotiation_invariant [of "0x58" None ?c _ "[blank_packet []]", OF _ _ _ _ refl] by simp
  moreover have "vn_state (vn_run sample_client [blank_packet []]) = VN_END"
    by (simp add: sample_client_def init_ver_neg_def set_versions_def Let_def process_incoming_packet_verneg_def
        lsquic_packet_in_is_verneg_def blank_packet_def)
  ultimately show ?thesis unfolding sample_client_def by simp
qed


end
