(* ===== verification/Rtt.thy ===== *)
theory Rtt
  imports Quic_Prelude
begin

text \<open>
  Round-trip time statistics (\<^verbatim>\<open>lsquic_rtt.c\<close>) and the history of sent packet numbers
  (\<^verbatim>\<open>lsquic_senhist.h\<close>).  \<^verbatim>\<open>llabs\<close> of the signed difference is modelled on \<open>sint\<close>.
\<close>

section \<open>Definitions\<close>

unbundle bit_operations_syntax

record lsquic_rtt_stats =
  srtt :: qtime
  rttvar :: qtime
  min_rtt :: qtime

definition lsquic_rtt_stats_update :: "lsquic_rtt_stats \<Rightarrow> qtime \<Rightarrow> qtime \<Rightarrow> lsquic_rtt_stats" where
  "lsquic_rtt_stats_update stats send_delta lack_delta =
     (let send_delta = (if send_delta > lack_delta then send_delta - lack_delta else send_delta) in
      if srtt stats \<noteq> 0 then
        let rv = rttvar stats - drop_bit 2 (rttvar stats);
            rv = rv + drop_bit 2 (word_of_int \<bar>sint (send_delta - srtt stats)\<bar>);
            sr = srtt stats - drop_bit 3 (srtt stats);
            sr = sr + drop_bit 3 send_delta in
        \<lparr>srtt = sr, rttvar = rv, min_rtt = (if send_delta < min_rtt stats then send_delta else min_rtt stats)\<rparr>
      else \<lparr>srtt = send_delta, rttvar = drop_bit 1 send_delta, min_rtt = send_delta\<rparr>)"

definition lsquic_senhist_init :: "bool \<Rightarrow> packno" where
  "lsquic_senhist_init is_ietf = (if is_ietf then NOT 0 else 0)"

definition lsquic_senhist_add :: "packno \<Rightarrow> packno \<Rightarrow> packno" where
  "lsquic_senhist_add last_sent packno = (if sint packno > sint last_sent then packno else last_sent)"

section \<open>Bounds\<close>

lemma drop_bit_uint: "uint (drop_bit k (w :: u64)) = uint w div 2 ^ k"
  using uint_lt2p [of w] by (subst unsigned_drop_bit_eq) (simp add: drop_bit_eq_div take_bit_int_eq_self)

text \<open>One step of the moving average stays between two bounds that hold of the average and of the sample.\<close>

lemma average_step:
  fixes x y lo hi :: u64
  assumes "lo \<le> x" "x \<le> hi" "lo \<le> y" "y \<le> hi"
  shows "lo \<le> x - drop_bit 3 x + drop_bit 3 y" "x - drop_bit 3 x + drop_bit 3 y \<le> hi"
proof -
  let ?x = "uint x" and ?y = "uint y"
  have a: "uint lo \<le> ?x" "?x \<le> uint hi" "uint lo \<le> ?y" "?y \<le> uint hi" using assms by (simp_all add: word_le_def)
  have d: "uint (drop_bit 3 x) = ?x div 8" "uint (drop_bit 3 y) = ?y div 8" by (simp_all add: drop_bit_uint)
  have lo: "uint lo \<le> ?x - ?x div 8 + ?y div 8" using a(1,3) by presburger
  have hi: "?x - ?x div 8 + ?y div 8 \<le> uint hi" using a(2,4) by presburger
  have "uint (x - drop_bit 3 x + drop_bit 3 y) = (?x - ?x div 8 + ?y div 8) mod 2 ^ 64"
    by (simp add: uint_word_ariths d mod_simps)
  also have "\<dots> = ?x - ?x div 8 + ?y div 8"
    using order_trans [OF uint_ge_0 [of lo] lo] le_less_trans [OF hi uint_lt2p [of hi]] by (intro mod_pos_pos_trivial) simp_all
  finally have u: "uint (x - drop_bit 3 x + drop_bit 3 y) = ?x - ?x div 8 + ?y div 8" .
  show "lo \<le> x - drop_bit 3 x + drop_bit 3 y" "x - drop_bit 3 x + drop_bit 3 y \<le> hi"
    unfolding word_le_def u using lo hi by simp_all
qed

text \<open>A sample, less the delay the peer reports unless that is too long.\<close>

definition adjusted :: "qtime \<times> qtime \<Rightarrow> qtime" where
  "adjusted = (\<lambda>(send_delta, lack_delta). if send_delta > lack_delta then send_delta - lack_delta else send_delta)"

lemma rtt_update_bounds:
  assumes "srtt st \<noteq> 0 \<longrightarrow> lo \<le> srtt st \<and> srtt st \<le> hi" "lo \<le> adjusted (sd, ld)" "adjusted (sd, ld) \<le> hi"
  shows "lo \<le> srtt (lsquic_rtt_stats_update st sd ld)" "srtt (lsquic_rtt_stats_update st sd ld) \<le> hi"
    and "min_rtt (lsquic_rtt_stats_update st sd ld) = (if srtt st \<noteq> 0 then min (min_rtt st) (adjusted (sd, ld)) else adjusted (sd, ld))"
  using assms average_step [of lo "srtt st" hi "adjusted (sd, ld)"]
  by (auto simp: lsquic_rtt_stats_update_def adjusted_def Let_def min_def)

section \<open>Properties\<close>

text \<open>
  C40. However many samples are taken, if every sample (less the peer's acknowledgement delay, unless that is too long)
  lies between two positive bounds, then so does the smoothed round-trip time, in spite of the rounding; and the minimum
  recorded is the smallest adjusted sample.
\<close>

theorem rtt_within_samples:
  assumes "samples \<noteq> []" "\<forall>s \<in> set samples. lo \<le> adjusted s \<and> adjusted s \<le> hi" "0 < lo"
    and "st = fold (\<lambda>(sd, ld) st. lsquic_rtt_stats_update st sd ld) samples \<lparr>srtt = 0, rttvar = 0, min_rtt = 0\<rparr>"
  shows "lo \<le> srtt st \<and> srtt st \<le> hi \<and> min_rtt st = Min (adjusted ` set samples)"
proof -
  let ?upd = "\<lambda>(sd, ld) st. lsquic_rtt_stats_update st sd ld"
  let ?ok = "\<lambda>seen st. lo \<le> srtt st \<and> srtt st \<le> hi \<and> min_rtt st = Min (adjusted ` set seen)"
  have step: "?ok (seen @ [s]) (?upd s st)" if "?ok seen st" "seen \<noteq> []" "lo \<le> adjusted s" "adjusted s \<le> hi" for seen s st
  proof -
    obtain sd ld where s: "s = (sd, ld)" by (cases s)
    have nz: "srtt st \<noteq> 0" using that(1) assms(3) by (metis leD)
    show ?thesis using rtt_update_bounds [of st lo hi sd ld] that nz unfolding s by (auto simp: min.commute)
  qed
  have run: "?ok (seen @ ss) (fold ?upd ss st)" if "?ok seen st" "seen \<noteq> []" "\<forall>s \<in> set ss. lo \<le> adjusted s \<and> adjusted s \<le> hi" for seen ss st
    using that
  proof (induction ss arbitrary: seen st)
    case (Cons s ss)
    then have "?ok (seen @ [s]) (?upd s st)" by (intro step) auto
    from Cons.IH [OF this] Cons.prems show ?case by simp
  qed simp
  obtain s ss where ss: "samples = s # ss" using assms(1) by (cases samples) auto
  obtain sd ld where s: "s = (sd, ld)" by (cases s)
  have "?ok [s] (?upd s \<lparr>srtt = 0, rttvar = 0, min_rtt = 0\<rparr>)"
    using rtt_update_bounds [of "\<lparr>srtt = 0, rttvar = 0, min_rtt = 0\<rparr>" lo hi sd ld] assms(2) unfolding ss s by simp
  from run [OF this, of ss] assms(2) show ?thesis unfolding assms(4) ss by simp
qed

theorem rtt_within_samples_witness:
  "let st = fold (\<lambda>(sd, ld) st. lsquic_rtt_stats_update st sd ld) [(100, 20), (95, 200), (1000, 15)] \<lparr>srtt = 0, rttvar = 0, min_rtt = 0\<rparr>
   in 80 \<le> srtt st \<and> srtt st \<le> 985 \<and> min_rtt st = 80"
proof -
  let ?s = "[(100, 20), (95, 200), (1000, 15)] :: (qtime \<times> qtime) list"
  have a: "adjusted (100, 20) = 80" "adjusted (95, 200) = 95" "adjusted (1000, 15) = 985" by (simp_all add: adjusted_def)
  have "\<forall>s \<in> set ?s. 80 \<le> adjusted s \<and> adjusted s \<le> 985" by (simp add: a)
  from rtt_within_samples [OF _ this _ refl] show ?thesis by (simp add: a Let_def)
qed

end
