(* ===== verification/Send_Ctl.thy ===== *)
theory Send_Ctl
  imports Complex_Main Packet_Frames Rechist Rtt
begin

text \<open>
  The send controller with adaptive retransmission (\<^verbatim>\<open>lsquic_send_ctl.c\<close>,
  \<^verbatim>\<open>lsquic_art_feedback.c\<close>): the queues of sent, lost and scheduled packets, the chains that link a
  packet with the records of its earlier transmissions, acknowledgements, loss detection and the scheduling of
  duplicates.

  Packets live in a heap: an address (\<open>pid\<close>) is mapped to a packet or, if nothing is allocated there, to
  \<open>None\<close>.  A queue is the list of the addresses of its members; a flag of \<^verbatim>\<open>po_flags\<close> or
  \<^verbatim>\<open>sc_flags\<close> is a boolean member.  The functions are partial: \<open>None\<close> is an access through a
  null or dangling pointer, an access outside an array, or a loop that does not end.  The sizes that the parser
  functions compute for a packet are the member \<open>po_total_sz\<close>.

  What the environment supplies is in the record \<open>sc_env\<close>: the clock, whether an allocation fails, and the
  random numbers.  The calls into the congestion controller, the pacer, the streams and the bandwidth sampler do not
  change the state modelled here; they, the assertions of debug builds and the logging are left out.
\<close>

section \<open>State\<close>

unbundle bit_operations_syntax

type_synonym pid = nat

datatype packnum_space = PNS_INIT | PNS_HSK | PNS_APP

record sc_packet =
  po_packno :: packno
  po_pns :: packnum_space
  po_sched :: bool
  po_unacked :: bool
  po_lost :: bool
  po_loss_rec :: bool
  po_poison :: bool
  po_mtu_probe :: bool
  po_has_sent_sz :: bool             \<comment> \<open>\<^verbatim>\<open>PO_SENT_SZ\<close>\<close>
  po_retx :: bool
  po_mini :: bool
  po_repackno :: bool
  po_hello :: bool
  po_facked :: bool                  \<comment> \<open>\<^verbatim>\<open>POL_FACKED\<close>\<close>
  po_forw :: bool                    \<comment> \<open>the encryption level is \<^verbatim>\<open>ENC_LEV_FORW\<close>\<close>
  po_initial :: bool                 \<comment> \<open>the header type is \<^verbatim>\<open>HETY_INITIAL\<close>\<close>
  po_ecn :: nat
  po_frame_types :: u32
  po_sent_sz :: u16
  po_total_sz :: u32
  po_regen_sz :: u16
  po_data_sz :: u16
  po_sent :: qtime
  po_ack2ed :: packno
  po_loss_chain :: pid
  po_retrans_times :: u16
  po_retrans_packet_number :: u16
  po_need_retrans_number :: u16
  po_fake_loss_rec :: u16
  po_been_detect_loss :: u16
  po_feedback_recorded :: u16
  po_retrans_no :: packno
  po_remained_time :: qtime
  po_last_lost_time :: qtime
  po_expected_sent :: qtime

record send_ctl =
  sc_heap :: "pid \<Rightarrow> sc_packet option"
  sc_fresh :: pid
  sc_unacked_packets :: "packnum_space \<Rightarrow> pid list"
  sc_scheduled_packets :: "pid list"
  sc_lost_packets :: "pid list"
  sc_feedback_window :: "int list"
  sc_feedback_window_size :: u32
  sc_largest_feedback_window :: u32
  sc_rounds_map :: "u32 list"
  sc_art_flag :: u32
  sc_all_retrans_packet_num :: u64
  sc_lost_packet_number :: u32
  sc_bytes_unacked_retx :: u32
  sc_bytes_scheduled :: u32
  sc_bytes_unacked_all :: u32
  sc_n_in_flight_all :: u32
  sc_n_in_flight_retx :: u32
  sc_n_scheduled :: u32
  sc_n_consec_rtos :: u32
  sc_n_hsk :: u32
  sc_n_tlp :: u32
  sc_next_limit :: u32
  sc_retx_frames :: u32
  sc_last_sent :: packno             \<comment> \<open>\<^verbatim>\<open>sc_senhist\<close>\<close>
  sc_cur_packno :: packno
  sc_gap :: packno
  sc_largest_acked_packno :: packno
  sc_largest_acked_sent_time :: qtime
  sc_last_sent_time :: qtime
  sc_last_rto_time :: qtime
  sc_largest_sent_at_cutback :: packno
  sc_max_rtt_packno :: packno
  sc_largest_ack2ed :: "packnum_space \<Rightarrow> packno"
  sc_loss_to :: qtime
  sc_ecn :: nat
  sc_ecn_total_acked :: "packnum_space \<Rightarrow> u64"
  sc_ecn_ce_cnt :: "packnum_space \<Rightarrow> u64"
  sc_rt_count :: u32
  sc_cur_rt_end :: packno
  sc_loss_count :: u32
  sc_reord_thresh :: u32
  sc_n_stop_waiting :: u32
  sc_ietf :: bool
  sc_nstp :: bool
  sc_was_quiet :: bool
  sc_1rtt_acked :: bool
  sc_rough_rtt :: bool
  sc_has_poison :: bool
  sc_lost_ack :: "packnum_space \<Rightarrow> bool"
  sc_ack_recv :: "packnum_space \<Rightarrow> bool"
  sc_hsk_done :: bool                \<comment> \<open>\<^verbatim>\<open>LSCONN_HANDSHAKE_DONE\<close> of the connection\<close>
  sc_max_peer_ack_usec :: qtime
  sc_rtt :: lsquic_rtt_stats
  sc_al_retx :: "packnum_space \<Rightarrow> qtime option"   \<comment> \<open>the alarms \<^verbatim>\<open>AL_RETX_INIT + pns\<close>\<close>
  sc_al_art :: "qtime option"        \<comment> \<open>the alarm \<^verbatim>\<open>AL_ART_SCHE\<close>\<close>

record sc_env =
  env_now :: qtime                   \<comment> \<open>\<^verbatim>\<open>lsquic_time_now\<close>\<close>
  env_alloc_fails :: "pid \<Rightarrow> bool"   \<comment> \<open>the allocation of this address fails\<close>
  env_rand :: "pid \<Rightarrow> u64"           \<comment> \<open>\<^verbatim>\<open>rand()\<close>, by the packet it is drawn for\<close>
  env_crand :: u8                    \<comment> \<open>\<^verbatim>\<open>lsquic_crand_get_byte\<close>\<close>
  env_elide :: "sc_packet \<Rightarrow> sc_packet"   \<comment> \<open>\<^verbatim>\<open>lsquic_packet_out_elide_reset_stream_frames\<close>, by the state of the streams\<close>
  env_can_send :: "send_ctl \<Rightarrow> bool"   \<comment> \<open>congestion window and pacer\<close>
  env_pack_size :: u32               \<comment> \<open>\<^verbatim>\<open>SC_PACK_SIZE\<close>\<close>
  env_split :: "send_ctl \<Rightarrow> pid \<Rightarrow> (send_ctl \<times> bool) option"   \<comment> \<open>\<^verbatim>\<open>split_lost_packet\<close>\<close>

definition MAX_ROUND_BOUND :: nat where "MAX_ROUND_BOUND = 20"
definition MAX_FEEDBACK_WINDOW_SIZE :: u32 where "MAX_FEEDBACK_WINDOW_SIZE = 10"
definition N_NACKS_BEFORE_RETX :: u32 where "N_NACKS_BEFORE_RETX = 3"
definition MAX_RTO_BACKOFFS :: u32 where "MAX_RTO_BACKOFFS = 10"
definition DEFAULT_RETX_DELAY :: qtime where "DEFAULT_RETX_DELAY = 500000"
definition MAX_RTO_DELAY :: qtime where "MAX_RTO_DELAY = 60000000"
definition MIN_RTO_DELAY :: qtime where "MIN_RTO_DELAY = 200000"

section \<open>Heap and queues\<close>

definition upd_packet :: "pid \<Rightarrow> (sc_packet \<Rightarrow> sc_packet) \<Rightarrow> send_ctl \<Rightarrow> send_ctl option" where
  "upd_packet p f ctl = (case sc_heap ctl p of None \<Rightarrow> None | Some x \<Rightarrow> Some (ctl\<lparr>sc_heap := (sc_heap ctl)(p \<mapsto> f x)\<rparr>))"

definition malo_get :: "sc_env \<Rightarrow> send_ctl \<Rightarrow> pid option \<times> send_ctl" where
  "malo_get env ctl = (if env_alloc_fails env (sc_fresh ctl) then None else Some (sc_fresh ctl), ctl\<lparr>sc_fresh := sc_fresh ctl + 1\<rparr>)"

text \<open>\<^verbatim>\<open>TAILQ_NEXT\<close> and \<^verbatim>\<open>TAILQ_INSERT_BEFORE\<close>; \<^verbatim>\<open>TAILQ_REMOVE\<close> is \<^const>\<open>remove1\<close>.\<close>

fun tailq_next :: "'a list \<Rightarrow> 'a \<Rightarrow> 'a option" where
  "tailq_next [] x = None"
| "tailq_next (y # ys) x = (if y = x then (case ys of [] \<Rightarrow> None | z # _ \<Rightarrow> Some z) else tailq_next ys x)"

fun insert_before_pid :: "'a \<Rightarrow> 'a \<Rightarrow> 'a list \<Rightarrow> 'a list" where
  "insert_before_pid x new [] = []"
| "insert_before_pid x new (y # ys) = (if y = x then new # y # ys else y # insert_before_pid x new ys)"

definition packet_out_sent_sz :: "sc_packet \<Rightarrow> u32" where
  "packet_out_sent_sz x = (if po_has_sent_sz x then ucast (po_sent_sz x) else po_total_sz x)"

definition has_frames :: "sc_packet \<Rightarrow> u32 \<Rightarrow> bool" where
  "has_frames x fts = (po_frame_types x AND fts \<noteq> 0)"

definition set_unacked :: "packnum_space \<Rightarrow> pid list \<Rightarrow> send_ctl \<Rightarrow> send_ctl" where
  "set_unacked pns q ctl = ctl\<lparr>sc_unacked_packets := (sc_unacked_packets ctl)(pns := q)\<rparr>"

definition send_ctl_unacked_append :: "send_ctl \<Rightarrow> pid \<Rightarrow> send_ctl option" where
  "send_ctl_unacked_append ctl p = do {
     x \<leftarrow> sc_heap ctl p;
     let ctl = set_unacked (po_pns x) (sc_unacked_packets ctl (po_pns x) @ [p]) ctl;
     ctl \<leftarrow> upd_packet p (\<lambda>x. x\<lparr>po_unacked := True\<rparr>) ctl;
     let ctl = ctl\<lparr>sc_bytes_unacked_all := sc_bytes_unacked_all ctl + packet_out_sent_sz x,
                   sc_n_in_flight_all := sc_n_in_flight_all ctl + 1\<rparr>;
     Some (if has_frames x (sc_retx_frames ctl)
           then ctl\<lparr>sc_bytes_unacked_retx := sc_bytes_unacked_retx ctl + po_total_sz x,
                    sc_n_in_flight_retx := sc_n_in_flight_retx ctl + 1\<rparr>
           else ctl)
   }"

definition send_ctl_unacked_remove :: "send_ctl \<Rightarrow> pid \<Rightarrow> u32 \<Rightarrow> send_ctl option" where
  "send_ctl_unacked_remove ctl p packet_sz = do {
     x \<leftarrow> sc_heap ctl p;
     let ctl = set_unacked (po_pns x) (remove1 p (sc_unacked_packets ctl (po_pns x))) ctl;
     ctl \<leftarrow> upd_packet p (\<lambda>x. x\<lparr>po_unacked := False\<rparr>) ctl;
     let ctl = ctl\<lparr>sc_bytes_unacked_all := sc_bytes_unacked_all ctl - packet_sz,
                   sc_n_in_flight_all := sc_n_in_flight_all ctl - 1\<rparr>;
     Some (if has_frames x (sc_retx_frames ctl)
           then ctl\<lparr>sc_bytes_unacked_retx := sc_bytes_unacked_retx ctl - packet_sz,
                    sc_n_in_flight_retx := sc_n_in_flight_retx ctl - 1\<rparr>
           else ctl)
   }"

definition send_ctl_sched_Xpend_common :: "send_ctl \<Rightarrow> pid \<Rightarrow> send_ctl option" where
  "send_ctl_sched_Xpend_common ctl p = do {
     x \<leftarrow> sc_heap ctl p;
     ctl \<leftarrow> upd_packet p (\<lambda>x. x\<lparr>po_sched := True\<rparr>) ctl;
     Some (ctl\<lparr>sc_n_scheduled := sc_n_scheduled ctl + 1, sc_bytes_scheduled := sc_bytes_scheduled ctl + po_total_sz x\<rparr>)
   }"

definition send_ctl_sched_append :: "send_ctl \<Rightarrow> pid \<Rightarrow> send_ctl option" where
  "send_ctl_sched_append ctl p =
     send_ctl_sched_Xpend_common (ctl\<lparr>sc_scheduled_packets := sc_scheduled_packets ctl @ [p]\<rparr>) p"

definition send_ctl_sched_prepend :: "send_ctl \<Rightarrow> pid \<Rightarrow> send_ctl option" where
  "send_ctl_sched_prepend ctl p =
     send_ctl_sched_Xpend_common (ctl\<lparr>sc_scheduled_packets := p # sc_scheduled_packets ctl\<rparr>) p"

definition send_ctl_sched_remove :: "send_ctl \<Rightarrow> pid \<Rightarrow> send_ctl option" where
  "send_ctl_sched_remove ctl p = do {
     x \<leftarrow> sc_heap ctl p;
     let ctl = ctl\<lparr>sc_scheduled_packets := remove1 p (sc_scheduled_packets ctl)\<rparr>;
     ctl \<leftarrow> upd_packet p (\<lambda>x. x\<lparr>po_sched := False\<rparr>) ctl;
     Some (ctl\<lparr>sc_n_scheduled := sc_n_scheduled ctl - 1, sc_bytes_scheduled := sc_bytes_scheduled ctl - po_total_sz x\<rparr>)
   }"

definition send_ctl_destroy_packet :: "send_ctl \<Rightarrow> pid \<Rightarrow> send_ctl option" where
  "send_ctl_destroy_packet ctl p = do { _ \<leftarrow> sc_heap ctl p; Some (ctl\<lparr>sc_heap := (sc_heap ctl)(p := None)\<rparr>) }"

section \<open>Chains\<close>

text \<open>The loop that marks the packets to the right.\<close>

fun mark_repackno :: "send_ctl \<Rightarrow> pid list \<Rightarrow> send_ctl option" where
  "mark_repackno ctl [] = Some ctl"
| "mark_repackno ctl (p # ps) = do {
     x \<leftarrow> sc_heap ctl p;
     if po_repackno x then Some ctl
     else do { ctl \<leftarrow> upd_packet p (\<lambda>x. x\<lparr>po_repackno := True\<rparr>) ctl; mark_repackno ctl ps }
   }"

definition send_ctl_maybe_renumber_sched_to_right :: "send_ctl \<Rightarrow> pid \<Rightarrow> send_ctl option" where
  "send_ctl_maybe_renumber_sched_to_right ctl cur = do {
     x \<leftarrow> sc_heap ctl cur;
     if po_repackno x then Some ctl
     else mark_repackno (ctl\<lparr>sc_cur_packno := po_packno x - 1\<rparr>) (tl (dropWhile (\<lambda>q. q \<noteq> cur) (sc_scheduled_packets ctl)))
   }"

text \<open>
  What the loop of \<^verbatim>\<open>send_ctl_destroy_chain\<close> does to one member of the chain, before it is destroyed.
  \<open>pns\<close> is that of the packet whose chain it is.
\<close>

definition chain_member_leaves :: "send_ctl \<Rightarrow> packnum_space \<Rightarrow> pid \<Rightarrow> send_ctl option" where
  "chain_member_leaves ctl pns cur = do {
     x \<leftarrow> sc_heap ctl cur;
     if po_sched x \<and> \<not> po_unacked x \<and> \<not> po_lost x then do {
       ctl \<leftarrow> send_ctl_maybe_renumber_sched_to_right ctl cur;
       send_ctl_sched_remove ctl cur
     }
     else if po_unacked x \<and> \<not> po_sched x \<and> \<not> po_lost x then
       if po_loss_rec x then
         let ctl = (if po_fake_loss_rec x = 1
                    then ctl\<lparr>sc_n_in_flight_all := sc_n_in_flight_all ctl - 1,
                             sc_bytes_unacked_all := sc_bytes_unacked_all ctl - ucast (po_sent_sz x)\<rparr>
                    else ctl)
         in Some (set_unacked pns (remove1 cur (sc_unacked_packets ctl pns)) ctl)
       else send_ctl_unacked_remove ctl cur (packet_out_sent_sz x)
     else if po_lost x \<and> \<not> po_sched x \<and> \<not> po_unacked x then
       Some (ctl\<lparr>sc_lost_packets := remove1 cur (sc_lost_packets ctl), sc_lost_packet_number := sc_lost_packet_number ctl - 1\<rparr>)
     else Some ctl
   }"

text \<open>
  The argument \<open>next\<close> is the pointer that the caller's traversal of the unacked queue continues with; it moves
  on when its packet goes.  A removed packet keeps its link, so its successor is the one it had in the queue.
\<close>

partial_function (option) destroy_chain_loop ::
  "pid \<Rightarrow> packnum_space \<Rightarrow> pid \<Rightarrow> pid option \<Rightarrow> send_ctl \<Rightarrow> (send_ctl \<times> pid option) option" where
  "destroy_chain_loop p pns cur next ctl =
     (if cur = p then Some (ctl, next)
      else do {
        x \<leftarrow> sc_heap ctl cur;
        let after = tailq_next (sc_unacked_packets ctl (po_pns x)) cur;
        ctl \<leftarrow> chain_member_leaves ctl pns cur;
        ctl \<leftarrow> send_ctl_destroy_packet ctl cur;
        destroy_chain_loop p pns (po_loss_chain x) (if next = Some cur then after else next) ctl
      })"

definition send_ctl_destroy_chain :: "send_ctl \<Rightarrow> pid \<Rightarrow> pid option \<Rightarrow> (send_ctl \<times> pid option) option" where
  "send_ctl_destroy_chain ctl p next = do {
     x \<leftarrow> sc_heap ctl p;
     (ctl, next) \<leftarrow> destroy_chain_loop p (po_pns x) (po_loss_chain x) next ctl;
     ctl \<leftarrow> upd_packet p (\<lambda>x. x\<lparr>po_loss_chain := p\<rparr>) ctl;
     Some (ctl, next)
   }"

definition zero_packet :: sc_packet where
  "zero_packet = \<lparr>po_packno = 0, po_pns = PNS_INIT, po_sched = False, po_unacked = False, po_lost = False, po_loss_rec = False,
     po_poison = False, po_mtu_probe = False, po_has_sent_sz = False, po_retx = False, po_mini = False, po_repackno = False,
     po_hello = False, po_facked = False, po_forw = False, po_initial = False, po_ecn = 0, po_frame_types = 0, po_sent_sz = 0,
     po_total_sz = 0, po_regen_sz = 0, po_data_sz = 0, po_sent = 0, po_ack2ed = 0, po_loss_chain = 0, po_retrans_times = 0,
     po_retrans_packet_number = 0, po_need_retrans_number = 0, po_fake_loss_rec = 0, po_been_detect_loss = 0,
     po_feedback_recorded = 0, po_retrans_no = 0, po_remained_time = 0, po_last_lost_time = 0, po_expected_sent = 0\<rparr>"

text \<open>The loss record has the size 16 bits wide in \<^verbatim>\<open>po_sent_sz\<close>.\<close>

definition send_ctl_record_loss :: "sc_env \<Rightarrow> send_ctl \<Rightarrow> pid \<Rightarrow> (send_ctl \<times> pid option) option" where
  "send_ctl_record_loss env ctl p =
     (case malo_get env ctl of
        (None, ctl) \<Rightarrow> Some (ctl, None)
      | (Some r, ctl) \<Rightarrow> do {
          x \<leftarrow> sc_heap ctl p;
          let rec = zero_packet\<lparr>po_unacked := True, po_loss_rec := True, po_has_sent_sz := True, po_pns := po_pns x,
            po_packno := po_packno x, po_retrans_no := po_retrans_no x, po_retrans_packet_number := po_retrans_packet_number x,
            po_fake_loss_rec := po_fake_loss_rec x, po_been_detect_loss := po_been_detect_loss x,
            po_retrans_times := po_retrans_times x, po_sent := po_sent x, po_sent_sz := ucast (packet_out_sent_sz x),
            po_frame_types := po_frame_types x, po_loss_chain := po_loss_chain x\<rparr>;
          let ctl = ctl\<lparr>sc_heap := (sc_heap ctl)(r \<mapsto> rec, p \<mapsto> x\<lparr>po_loss_chain := r\<rparr>)\<rparr>;
          let ctl = set_unacked (po_pns x) (insert_before_pid p r (sc_unacked_packets ctl (po_pns x))) ctl;
          let ctl = (if po_fake_loss_rec x = 1
                     then ctl\<lparr>sc_n_in_flight_all := sc_n_in_flight_all ctl + 1,
                              sc_bytes_unacked_all := sc_bytes_unacked_all ctl + packet_out_sent_sz x\<rparr>
                     else ctl);
          Some (ctl, Some r)
        })"

section \<open>Adaptive retransmission\<close>

text \<open>
  The rates are of type \<^verbatim>\<open>double\<close>; here they are exact.  The comparisons come out the same: with at most ten
  entries in the window, a rate that differs from \<open>1 - 1 / r\<close> or \<open>1 - 2 / r\<close> differs from it by at least
  \<open>1 / (10 * r)\<close>, far more than the rounding, and the rates that are equal to such a value (for \<open>r\<close> up to 20) are rounded to the same
  number.  For \<open>r = 0\<close> the quotient is infinite and the first comparison holds.
\<close>

definition art_replica_loss_rate :: "send_ctl \<Rightarrow> rat" where
  "art_replica_loss_rate ctl =
     (if sc_feedback_window_size ctl = 0 then 0
      else of_nat (length (filter (\<lambda>v. v = 1) (sc_feedback_window ctl))) / of_nat (unat (sc_feedback_window_size ctl)))"

text \<open>The decision on the entry of the table for the round.\<close>

definition art_adjust :: "rat \<Rightarrow> u32 \<Rightarrow> u32" where
  "art_adjust rlr r =
     (if r = 0 \<or> rlr > 1 - 1 / of_nat (unat r) then r + 1
      else if rlr \<le> 1 - 2 / of_nat (unat r) then r - 1
      else r)"

definition art_duplicate_number :: "send_ctl \<Rightarrow> pid \<Rightarrow> (send_ctl \<times> u32) option" where
  "art_duplicate_number ctl p = do {
     x \<leftarrow> sc_heap ctl p;
     let temp_round = unat (po_retrans_times x);
     if temp_round < length (sc_rounds_map ctl) then
       let r = art_adjust (art_replica_loss_rate ctl) (sc_rounds_map ctl ! temp_round)
       in Some (ctl\<lparr>sc_rounds_map := (sc_rounds_map ctl)[temp_round := r]\<rparr>, r)
     else None
   }"

definition lsquic_packet_out_schedule_time :: "sc_packet \<Rightarrow> bool \<Rightarrow> qtime \<Rightarrow> u64 \<Rightarrow> sc_packet" where
  "lsquic_packet_out_schedule_time x init now rand =
     (let x = (if init then x\<lparr>po_last_lost_time := now\<rparr> else x) in
      if po_remained_time x > 0 \<and> po_retrans_packet_number x \<le> po_need_retrans_number x then
        let time_left = sint (po_remained_time x - (now - po_last_lost_time x)) in
        if time_left \<le> 0 then x\<lparr>po_expected_sent := now\<rparr>
        else x\<lparr>po_expected_sent := now + of_int (uint rand mod time_left)\<rparr>
      else x\<lparr>po_expected_sent := now\<rparr>)"

definition push_feedback :: "sc_env \<Rightarrow> send_ctl \<Rightarrow> int \<Rightarrow> send_ctl option" where
  "push_feedback env ctl v =
     (if sc_feedback_window_size ctl \<ge> sc_largest_feedback_window ctl then
        case sc_feedback_window ctl of [] \<Rightarrow> None | _ # w \<Rightarrow> Some (ctl\<lparr>sc_feedback_window := w @ [v]\<rparr>)
      else case malo_get env ctl of
        (None, _) \<Rightarrow> None
      | (Some _, ctl) \<Rightarrow> Some (ctl\<lparr>sc_feedback_window_size := sc_feedback_window_size ctl + 1,
                                     sc_feedback_window := sc_feedback_window ctl @ [v]\<rparr>))"

definition send_ctl_record_feedback_loss :: "sc_env \<Rightarrow> send_ctl \<Rightarrow> send_ctl option" where
  "send_ctl_record_feedback_loss env ctl = push_feedback env ctl 1"

section \<open>Losses\<close>

definition FT_STREAM :: u32 where "FT_STREAM = quic_ft_bit QUIC_FRAME_STREAM"
definition FT_ACK :: u32 where "FT_ACK = quic_ft_bit QUIC_FRAME_ACK"
definition FT_PADDING :: u32 where "FT_PADDING = quic_ft_bit QUIC_FRAME_PADDING"
definition FT_PING :: u32 where "FT_PING = quic_ft_bit QUIC_FRAME_PING"

definition lsquic_send_ctl_disable_ecn :: "send_ctl \<Rightarrow> send_ctl" where
  "lsquic_send_ctl_disable_ecn ctl =
     ctl\<lparr>sc_ecn := 0, sc_heap := (\<lambda>p. if p \<in> set (sc_scheduled_packets ctl)
                                       then map_option (\<lambda>x. x\<lparr>po_ecn := 0\<rparr>) (sc_heap ctl p) else sc_heap ctl p)\<rparr>"

text \<open>A packet with duplicates outstanding is left alone until they have all been sent.\<close>

definition all_duplicates_sent :: "sc_packet \<Rightarrow> bool" where
  "all_duplicates_sent x \<longleftrightarrow> po_fake_loss_rec x = 0 \<or> po_retrans_packet_number x \<ge> po_need_retrans_number x"

definition note_loss :: "send_ctl \<Rightarrow> sc_packet \<Rightarrow> send_ctl" where
  "note_loss ctl x =
     (if all_duplicates_sent x then
        let ctl = ctl\<lparr>sc_loss_count := sc_loss_count ctl + 1\<rparr>;
            ctl = (if has_frames x FT_ACK then ctl\<lparr>sc_lost_ack := (sc_lost_ack ctl)(po_pns x := True)\<rparr> else ctl)
        in if sc_ecn ctl \<noteq> 0 \<and> sc_ecn_total_acked ctl PNS_INIT = 0 \<and> po_initial x \<and> po_packno x = 3
           then lsquic_send_ctl_disable_ecn ctl else ctl
      else ctl)"

text \<open>The search for the packet with the data in the chain of a loss record.\<close>

partial_function (option) find_data_packet :: "send_ctl \<Rightarrow> pid \<Rightarrow> pid \<Rightarrow> pid option" where
  "find_data_packet ctl p cur =
     (if cur = p then None
      else do { x \<leftarrow> sc_heap ctl cur; if \<not> po_loss_rec x then Some cur else find_data_packet ctl p (po_loss_chain x) })"

text \<open>A loss record is lost (again): the data is in another packet of its chain.\<close>

definition lost_loss_record :: "sc_env \<Rightarrow> send_ctl \<Rightarrow> pid \<Rightarrow> (send_ctl \<times> pid \<times> pid option) option" where
  "lost_loss_record env ctl p = do {
     x \<leftarrow> sc_heap ctl p;
     let ctl = ctl\<lparr>sc_n_in_flight_all := sc_n_in_flight_all ctl - 1, sc_bytes_unacked_all := sc_bytes_unacked_all ctl - ucast (po_sent_sz x)\<rparr>;
     ctl \<leftarrow> upd_packet p (\<lambda>x. x\<lparr>po_fake_loss_rec := 0\<rparr>) ctl;
     new \<leftarrow> find_data_packet ctl p (po_loss_chain x);
     y \<leftarrow> sc_heap ctl new;
     (ctl, rec) \<leftarrow> (if \<not> po_lost y then send_ctl_record_loss env ctl new else Some (ctl, Some p));
     ctl \<leftarrow> upd_packet new (\<lambda>y. y\<lparr>po_retrans_times := po_retrans_times x, po_retrans_packet_number := 0, po_fake_loss_rec := 0,
       po_been_detect_loss := 1, po_retrans_no := po_retrans_no x\<rparr>) ctl;
     Some (ctl, new, rec)
   }"

definition to_lost_queue :: "send_ctl \<Rightarrow> pid \<Rightarrow> u32 \<Rightarrow> send_ctl option" where
  "to_lost_queue ctl p packet_sz = do {
     x \<leftarrow> sc_heap ctl p;
     if \<not> po_lost x then do {
       ctl \<leftarrow> send_ctl_unacked_remove ctl p packet_sz;
       let ctl = ctl\<lparr>sc_lost_packets := sc_lost_packets ctl @ [p], sc_lost_packet_number := sc_lost_packet_number ctl + 1\<rparr>;
       upd_packet p (\<lambda>x. x\<lparr>po_lost := True\<rparr>) ctl
     }
     else Some ctl
   }"

text \<open>Another duplicate of the round, or the start of the next round.\<close>

definition plan_retransmission :: "sc_env \<Rightarrow> send_ctl \<Rightarrow> pid \<Rightarrow> send_ctl option" where
  "plan_retransmission env ctl p = do {
     x \<leftarrow> sc_heap ctl p;
     if po_frame_types x \<noteq> FT_PADDING \<and> has_frames x FT_STREAM then do {
       ctl \<leftarrow>
         (if po_fake_loss_rec x \<noteq> 0 \<and> \<not> po_loss_rec x \<and> po_been_detect_loss x = 0 then
            upd_packet p (\<lambda>x. lsquic_packet_out_schedule_time (x\<lparr>po_retrans_packet_number := po_retrans_packet_number x + 1\<rparr>)
                False (env_now env) (env_rand env p)) ctl
          else do {
            ctl \<leftarrow> upd_packet p (\<lambda>x. x\<lparr>po_retrans_times := po_retrans_times x + 1,
              po_retrans_no := (if po_retrans_no x \<noteq> 0 then po_retrans_no x else po_packno x),
              po_remained_time := min_rtt (sc_rtt ctl)\<rparr>) ctl;
            if sc_art_flag ctl \<noteq> 0 then do {
              (ctl, dup_number) \<leftarrow> art_duplicate_number ctl p;
              upd_packet p (\<lambda>x. lsquic_packet_out_schedule_time (x\<lparr>po_need_retrans_number := (if dup_number > 0 then ucast dup_number else 1),
                  po_fake_loss_rec := 1\<rparr>) True (env_now env) (env_rand env p)) ctl
            }
            else Some ctl
          });
       upd_packet p (\<lambda>x. x\<lparr>po_been_detect_loss := 0\<rparr>) ctl
     }
     else Some ctl
   }"

definition send_ctl_handle_regular_lost_packet ::
  "sc_env \<Rightarrow> send_ctl \<Rightarrow> pid \<Rightarrow> pid option \<Rightarrow> (send_ctl \<times> pid option \<times> pid option) option" where
  "send_ctl_handle_regular_lost_packet env ctl p next = do {
     x \<leftarrow> sc_heap ctl p;
     let packet_sz = packet_out_sent_sz x;
     let ctl = note_loss ctl x;
     if has_frames x (sc_retx_frames ctl) then do {
       (ctl, p, rec) \<leftarrow> (if po_loss_rec x then lost_loss_record env ctl p
                          else do { (ctl, rec) \<leftarrow> send_ctl_record_loss env ctl p; Some (ctl, p, rec) });
       ctl \<leftarrow> to_lost_queue ctl p packet_sz;
       ctl \<leftarrow> plan_retransmission env ctl p;
       Some (ctl, rec, next)
     }
     else do {
       ctl \<leftarrow> send_ctl_unacked_remove ctl p packet_sz;
       (ctl, next) \<leftarrow> send_ctl_destroy_chain ctl p next;
       ctl \<leftarrow> send_ctl_destroy_packet ctl p;
       Some (ctl, None, next)
     }
   }"

definition send_ctl_handle_lost_mtu_probe :: "send_ctl \<Rightarrow> pid \<Rightarrow> send_ctl option" where
  "send_ctl_handle_lost_mtu_probe ctl p = do {
     x \<leftarrow> sc_heap ctl p;
     ctl \<leftarrow> send_ctl_unacked_remove ctl p (packet_out_sent_sz x);
     send_ctl_destroy_packet ctl p
   }"

definition send_ctl_handle_lost_packet ::
  "sc_env \<Rightarrow> send_ctl \<Rightarrow> pid \<Rightarrow> pid option \<Rightarrow> (send_ctl \<times> bool \<times> pid option) option" where
  "send_ctl_handle_lost_packet env ctl p next = do {
     x \<leftarrow> sc_heap ctl p;
     if \<not> po_mtu_probe x then do {
       (ctl, rec, next) \<leftarrow> send_ctl_handle_regular_lost_packet env ctl p next;
       Some (ctl, rec \<noteq> None, next)
     }
     else do { ctl \<leftarrow> send_ctl_handle_lost_mtu_probe ctl p; Some (ctl, False, next) }
   }"

definition retx_candidate :: "send_ctl \<Rightarrow> pid \<Rightarrow> bool" where
  "retx_candidate ctl p = (case sc_heap ctl p of None \<Rightarrow> False
     | Some x \<Rightarrow> \<not> po_loss_rec x \<and> \<not> po_poison x \<and> has_frames x (sc_retx_frames ctl))"

definition send_ctl_first_unacked_retx_packet :: "send_ctl \<Rightarrow> packnum_space \<Rightarrow> pid option" where
  "send_ctl_first_unacked_retx_packet ctl pns = find (retx_candidate ctl) (sc_unacked_packets ctl pns)"

definition send_ctl_last_unacked_retx_packet :: "send_ctl \<Rightarrow> packnum_space \<Rightarrow> pid option" where
  "send_ctl_last_unacked_retx_packet ctl pns = find (retx_candidate ctl) (rev (sc_unacked_packets ctl pns))"

definition largest_retx_packet_number :: "send_ctl \<Rightarrow> packnum_space \<Rightarrow> packno" where
  "largest_retx_packet_number ctl pns =
     (case send_ctl_last_unacked_retx_packet ctl pns of None \<Rightarrow> 0 | Some p \<Rightarrow> po_packno (the (sc_heap ctl p)))"

definition send_ctl_loss_event :: "send_ctl \<Rightarrow> send_ctl" where
  "send_ctl_loss_event ctl = ctl\<lparr>sc_largest_sent_at_cutback := sc_last_sent ctl\<rparr>"

text \<open>The record of a duplicate that is overdue counts as a lost replica, once.\<close>

definition overdue_record :: "sc_env \<Rightarrow> send_ctl \<Rightarrow> pid \<Rightarrow> send_ctl option" where
  "overdue_record env ctl p = do {
     x \<leftarrow> sc_heap ctl p;
     if po_fake_loss_rec x = 1 \<and> po_feedback_recorded x = 0 then do {
       ctl \<leftarrow> send_ctl_record_feedback_loss env ctl;
       upd_packet p (\<lambda>x. x\<lparr>po_feedback_recorded := 1\<rparr>) ctl
     }
     else Some ctl
   }"

text \<open>
  The body of the loop of \<^verbatim>\<open>send_ctl_detect_losses\<close> for a packet that is not poisoned; the results are the
  state, the largest lost packet number so far and the packet to go on with.
\<close>

definition detect_one ::
  "sc_env \<Rightarrow> packno \<Rightarrow> pid \<Rightarrow> packno \<Rightarrow> pid option \<Rightarrow> send_ctl \<Rightarrow> (send_ctl \<times> packno \<times> pid option) option" where
  "detect_one env largest_retx_packno p largest_lost next ctl = do {
     x \<leftarrow> sc_heap ctl p;
     if po_packno x + ucast (sc_reord_thresh ctl) < sc_largest_acked_packno ctl then
       if po_loss_rec x then do { ctl \<leftarrow> overdue_record env ctl p; Some (ctl, largest_lost, next) }
       else if \<not> po_mtu_probe x then
         if \<not> po_lost x \<and> all_duplicates_sent x then do {
           ctl \<leftarrow> upd_packet p (\<lambda>x. x\<lparr>po_been_detect_loss := 1\<rparr>) ctl;
           (ctl, rec, next) \<leftarrow> send_ctl_handle_regular_lost_packet env ctl p next;
           ctl \<leftarrow> (case rec of None \<Rightarrow> Some ctl | Some r \<Rightarrow> upd_packet r (\<lambda>y. y\<lparr>po_facked := True\<rparr>) ctl);
           Some (ctl, po_packno x, next)
         }
         else Some (ctl, po_packno x, next)
       else do { ctl \<leftarrow> send_ctl_handle_lost_mtu_probe ctl p; Some (ctl, largest_lost, next) }
     else if largest_retx_packno \<noteq> 0 \<and> has_frames x (sc_retx_frames ctl) \<and> \<not> po_mtu_probe x
             \<and> largest_retx_packno \<le> sc_largest_acked_packno ctl then
       if po_loss_rec x then do { ctl \<leftarrow> overdue_record env ctl p; Some (ctl, largest_lost, next) }
       else let ctl = ctl\<lparr>sc_loss_to := srtt (sc_rtt ctl) div 4\<rparr> in
         if \<not> po_lost x \<and> all_duplicates_sent x then do {
           ctl \<leftarrow> upd_packet p (\<lambda>x. x\<lparr>po_been_detect_loss := 1\<rparr>) ctl;
           (ctl, _, next) \<leftarrow> send_ctl_handle_lost_packet env ctl p next;
           Some (ctl, po_packno x, next)
         }
         else Some (ctl, po_packno x, next)
     else if sc_largest_acked_sent_time ctl > po_sent x + srtt (sc_rtt ctl) then
       if po_loss_rec x then do { ctl \<leftarrow> overdue_record env ctl p; Some (ctl, largest_lost, next) }
       else let largest_lost = (if has_frames x (sc_retx_frames ctl) \<and> \<not> po_mtu_probe x then po_packno x else largest_lost) in
         if \<not> po_lost x \<and> all_duplicates_sent x then do {
           ctl \<leftarrow> upd_packet p (\<lambda>x. x\<lparr>po_been_detect_loss := 1\<rparr>) ctl;
           (ctl, _, next) \<leftarrow> send_ctl_handle_lost_packet env ctl p next;
           Some (ctl, largest_lost, next)
         }
         else Some (ctl, largest_lost, next)
     else Some (ctl, largest_lost, next)
   }"

partial_function (option) detect_losses_loop ::
  "sc_env \<Rightarrow> packnum_space \<Rightarrow> packno \<Rightarrow> pid option \<Rightarrow> packno \<Rightarrow> send_ctl \<Rightarrow> (send_ctl \<times> packno) option" where
  "detect_losses_loop env pns largest_retx_packno cur largest_lost ctl =
     (case cur of
        None \<Rightarrow> Some (ctl, largest_lost)
      | Some p \<Rightarrow> do {
          x \<leftarrow> sc_heap ctl p;
          if po_packno x > sc_largest_acked_packno ctl then Some (ctl, largest_lost)
          else do {
            let next = tailq_next (sc_unacked_packets ctl pns) p;
            (ctl, largest_lost, next) \<leftarrow> (if po_poison x then Some (ctl, largest_lost, next)
               else detect_one env largest_retx_packno p largest_lost next ctl);
            detect_losses_loop env pns largest_retx_packno next largest_lost ctl
          }
        })"

definition first_pid :: "pid list \<Rightarrow> pid option" where
  "first_pid q = (case q of [] \<Rightarrow> None | p # _ \<Rightarrow> Some p)"

definition send_ctl_detect_losses :: "sc_env \<Rightarrow> send_ctl \<Rightarrow> packnum_space \<Rightarrow> (send_ctl \<times> bool) option" where
  "send_ctl_detect_losses env ctl pns = do {
     let largest_retx_packno = largest_retx_packet_number ctl pns;
     let ctl = ctl\<lparr>sc_loss_to := 0\<rparr>;
     (ctl, largest_lost) \<leftarrow> detect_losses_loop env pns largest_retx_packno (first_pid (sc_unacked_packets ctl pns)) 0 ctl;
     let ctl = (if largest_lost > sc_largest_sent_at_cutback ctl then send_ctl_loss_event ctl else ctl);
     Some (ctl, largest_lost > sc_largest_sent_at_cutback ctl)
   }"

section \<open>Retransmission alarm\<close>

datatype retx_mode = RETX_MODE_HANDSHAKE | RETX_MODE_LOSS | RETX_MODE_TLP | RETX_MODE_RTO

definition have_unacked_handshake_packets :: "send_ctl \<Rightarrow> bool" where
  "have_unacked_handshake_packets ctl =
     list_ex (\<lambda>pns. list_ex (\<lambda>p. case sc_heap ctl p of None \<Rightarrow> False | Some x \<Rightarrow> po_hello x) (sc_unacked_packets ctl pns))
       (if sc_ietf ctl then [PNS_INIT, PNS_HSK, PNS_APP] else [PNS_APP])"

definition get_retx_mode :: "send_ctl \<Rightarrow> retx_mode" where
  "get_retx_mode ctl =
     (if \<not> sc_hsk_done ctl \<and> have_unacked_handshake_packets ctl then RETX_MODE_HANDSHAKE
      else if sc_loss_to ctl \<noteq> 0 then RETX_MODE_LOSS
      else if sc_n_tlp ctl < 2 then RETX_MODE_TLP
      else RETX_MODE_RTO)"

definition get_retx_delay :: "lsquic_rtt_stats \<Rightarrow> qtime" where
  "get_retx_delay st =
     (if srtt st \<noteq> 0 then let delay = srtt st + 4 * rttvar st in if delay < MIN_RTO_DELAY then MIN_RTO_DELAY else delay
      else DEFAULT_RETX_DELAY)"

definition calculate_packet_rto :: "send_ctl \<Rightarrow> qtime" where
  "calculate_packet_rto ctl =
     (let exp = (if sc_n_consec_rtos ctl > MAX_RTO_BACKOFFS then MAX_RTO_BACKOFFS else sc_n_consec_rtos ctl)
      in get_retx_delay (sc_rtt ctl) * push_bit (unat exp) 1)"

definition calculate_tlp_delay :: "send_ctl \<Rightarrow> qtime" where
  "calculate_tlp_delay ctl =
     (let rt = srtt (sc_rtt ctl);
          delay = (if sc_n_in_flight_all ctl > 1 then 10000 else rt + rt div 2 + sc_max_peer_ack_usec ctl)
      in if delay < 2 * rt then 2 * rt else delay)"

definition set_retx_alarm :: "send_ctl \<Rightarrow> packnum_space \<Rightarrow> qtime \<Rightarrow> send_ctl" where
  "set_retx_alarm ctl pns now =
     (let rm = get_retx_mode ctl;
          delay = (case rm of
              RETX_MODE_HANDSHAKE \<Rightarrow>
                let rt = srtt (sc_rtt ctl);
                    delay = (if rt \<noteq> 0 then let d = rt + rt div 2 in if 10000 > d then 10000 else d else 150000)
                in push_bit (unat (sc_n_hsk ctl)) delay
            | RETX_MODE_LOSS \<Rightarrow> sc_loss_to ctl
            | RETX_MODE_TLP \<Rightarrow> calculate_tlp_delay ctl
            | RETX_MODE_RTO \<Rightarrow> calculate_packet_rto ctl);
          ctl = (if rm = RETX_MODE_HANDSHAKE then ctl\<lparr>sc_n_hsk := sc_n_hsk ctl + 1\<rparr> else ctl);
          delay = (if delay > MAX_RTO_DELAY then MAX_RTO_DELAY else delay)
      in ctl\<lparr>sc_al_retx := (sc_al_retx ctl)(pns := Some (now + delay))\<rparr>)"

section \<open>Sending\<close>

definition send_ctl_next_packno :: "send_ctl \<Rightarrow> send_ctl \<times> packno" where
  "send_ctl_next_packno ctl =
     (let packno = sc_cur_packno ctl + 1; packno = (if packno = sc_gap ctl then packno + 1 else packno)
      in (ctl\<lparr>sc_cur_packno := packno\<rparr>, packno))"

definition send_ctl_add_poison :: "sc_env \<Rightarrow> send_ctl \<Rightarrow> send_ctl \<times> bool" where
  "send_ctl_add_poison env ctl =
     (case malo_get env ctl of
        (None, ctl) \<Rightarrow> (ctl, False)
      | (Some r, ctl) \<Rightarrow>
          (set_unacked PNS_APP (sc_unacked_packets ctl PNS_APP @ [r])
             (ctl\<lparr>sc_heap := (sc_heap ctl)(r \<mapsto> zero_packet\<lparr>po_unacked := True, po_poison := True, po_packno := sc_gap ctl,
                  po_loss_chain := r\<rparr>), sc_has_poison := True\<rparr>), True))"

definition send_ctl_update_poison_hist :: "sc_env \<Rightarrow> send_ctl \<Rightarrow> packno \<Rightarrow> send_ctl \<times> bool" where
  "send_ctl_update_poison_hist env ctl packno =
     (if packno = sc_gap ctl + 1
      then send_ctl_add_poison env (ctl\<lparr>sc_last_sent := lsquic_senhist_add (sc_last_sent ctl) (sc_gap ctl)\<rparr>)
      else (ctl, True))"

definition lsquic_send_ctl_sent_packet :: "sc_env \<Rightarrow> send_ctl \<Rightarrow> pid \<Rightarrow> (send_ctl \<times> int) option" where
  "lsquic_send_ctl_sent_packet env ctl p = do {
     x \<leftarrow> sc_heap ctl p;
     let (ctl, ok) = send_ctl_update_poison_hist env (ctl\<lparr>sc_last_sent_time := po_sent x\<rparr>) (po_packno x);
     if \<not> ok then Some (ctl, - 1)
     else do {
       let ctl = ctl\<lparr>sc_last_sent := lsquic_senhist_add (sc_last_sent ctl) (po_packno x)\<rparr>;
       ctl \<leftarrow> send_ctl_unacked_append ctl p;
       let ctl = (if has_frames x (sc_retx_frames ctl) then
           let ctl = (if sc_al_retx ctl (po_pns x) = None then set_retx_alarm ctl (po_pns x) (po_sent x) else ctl)
           in if sc_n_in_flight_retx ctl = 1 then ctl\<lparr>sc_was_quiet := True\<rparr> else ctl
         else ctl);
       Some (ctl, 0)
     }
   }"

definition lsquic_send_ctl_scheduled_one :: "send_ctl \<Rightarrow> pid \<Rightarrow> send_ctl option" where
  "lsquic_send_ctl_scheduled_one ctl p = send_ctl_sched_append ctl p"

section \<open>Resending\<close>

definition BQUIC_FRAME_REGEN_MASK :: u32 where
  "BQUIC_FRAME_REGEN_MASK = quic_ft_bit QUIC_FRAME_ACK OR quic_ft_bit QUIC_FRAME_PATH_CHALLENGE OR quic_ft_bit QUIC_FRAME_PATH_RESPONSE
     OR quic_ft_bit QUIC_FRAME_STOP_WAITING OR quic_ft_bit QUIC_FRAME_TIMESTAMP OR quic_ft_bit QUIC_FRAME_DATAGRAM"

definition lsquic_packet_out_chop_regen :: "sc_packet \<Rightarrow> sc_packet" where
  "lsquic_packet_out_chop_regen x =
     x\<lparr>po_data_sz := po_data_sz x - po_regen_sz x, po_total_sz := po_total_sz x - ucast (po_regen_sz x), po_regen_sz := 0\<rparr>"

definition update_for_resending :: "send_ctl \<Rightarrow> pid \<Rightarrow> send_ctl option" where
  "update_for_resending ctl p = do {
     let (ctl, packno) = send_ctl_next_packno ctl;
     x \<leftarrow> sc_heap ctl p;
     ctl \<leftarrow> upd_packet p (\<lambda>x. x\<lparr>po_has_sent_sz := False, po_frame_types := po_frame_types x AND NOT BQUIC_FRAME_REGEN_MASK,
       po_packno := packno, po_ecn := sc_ecn ctl\<rparr>) ctl;
     if po_regen_sz x \<noteq> 0 then
       upd_packet p lsquic_packet_out_chop_regen
         (if po_sched x then ctl\<lparr>sc_bytes_scheduled := sc_bytes_scheduled ctl - ucast (po_regen_sz x)\<rparr> else ctl)
     else Some ctl
   }"

text \<open>
  The loop over the lost queue.  \<open>ps\<close> are the packets from the current one on.  After a packet without data has
  been destroyed, the code reads its member \<^verbatim>\<open>po_fake_loss_rec\<close>: an access through a dangling pointer.
\<close>

definition pop_lost_packet :: "send_ctl \<Rightarrow> pid \<Rightarrow> send_ctl option" where
  "pop_lost_packet ctl p =
     upd_packet p (\<lambda>x. x\<lparr>po_lost := False, po_retx := True\<rparr>)
       (ctl\<lparr>sc_lost_packets := remove1 p (sc_lost_packets ctl), sc_lost_packet_number := sc_lost_packet_number ctl - 1\<rparr>)"

fun next_lost_loop :: "sc_env \<Rightarrow> send_ctl \<Rightarrow> pid list \<Rightarrow> (send_ctl \<times> pid option) option" where
  "next_lost_loop env ctl [] = Some (ctl, None)"
| "next_lost_loop env ctl (p # ps) = do {
     x \<leftarrow> sc_heap ctl p;
     let elide = (has_frames x FT_STREAM \<and> \<not> po_mini x);
     ctl \<leftarrow> (if elide then upd_packet p (env_elide env) ctl else Some ctl);
     x \<leftarrow> sc_heap ctl p;
     if elide \<and> po_regen_sz x \<ge> po_data_sz x then do {
       let ctl = ctl\<lparr>sc_lost_packets := remove1 p (sc_lost_packets ctl), sc_lost_packet_number := sc_lost_packet_number ctl - 1\<rparr>;
       ctl \<leftarrow> upd_packet p (\<lambda>x. x\<lparr>po_lost := False\<rparr>) ctl;
       (ctl, _) \<leftarrow> send_ctl_destroy_chain ctl p None;
       ctl \<leftarrow> send_ctl_destroy_packet ctl p;
       y \<leftarrow> sc_heap ctl p;
       let ctl = (if po_fake_loss_rec y = 1
                  then ctl\<lparr>sc_n_in_flight_all := sc_n_in_flight_all ctl - 1,
                           sc_bytes_unacked_all := sc_bytes_unacked_all ctl - packet_out_sent_sz x\<rparr>
                  else ctl);
       next_lost_loop env ctl ps
     }
     else if \<not> (po_fake_loss_rec x \<noteq> 0 \<and> po_retrans_packet_number x > 0) \<and> \<not> env_can_send env ctl then next_lost_loop env ctl ps
     else if po_total_sz x \<le> env_pack_size env then do { ctl \<leftarrow> pop_lost_packet ctl p; Some (ctl, Some p) }
     else do {
       (ctl, ok) \<leftarrow> env_split env ctl p;
       if ok then do {
         q \<leftarrow> first_pid (sc_lost_packets ctl);
         ctl \<leftarrow> pop_lost_packet ctl q;
         Some (ctl, Some q)
       }
       else Some (ctl, None)
     }
   }"

definition send_ctl_next_lost :: "sc_env \<Rightarrow> send_ctl \<Rightarrow> (send_ctl \<times> pid option) option" where
  "send_ctl_next_lost env ctl = next_lost_loop env ctl (sc_lost_packets ctl)"

definition reschedule_one :: "sc_env \<Rightarrow> send_ctl \<Rightarrow> pid \<Rightarrow> send_ctl option" where
  "reschedule_one env ctl p = do {
     x \<leftarrow> sc_heap ctl p;
     let old_packno = (if po_retrans_no x \<noteq> 0 then po_retrans_no x else po_packno x);
     ctl \<leftarrow> update_for_resending ctl p;
     ctl \<leftarrow> upd_packet p (\<lambda>x. x\<lparr>po_retrans_no := old_packno\<rparr>) ctl;
     ctl \<leftarrow> lsquic_send_ctl_scheduled_one ctl p;
     x \<leftarrow> sc_heap ctl p;
     Some (if sc_art_flag ctl \<noteq> 0 \<and> po_frame_types x \<noteq> FT_PADDING \<and> has_frames x FT_STREAM \<and> sc_al_art ctl = None
           then ctl\<lparr>sc_al_art := Some (env_now env + 1)\<rparr> else ctl)
   }"

text \<open>The loop ends when the lost queue yields nothing more; the result is the number of packets rescheduled.\<close>

partial_function (option) lsquic_send_ctl_reschedule_packets :: "sc_env \<Rightarrow> send_ctl \<Rightarrow> (send_ctl \<times> nat) option" where
  "lsquic_send_ctl_reschedule_packets env ctl = do {
     (ctl, lost) \<leftarrow> send_ctl_next_lost env ctl;
     case lost of
       None \<Rightarrow> Some (ctl, 0)
     | Some p \<Rightarrow> do {
         ctl \<leftarrow> reschedule_one env ctl p;
         (ctl, n) \<leftarrow> lsquic_send_ctl_reschedule_packets env ctl;
         Some (ctl, n + 1)
       }
   }"

section \<open>Duplicates\<close>

definition art_due :: "sc_env \<Rightarrow> sc_packet \<Rightarrow> bool" where
  "art_due env x \<longleftrightarrow> has_frames x FT_STREAM \<and> po_fake_loss_rec x \<noteq> 0 \<and> \<not> po_loss_rec x
     \<and> po_retrans_packet_number x < po_need_retrans_number x \<and> sint (po_expected_sent x - env_now env) \<le> 0"

partial_function (option) art_schedule_loop :: "sc_env \<Rightarrow> packnum_space \<Rightarrow> pid option \<Rightarrow> send_ctl \<Rightarrow> send_ctl option" where
  "art_schedule_loop env pns cur ctl =
     (case cur of
        None \<Rightarrow> Some ctl
      | Some p \<Rightarrow> do {
          x \<leftarrow> sc_heap ctl p;
          let next = tailq_next (sc_unacked_packets ctl pns) p;
          (ctl, next) \<leftarrow> (if art_due env x then do {
              let ctl = ctl\<lparr>sc_all_retrans_packet_num := sc_all_retrans_packet_num ctl + 1\<rparr>;
              (ctl, _, next) \<leftarrow> send_ctl_handle_regular_lost_packet env ctl p next;
              Some (ctl, next)
            }
            else Some (ctl, next));
          art_schedule_loop env pns next ctl
        })"

definition art_schedule :: "sc_env \<Rightarrow> send_ctl \<Rightarrow> send_ctl option" where
  "art_schedule env ctl = do {
     ctl \<leftarrow> art_schedule_loop env PNS_INIT (first_pid (sc_unacked_packets ctl PNS_INIT)) ctl;
     ctl \<leftarrow> art_schedule_loop env PNS_HSK (first_pid (sc_unacked_packets ctl PNS_HSK)) ctl;
     ctl \<leftarrow> art_schedule_loop env PNS_APP (first_pid (sc_unacked_packets ctl PNS_APP)) ctl;
     Some (if sc_al_art ctl = None then ctl\<lparr>sc_al_art := Some (env_now env + 30)\<rparr> else ctl)
   }"

section \<open>Acknowledgements\<close>

record ack_info =
  ai_pns :: packnum_space
  ai_ranges :: "packno_range list"   \<comment> \<open>the highest first, at least one\<close>
  ai_lack_delta :: qtime
  ai_ecn :: "(u64 \<times> u64 \<times> u64) option"   \<comment> \<open>the counts of ECT1, ECT0 and CE if \<^verbatim>\<open>AI_ECN\<close> is set\<close>

definition largest_acked :: "ack_info \<Rightarrow> packno" where
  "largest_acked acki = pr_high (ai_ranges acki ! 0)"

definition smallest_acked :: "ack_info \<Rightarrow> packno" where
  "smallest_acked acki = pr_low (ai_ranges acki ! (length (ai_ranges acki) - 1))"

definition take_rtt_sample :: "send_ctl \<Rightarrow> qtime \<Rightarrow> qtime \<Rightarrow> send_ctl" where
  "take_rtt_sample ctl now lack_delta =
     (let packno = sc_largest_acked_packno ctl; measured_rtt = now - sc_largest_acked_sent_time ctl in
      if packno > sc_max_rtt_packno ctl \<and> lack_delta < measured_rtt then
        let st = (if sc_rough_rtt ctl then \<lparr>srtt = 0, rttvar = 0, min_rtt = 0\<rparr> else sc_rtt ctl) in
        ctl\<lparr>sc_rough_rtt := False, sc_max_rtt_packno := packno, sc_rtt := lsquic_rtt_stats_update st measured_rtt lack_delta\<rparr>
      else ctl)"

definition send_ctl_maybe_increase_reord_thresh :: "send_ctl \<Rightarrow> sc_packet \<Rightarrow> packno \<Rightarrow> send_ctl" where
  "send_ctl_maybe_increase_reord_thresh ctl rec prev_largest_acked =
     (if po_facked rec \<and> po_packno rec + ucast (sc_reord_thresh ctl) < prev_largest_acked
      then ctl\<lparr>sc_reord_thresh := ucast (prev_largest_acked - po_packno rec)\<rparr> else ctl)"

text \<open>The inner loop that moves the pointer to the range; going below the first range is an access outside the array.\<close>

fun dec_range :: "packno_range list \<Rightarrow> nat \<Rightarrow> packno \<Rightarrow> nat option" where
  "dec_range ranges i packno =
     (if pr_high (ranges ! i) < packno then (case i of 0 \<Rightarrow> None | Suc j \<Rightarrow> dec_range ranges j packno) else Some i)"

text \<open>What the loop over the unacked packets collects on the way.\<close>

record ack_acc =
  aa_do_rtt :: bool
  aa_ecn_total :: u32
  aa_ecn_ce :: u32
  aa_one_rtt :: u32
  aa_ack2ed :: packno                \<comment> \<open>\<^verbatim>\<open>ack2ed[1]\<close>\<close>

text \<open>A packet leaves the unacked queue because it was acknowledged; \<open>None\<close> for a poisoned packet.\<close>

definition acked_leaves :: "sc_env \<Rightarrow> send_ctl \<Rightarrow> packnum_space \<Rightarrow> packno \<Rightarrow> pid \<Rightarrow> sc_packet \<Rightarrow> send_ctl option option" where
  "acked_leaves env ctl pns prev_largest_acked p x =
     (if \<not> po_loss_rec x \<and> \<not> po_poison x \<and> \<not> po_mtu_probe x then
        do { ctl \<leftarrow> send_ctl_unacked_remove ctl p (packet_out_sent_sz x); Some (Some ctl) }
      else if po_loss_rec x then
        let ctl = (if po_fake_loss_rec x = 1
                   then ctl\<lparr>sc_n_in_flight_all := sc_n_in_flight_all ctl - 1,
                            sc_bytes_unacked_all := sc_bytes_unacked_all ctl - ucast (po_sent_sz x)\<rparr>
                   else ctl);
            ctl = set_unacked pns (remove1 p (sc_unacked_packets ctl pns)) ctl
        in Some (Some (send_ctl_maybe_increase_reord_thresh ctl x prev_largest_acked))
      else if po_mtu_probe x then
        do { ctl \<leftarrow> send_ctl_unacked_remove ctl p (packet_out_sent_sz x); Some (Some ctl) }
      else Some None)"

definition ack_one ::
  "sc_env \<Rightarrow> ack_info \<Rightarrow> packno \<Rightarrow> pid \<Rightarrow> pid option \<Rightarrow> ack_acc \<Rightarrow> send_ctl \<Rightarrow> (send_ctl \<times> bool \<times> ack_acc \<times> pid option) option" where
  "ack_one env acki prev_largest_acked p next acc ctl = do {
     x \<leftarrow> sc_heap ctl p;
     let ctl = ctl\<lparr>sc_largest_acked_packno := po_packno x, sc_largest_acked_sent_time := po_sent x\<rparr>;
     ctl \<leftarrow> (if po_fake_loss_rec x = 1 then push_feedback env ctl 0 else Some ctl);
     left \<leftarrow> acked_leaves env ctl (ai_pns acki) prev_largest_acked p x;
     case left of
       None \<Rightarrow> Some (ctl, False, acc, next)
     | Some ctl \<Rightarrow> do {
         let acc = acc\<lparr>aa_do_rtt := aa_do_rtt acc \<or> po_packno x = largest_acked acki,
                       aa_ecn_total := aa_ecn_total acc + of_bool (po_ecn x \<noteq> 0),
                       aa_ecn_ce := aa_ecn_ce acc + of_bool (po_ecn x = 3),
                       aa_one_rtt := aa_one_rtt acc + of_bool (po_forw x),
                       aa_ack2ed := (if has_frames x FT_ACK then po_ack2ed x else aa_ack2ed acc)\<rparr>;
         (ctl, next) \<leftarrow> send_ctl_destroy_chain ctl p next;
         ctl \<leftarrow> send_ctl_destroy_packet ctl p;
         Some (ctl, True, acc, next)
       }
   }"

text \<open>The loop; \<open>i\<close> is the index of the range the pointer is at.  The flag of the result is false if a poisoned packet was acknowledged.\<close>

partial_function (option) got_ack_loop ::
  "sc_env \<Rightarrow> ack_info \<Rightarrow> packno \<Rightarrow> pid \<Rightarrow> nat \<Rightarrow> bool \<Rightarrow> ack_acc \<Rightarrow> send_ctl \<Rightarrow> (send_ctl \<times> bool \<times> ack_acc) option" where
  "got_ack_loop env acki prev_largest_acked p i skip_checks acc ctl = do {
     x \<leftarrow> sc_heap ctl p;
     let next = tailq_next (sc_unacked_packets ctl (ai_pns acki)) p;
     i \<leftarrow> (if skip_checks then Some i else dec_range (ai_ranges acki) i (po_packno x));
     let hit = (skip_checks \<or> pr_low (ai_ranges acki ! i) \<le> po_packno x);
     let skip_checks = (skip_checks \<or> hit \<and> i = 0);
     (ctl, ok, acc, next) \<leftarrow> (if hit then ack_one env acki prev_largest_acked p next acc ctl else Some (ctl, True, acc, next));
     if \<not> ok then Some (ctl, False, acc)
     else case next of
       None \<Rightarrow> Some (ctl, True, acc)
     | Some q \<Rightarrow> do {
         y \<leftarrow> sc_heap ctl q;
         if po_packno y \<le> largest_acked acki then got_ack_loop env acki prev_largest_acked q i skip_checks acc ctl
         else Some (ctl, True, acc)
       }
   }"

definition lsquic_send_ctl_begin_optack_detection :: "sc_env \<Rightarrow> send_ctl \<Rightarrow> send_ctl" where
  "lsquic_send_ctl_begin_optack_detection env ctl = ctl\<lparr>sc_gap := sc_cur_packno ctl + 1 + ucast (env_crand env)\<rparr>"

definition is_poison :: "send_ctl \<Rightarrow> pid \<Rightarrow> bool" where
  "is_poison ctl p = (case sc_heap ctl p of None \<Rightarrow> False | Some x \<Rightarrow> po_poison x)"

definition send_ctl_reschedule_poison :: "sc_env \<Rightarrow> send_ctl \<Rightarrow> send_ctl" where
  "send_ctl_reschedule_poison env ctl =
     (case find (is_poison ctl) (sc_unacked_packets ctl PNS_APP) of
        None \<Rightarrow> ctl
      | Some p \<Rightarrow>
          let ctl = set_unacked PNS_APP (remove1 p (sc_unacked_packets ctl PNS_APP)) ctl;
              ctl = ctl\<lparr>sc_heap := (sc_heap ctl)(p := None)\<rparr>
          in (lsquic_send_ctl_begin_optack_detection env ctl)\<lparr>sc_has_poison := False\<rparr>)"

text \<open>The part from the label \<^verbatim>\<open>detect_losses\<close> to \<^verbatim>\<open>update_n_stop_waiting\<close>.\<close>

definition after_acks :: "sc_env \<Rightarrow> ack_info \<Rightarrow> qtime \<Rightarrow> ack_acc \<Rightarrow> send_ctl \<Rightarrow> send_ctl option" where
  "after_acks env acki now acc ctl = do {
     let pns = ai_pns acki;
     (ctl, losses_detected) \<leftarrow> send_ctl_detect_losses env ctl pns;
     let ctl = (if send_ctl_first_unacked_retx_packet ctl pns \<noteq> None then set_retx_alarm ctl pns now
                else ctl\<lparr>sc_al_retx := (sc_al_retx ctl)(pns := None)\<rparr>);
     let ctl = (if sc_nstp ctl \<and> aa_ack2ed acc > sc_largest_ack2ed ctl pns
                then ctl\<lparr>sc_largest_ack2ed := (sc_largest_ack2ed ctl)(pns := aa_ack2ed acc)\<rparr> else ctl);
     let ctl = (if sc_n_in_flight_retx ctl = 0 then ctl\<lparr>sc_was_quiet := True\<rparr> else ctl);
     let ctl = (if aa_one_rtt acc \<noteq> 0 then ctl\<lparr>sc_1rtt_acked := True\<rparr> else ctl);
     case ai_ecn acki of
       None \<Rightarrow> Some ctl
     | Some (ect1, ect0, ce) \<Rightarrow>
         if sc_ecn ctl = 0 then Some ctl
         else
           let sm = ect0 + ect1 + ce;
               ctl = ctl\<lparr>sc_ecn_total_acked := (sc_ecn_total_acked ctl)(pns := sc_ecn_total_acked ctl pns + ucast (aa_ecn_total acc)),
                          sc_ecn_ce_cnt := (sc_ecn_ce_cnt ctl)(pns := sc_ecn_ce_cnt ctl pns + ucast (aa_ecn_ce acc))\<rparr>
           in if sm \<ge> sc_ecn_total_acked ctl pns then
                let ctl = (if sm > sc_ecn_total_acked ctl pns
                           then ctl\<lparr>sc_ecn_total_acked := (sc_ecn_total_acked ctl)(pns := sm)\<rparr> else ctl)
                in Some (if ce > sc_ecn_ce_cnt ctl pns then
                     let ctl = ctl\<lparr>sc_ecn_ce_cnt := (sc_ecn_ce_cnt ctl)(pns := ce)\<rparr>
                     in if losses_detected then ctl else send_ctl_loss_event ctl
                   else ctl)
              else Some (lsquic_send_ctl_disable_ecn ctl)
   }"

definition finish_got_ack :: "sc_env \<Rightarrow> ack_info \<Rightarrow> packno \<Rightarrow> send_ctl \<Rightarrow> send_ctl" where
  "finish_got_ack env acki smallest_unacked ctl =
     (let ctl = (if \<not> sc_nstp ctl \<and> \<not> sc_ietf ctl
                 then ctl\<lparr>sc_n_stop_waiting := (if smallest_unacked > smallest_acked acki then sc_n_stop_waiting ctl + 1 else 0)\<rparr>
                 else ctl)
      in if sc_gap ctl < smallest_acked acki then send_ctl_reschedule_poison env ctl else ctl)"

definition lsquic_send_ctl_got_ack :: "sc_env \<Rightarrow> send_ctl \<Rightarrow> ack_info \<Rightarrow> qtime \<Rightarrow> qtime \<Rightarrow> (send_ctl \<times> int) option" where
  "lsquic_send_ctl_got_ack env ctl acki ack_recv_time now = do {
     let pns = ai_pns acki;
     let ctl = ctl\<lparr>sc_ack_recv := (sc_ack_recv ctl)(pns := True)\<rparr>;
     if largest_acked acki > sc_last_sent ctl then Some (ctl, - 1)
     else do {
       let ctl = ctl\<lparr>sc_was_quiet := False\<rparr>;
       case first_pid (sc_unacked_packets ctl pns) of
         None \<Rightarrow> Some (finish_got_ack env acki (sc_last_sent ctl + 1) (ctl\<lparr>sc_was_quiet := True\<rparr>), 0)
       | Some p \<Rightarrow> do {
           x \<leftarrow> sc_heap ctl p;
           let smallest_unacked = po_packno x;
           let acc = \<lparr>aa_do_rtt = False, aa_ecn_total = 0, aa_ecn_ce = 0, aa_one_rtt = 0, aa_ack2ed = 0\<rparr>;
           (ctl, ok, acc) \<leftarrow>
             (if po_packno x > largest_acked acki then Some (ctl, True, acc)
              else do {
                let ctl = (if largest_acked acki > sc_cur_rt_end ctl
                           then ctl\<lparr>sc_rt_count := sc_rt_count ctl + 1, sc_cur_rt_end := sc_last_sent ctl\<rparr> else ctl);
                (ctl, ok, acc) \<leftarrow> got_ack_loop env acki (sc_largest_acked_packno ctl) p (length (ai_ranges acki) - 1) False acc ctl;
                Some (if ok \<and> aa_do_rtt acc
                      then (take_rtt_sample ctl ack_recv_time (ai_lack_delta acki))\<lparr>sc_n_consec_rtos := 0, sc_n_hsk := 0, sc_n_tlp := 0\<rparr>
                      else ctl, ok, acc)
              });
           if \<not> ok then Some (ctl, - 1)
           else do {
             ctl \<leftarrow> after_acks env acki now acc ctl;
             Some (finish_got_ack env acki smallest_unacked ctl, 0)
           }
         }
     }
   }"

section \<open>Timeouts\<close>

datatype expire_filter = EXFI_ALL | EXFI_HSK | EXFI_LAST

text \<open>The loop of the first two filters; the packets it takes are those that \<open>sel\<close> selects.\<close>

partial_function (option) expire_loop :: "sc_env \<Rightarrow> packnum_space \<Rightarrow> (sc_packet \<Rightarrow> bool) \<Rightarrow> pid option \<Rightarrow> send_ctl \<Rightarrow> send_ctl option" where
  "expire_loop env pns sel cur ctl =
     (case cur of
        None \<Rightarrow> Some ctl
      | Some p \<Rightarrow> do {
          x \<leftarrow> sc_heap ctl p;
          let next = tailq_next (sc_unacked_packets ctl pns) p;
          (ctl, next) \<leftarrow> (if sel x then do { (ctl, _, next) \<leftarrow> send_ctl_handle_lost_packet env ctl p next; Some (ctl, next) }
                          else Some (ctl, next));
          expire_loop env pns sel next ctl
        })"

definition send_ctl_expire :: "sc_env \<Rightarrow> send_ctl \<Rightarrow> packnum_space \<Rightarrow> expire_filter \<Rightarrow> send_ctl option" where
  "send_ctl_expire env ctl pns fil =
     (case fil of
        EXFI_ALL \<Rightarrow> expire_loop env pns (\<lambda>x. \<not> po_loss_rec x \<and> \<not> po_poison x) (first_pid (sc_unacked_packets ctl pns)) ctl
      | EXFI_HSK \<Rightarrow> expire_loop env pns po_hello (first_pid (sc_unacked_packets ctl pns)) ctl
      | EXFI_LAST \<Rightarrow>
          (case send_ctl_last_unacked_retx_packet ctl pns of
             None \<Rightarrow> Some ctl
           | Some p \<Rightarrow> do { (ctl, _, _) \<leftarrow> send_ctl_handle_lost_packet env ctl p None; Some ctl }))"

definition retx_alarm_rings :: "sc_env \<Rightarrow> send_ctl \<Rightarrow> packnum_space \<Rightarrow> qtime \<Rightarrow> send_ctl option" where
  "retx_alarm_rings env ctl pns now = do {
     let ctl = ctl\<lparr>sc_al_retx := (sc_al_retx ctl)(pns := None)\<rparr>;
     ctl \<leftarrow> (case get_retx_mode ctl of
         RETX_MODE_HANDSHAKE \<Rightarrow> send_ctl_expire env ctl pns EXFI_HSK
       | RETX_MODE_LOSS \<Rightarrow> do { (ctl, _) \<leftarrow> send_ctl_detect_losses env ctl pns; Some ctl }
       | RETX_MODE_TLP \<Rightarrow> send_ctl_expire env (ctl\<lparr>sc_n_tlp := sc_n_tlp ctl + 1\<rparr>) pns EXFI_LAST
       | RETX_MODE_RTO \<Rightarrow> send_ctl_expire env (ctl\<lparr>sc_last_rto_time := now, sc_n_consec_rtos := sc_n_consec_rtos ctl + 1, sc_next_limit := 2\<rparr>)
                            pns EXFI_ALL);
     Some (if send_ctl_first_unacked_retx_packet ctl pns \<noteq> None then set_retx_alarm ctl pns now else ctl)
   }"

definition lsquic_send_ctl_expire_all :: "sc_env \<Rightarrow> send_ctl \<Rightarrow> send_ctl option" where
  "lsquic_send_ctl_expire_all env ctl = do {
     let one = (\<lambda>pns ctl. send_ctl_expire env (ctl\<lparr>sc_al_retx := (sc_al_retx ctl)(pns := None)\<rparr>) pns EXFI_ALL);
     ctl \<leftarrow> (if sc_ietf ctl then do { ctl \<leftarrow> one PNS_INIT ctl; one PNS_HSK ctl } else Some ctl);
     one PNS_APP ctl
   }"

section \<open>Initialisation\<close>

text \<open>The members set by \<^verbatim>\<open>lsquic_send_ctl_init\<close> that are modelled; the rest of the structure is zero.\<close>

definition lsquic_send_ctl_init :: "bool \<Rightarrow> bool \<Rightarrow> bool \<Rightarrow> u32 \<Rightarrow> send_ctl" where
  "lsquic_send_ctl_init ietf nstp ecn retx_frames =
     \<lparr>sc_heap = (\<lambda>_. None), sc_fresh = 0, sc_unacked_packets = (\<lambda>_. []), sc_scheduled_packets = [], sc_lost_packets = [],
      sc_feedback_window = [], sc_feedback_window_size = 0, sc_largest_feedback_window = MAX_FEEDBACK_WINDOW_SIZE,
      sc_rounds_map = map (\<lambda>t. 2 * of_nat t - 1) [0..<MAX_ROUND_BOUND], sc_art_flag = 1, sc_all_retrans_packet_num = 0,
      sc_lost_packet_number = 0, sc_bytes_unacked_retx = 0, sc_bytes_scheduled = 0, sc_bytes_unacked_all = 0,
      sc_n_in_flight_all = 0, sc_n_in_flight_retx = 0, sc_n_scheduled = 0, sc_n_consec_rtos = 0, sc_n_hsk = 0, sc_n_tlp = 0,
      sc_next_limit = 0, sc_retx_frames = retx_frames, sc_last_sent = lsquic_senhist_init ietf,
      sc_cur_packno = (if ietf then 0 else 1) - 1, sc_gap = NOT 0 - 1, sc_largest_acked_packno = 0,
      sc_largest_acked_sent_time = 0, sc_last_sent_time = 0, sc_last_rto_time = 0, sc_largest_sent_at_cutback = 0,
      sc_max_rtt_packno = 0, sc_largest_ack2ed = (\<lambda>_. 0), sc_loss_to = 0, sc_ecn = (if ecn then 2 else 0),
      sc_ecn_total_acked = (\<lambda>_. 0), sc_ecn_ce_cnt = (\<lambda>_. 0), sc_rt_count = 0, sc_cur_rt_end = 0, sc_loss_count = 0,
      sc_reord_thresh = N_NACKS_BEFORE_RETX, sc_n_stop_waiting = 0, sc_ietf = ietf, sc_nstp = nstp, sc_was_quiet = False,
      sc_1rtt_acked = False, sc_rough_rtt = False, sc_has_poison = False, sc_lost_ack = (\<lambda>_. False), sc_ack_recv = (\<lambda>_. False),
      sc_hsk_done = False, sc_max_peer_ack_usec = 0, sc_rtt = \<lparr>srtt = 0, rttvar = 0, min_rtt = 0\<rparr>,
      sc_al_retx = (\<lambda>_. None), sc_al_art = None\<rparr>"

text \<open>The packets that the sanity check counts as being in flight, with their bytes.\<close>

definition in_flight :: "send_ctl \<Rightarrow> pid list" where
  "in_flight ctl = sc_unacked_packets ctl PNS_INIT @ sc_unacked_packets ctl PNS_HSK @ sc_unacked_packets ctl PNS_APP"

definition sanity_counted :: "send_ctl \<Rightarrow> sc_packet list" where
  "sanity_counted ctl = filter (\<lambda>x. \<not> po_loss_rec x \<and> \<not> po_poison x) (map (\<lambda>p. the (sc_heap ctl p)) (in_flight ctl))"

definition lsquic_send_ctl_do_sanity_check :: "send_ctl \<Rightarrow> bool" where
  "lsquic_send_ctl_do_sanity_check ctl \<longleftrightarrow>
     (\<forall>pns \<in> {PNS_INIT, PNS_HSK, PNS_APP}. case sc_unacked_packets ctl pns of [] \<Rightarrow> True
        | p # ps \<Rightarrow> list_all (\<lambda>q. po_packno (the (sc_heap ctl q)) > po_packno (the (sc_heap ctl p))) ps)
     \<and> of_nat (length (sanity_counted ctl)) = sc_n_in_flight_all ctl
     \<and> sum_list (map packet_out_sent_sz (sanity_counted ctl)) = sc_bytes_unacked_all ctl
     \<and> list_all (\<lambda>p. po_sched (the (sc_heap ctl p))) (sc_scheduled_packets ctl)
     \<and> of_nat (length (sc_scheduled_packets ctl)) = sc_n_scheduled ctl
     \<and> sum_list (map (\<lambda>p. po_total_sz (the (sc_heap ctl p))) (sc_scheduled_packets ctl)) = sc_bytes_scheduled ctl"

end
