(* ===== verification/Send_Heap.thy ===== *)
theory Send_Heap
  imports Send_Ctl
begin

text \<open>
  Generic facts for the send controller: sums over a heap, which its counters are, and heaps in which following a link
  leads back to where one started, as \<^verbatim>\<open>po_loss_chain\<close> does.
\<close>

section \<open>Sums over the heap\<close>

definition hsum :: "('x \<Rightarrow> 'w :: comm_ring_1) \<Rightarrow> ('p \<Rightarrow> 'x option) \<Rightarrow> 'w" where
  "hsum w h = (\<Sum>p \<in> dom h. w (the (h p)))"

lemma hsum_new: "finite (dom h) \<Longrightarrow> h p = None \<Longrightarrow> hsum w (h(p \<mapsto> x)) = hsum w h + w x"
proof -
  assume a: "finite (dom h)" "h p = None"
  then have "p \<notin> dom h" by auto
  with a show ?thesis unfolding hsum_def dom_fun_upd by (simp add: sum.insert add.commute) (intro sum.cong, auto)
qed

lemma hsum_del: "finite (dom h) \<Longrightarrow> h p = Some y \<Longrightarrow> hsum w (h(p := None)) = hsum w h - w y"
proof -
  assume a: "finite (dom h)" "h p = Some y"
  then have p: "p \<in> dom h" by auto
  have "hsum w (h(p := None)) = (\<Sum>q \<in> dom h - {p}. w (the (h q)))" unfolding hsum_def by (rule sum.cong) auto
  also have "\<dots> = hsum w h - w y" unfolding hsum_def using a p by (simp add: sum_diff1)
  finally show ?thesis .
qed

lemma hsum_upd: "finite (dom h) \<Longrightarrow> h p = Some y \<Longrightarrow> hsum w (h(p \<mapsto> x)) = hsum w h - w y + w x"
proof -
  assume a: "finite (dom h)" "h p = Some y"
  have "hsum w ((h(p := None))(p \<mapsto> x)) = hsum w (h(p := None)) + w x" using a by (intro hsum_new) auto
  then show ?thesis using a by (simp add: hsum_del)
qed

lemma hsum_cong: "dom h = dom h' \<Longrightarrow> (\<And>p x y. h p = Some x \<Longrightarrow> h' p = Some y \<Longrightarrow> w x = w y) \<Longrightarrow> hsum w h = hsum w h'"
  unfolding hsum_def by (rule sum.cong) (auto simp: domIff, metis domD domI option.sel)

section \<open>Cycles\<close>

text \<open>The links from \<open>p\<close> through \<open>ys\<close> to \<open>q\<close>.\<close>

fun links :: "('p \<Rightarrow> 'p option) \<Rightarrow> 'p \<Rightarrow> 'p list \<Rightarrow> 'p \<Rightarrow> bool" where
  "links h p [] q \<longleftrightarrow> h p = Some q"
| "links h p (y # ys) q \<longleftrightarrow> h p = Some y \<and> links h y ys q"

definition cyc :: "('p \<Rightarrow> 'p option) \<Rightarrow> 'p \<Rightarrow> 'p list \<Rightarrow> bool" where
  "cyc h p ys \<longleftrightarrow> links h p ys p \<and> distinct (p # ys)"

definition all_cyc :: "('p \<Rightarrow> 'p option) \<Rightarrow> bool" where
  "all_cyc h \<longleftrightarrow> (\<forall>p \<in> dom h. \<exists>ys. cyc h p ys)"

lemma links_append: "links h p (xs @ y # ys) q \<longleftrightarrow> links h p xs y \<and> links h y ys q"
  by (induction xs arbitrary: p) auto

lemma links_cong: "(\<And>y. y \<in> set (p # ys) \<Longrightarrow> h' y = h y) \<Longrightarrow> links h' p ys q = links h p ys q"
  by (induction ys arbitrary: p) auto

lemma links_dom: "links h p ys q \<Longrightarrow> set (p # ys) \<subseteq> dom h"
  by (induction ys arbitrary: p) auto

lemma links_closed: "links h p ys q \<Longrightarrow> z \<in> set (p # ys) \<Longrightarrow> h z = Some w \<Longrightarrow> w \<in> set ys \<union> {q}"
  by (induction ys arbitrary: p) auto

lemma cyc_rotate:
  assumes "cyc h p ys" "q \<in> set ys"
  shows "\<exists>zs. cyc h q zs \<and> set (q # zs) = set (p # ys)"
proof -
  from assms(2) obtain as bs where ys: "ys = as @ q # bs" by (auto simp: in_set_conv_decomp)
  from assms(1) have "links h p as q" "links h q bs p" and d: "distinct (p # as @ q # bs)" unfolding cyc_def ys links_append by auto
  then have "links h q (bs @ p # as) q" by (simp add: links_append)
  with d have "cyc h q (bs @ p # as)" by (auto simp: cyc_def)
  then show ?thesis unfolding ys by (intro exI [of _ "bs @ p # as"]) auto
qed

lemma cyc_closed: "cyc h p ys \<Longrightarrow> z \<in> set (p # ys) \<Longrightarrow> h z = Some w \<Longrightarrow> w \<in> set (p # ys)"
  using links_closed [of h p ys p z w] by (auto simp: cyc_def)

lemma links_stay:
  assumes "links h z zs q" "z \<in> C" "\<And>a b. a \<in> C \<Longrightarrow> h a = Some b \<Longrightarrow> b \<in> C"
  shows "q \<in> C"
  using assms(1,2) by (induction zs arbitrary: z) (auto dest: assms(3))

lemma cyc_disjoint:
  assumes "cyc h p ys" "cyc h q zs" "q \<notin> set (p # ys)"
  shows "set (p # ys) \<inter> set (q # zs) = {}"
proof (rule ccontr)
  assume "\<not> ?thesis"
  then obtain z where z: "z \<in> set (p # ys)" "z \<in> set (q # zs)" by blast
  with assms(3) have "z \<in> set zs" by auto
  then obtain as bs where zs: "zs = as @ z # bs" by (auto simp: in_set_conv_decomp)
  then have "links h z bs q" using assms(2) by (simp add: cyc_def links_append)
  from links_stay [OF this, of "set (p # ys)"] z(1) cyc_closed [OF assms(1)] assms(3) show False by blast
qed

lemma all_cyc_del:
  assumes "all_cyc h" "cyc h p ys"
  shows "all_cyc (\<lambda>q. if q \<in> set (p # ys) then None else h q)" (is "all_cyc ?h")
  unfolding all_cyc_def
proof
  fix q assume "q \<in> dom ?h"
  then have q: "q \<in> dom h" "q \<notin> set (p # ys)" by (auto split: if_splits)
  then obtain zs where zs: "cyc h q zs" using assms(1) by (auto simp: all_cyc_def)
  have "cyc ?h q zs" using zs cyc_disjoint [OF assms(2) zs q(2)] unfolding cyc_def
    by (subst links_cong [of _ _ _ h]) auto
  then show "\<exists>zs. cyc ?h q zs" ..
qed

lemma all_cyc_self:
  assumes "all_cyc h" "cyc h p ys"
  shows "all_cyc ((\<lambda>q. if q \<in> set ys then None else h q)(p \<mapsto> p))" (is "all_cyc ?h")
  unfolding all_cyc_def
proof
  fix q assume "q \<in> dom ?h"
  show "\<exists>zs. cyc ?h q zs"
  proof (cases "q = p")
    case True
    then have "cyc ?h q []" by (simp add: cyc_def)
    then show ?thesis ..
  next
    case False
    with \<open>q \<in> dom ?h\<close> have q: "q \<in> dom h" "q \<notin> set (p # ys)" by (auto split: if_splits)
    then obtain zs where zs: "cyc h q zs" using assms(1) by (auto simp: all_cyc_def)
    have "cyc ?h q zs" using zs cyc_disjoint [OF assms(2) zs q(2)] unfolding cyc_def
      by (subst links_cong [of _ _ _ h]) auto
    then show ?thesis ..
  qed
qed

lemma all_cyc_new: "all_cyc h \<Longrightarrow> h r = None \<Longrightarrow> all_cyc (h(r \<mapsto> r))"
  unfolding all_cyc_def
proof
  fix q assume a: "\<forall>p\<in>dom h. \<exists>ys. cyc h p ys" "h r = None" "q \<in> dom (h(r \<mapsto> r))"
  show "\<exists>ys. cyc (h(r \<mapsto> r)) q ys"
  proof (cases "q = r")
    case True
    then have "cyc (h(r \<mapsto> r)) q []" by (simp add: cyc_def)
    then show ?thesis ..
  next
    case False
    then obtain zs where zs: "cyc h q zs" using a by auto
    have "r \<notin> set (q # zs)" using zs links_dom [of h q zs q] a(2) by (auto simp: cyc_def)
    then have "cyc (h(r \<mapsto> r)) q zs" using zs unfolding cyc_def by (subst links_cong [of _ _ _ h]) auto
    then show ?thesis ..
  qed
qed

lemma all_cyc_insert:
  assumes "all_cyc h" "h p = Some n" "h r = None"
  shows "all_cyc (h(r \<mapsto> n, p \<mapsto> r))" (is "all_cyc ?h")
proof -
  obtain ys where ys: "cyc h p ys" using assms(1,2) by (auto simp: all_cyc_def)
  have r: "r \<notin> set (p # ys)" using ys links_dom [of h p ys p] assms(3) by (auto simp: cyc_def)
  have "links ?h p (r # ys) p"
  proof (cases ys)
    case Nil
    then show ?thesis using ys r assms(2) by (simp add: cyc_def)
  next
    case (Cons y ys')
    have "links ?h y ys' p = links h y ys' p" using r ys Cons by (intro links_cong) (auto simp: cyc_def)
    then show ?thesis using ys r assms(2) Cons by (simp add: cyc_def)
  qed
  then have c: "cyc ?h p (r # ys)" using ys r by (auto simp: cyc_def)
  show ?thesis unfolding all_cyc_def
  proof
    fix q assume q: "q \<in> dom ?h"
    show "\<exists>zs. cyc ?h q zs"
    proof (cases "q \<in> set (p # r # ys)")
      case True
      then show ?thesis using c cyc_rotate [OF c, of q] by auto
    next
      case False
      with q have "q \<in> dom h" by auto
      then obtain zs where zs: "cyc h q zs" using assms(1) by (auto simp: all_cyc_def)
      have "set (p # ys) \<inter> set (q # zs) = {}" using False by (intro cyc_disjoint [OF ys zs]) auto
      moreover have "r \<notin> set (q # zs)" using zs links_dom [of h q zs q] assms(3) by (auto simp: cyc_def)
      ultimately have "cyc ?h q zs" using zs unfolding cyc_def by (subst links_cong [of _ _ _ h]) auto
      then show ?thesis ..
    qed
  qed
qed

end
