(* ===== verification/Send_View.thy ===== *)
theory Send_View
  imports Send_Heap
begin

text \<open>
  The invariant that ties the queues and the counters of the send controller to its heap, and how it changes when a
  packet goes, comes or is changed.
\<close>

section \<open>Queues and pointers into them\<close>

text \<open>What a traversal that has arrived at \<open>cur\<close> has still to see.\<close>

definition rest :: "'a list \<Rightarrow> 'a option \<Rightarrow> 'a list" where
  "rest xs cur = (case cur of None \<Rightarrow> [] | Some q \<Rightarrow> dropWhile (\<lambda>z. z \<noteq> q) xs)"

definition points_into :: "'a list \<Rightarrow> 'a option \<Rightarrow> bool" where
  "points_into xs cur \<longleftrightarrow> (case cur of None \<Rightarrow> True | Some q \<Rightarrow> q \<in> set xs)"

lemma rest_None [simp]: "rest xs None = []" and points_into_None [simp]: "points_into xs None"
  and points_into_Some [simp]: "points_into xs (Some q) \<longleftrightarrow> q \<in> set xs"
  by (simp_all add: rest_def points_into_def)

lemma rest_Some: "q \<in> set xs \<Longrightarrow> rest xs (Some q) = q # tl (rest xs (Some q))"
  by (induction xs) (auto simp: rest_def)

lemma set_rest: "set (rest xs cur) \<subseteq> set xs"
  by (auto simp: rest_def split: option.splits dest: set_dropWhileD)

lemma tailq_next_points: "points_into xs (tailq_next xs q)"
  by (induction xs) (auto simp: points_into_def split: option.splits list.splits)

lemma rest_tailq_next: "distinct xs \<Longrightarrow> q \<in> set xs \<Longrightarrow> rest xs (tailq_next xs q) = tl (rest xs (Some q))"
proof (induction xs)
  case (Cons y ys)
  show ?case
  proof (cases "y = q")
    case True
    then show ?thesis using Cons.prems by (cases ys) (auto simp: rest_def)
  next
    case False
    then have "tailq_next ys q \<noteq> Some y" using tailq_next_points [of ys q] Cons.prems(1) by auto
    with False Cons show ?thesis by (auto simp: rest_def split: option.splits)
  qed
qed (simp add: rest_def)

lemma tailq_next_neq: "distinct xs \<Longrightarrow> tailq_next xs q \<noteq> Some q"
  by (induction xs) (auto split: list.splits)

lemma rest_remove1:
  fixes xs :: "'a list" and c :: 'a
  assumes "distinct xs" "points_into xs next"
  defines "next' \<equiv> (if next = Some c then tailq_next xs c else next)"
  shows "points_into (remove1 c xs) next'" "rest (remove1 c xs) next' = remove1 c (rest xs next)"
proof -
  have neq: "next' \<noteq> Some c" unfolding next'_def using tailq_next_neq [OF assms(1)] by auto
  have pi: "points_into xs next'" unfolding next'_def using assms(2) tailq_next_points by auto
  with neq show "points_into (remove1 c xs) next'" using assms(1) by (cases next') auto
  have go: "rest (remove1 c xs) n = remove1 c (rest xs n)" if "n \<noteq> Some c" for n
  proof (cases n)
    case (Some q)
    with that have "q \<noteq> c" by simp
    then have "dropWhile (\<lambda>z. z \<noteq> q) (remove1 c xs) = remove1 c (dropWhile (\<lambda>z. z \<noteq> q) xs)"
      using assms(1) by (induction xs) (auto simp: remove1_idem dest: set_dropWhileD)
    with Some show ?thesis by (simp add: rest_def)
  qed simp
  show "rest (remove1 c xs) next' = remove1 c (rest xs next)"
  proof (cases "next = Some c")
    case True
    with assms(2) have c: "c \<in> set xs" by simp
    have "rest (remove1 c xs) next' = remove1 c (rest xs next')" by (rule go [OF neq])
    also have "rest xs next' = tl (rest xs (Some c))" using True rest_tailq_next [OF assms(1) c] by (simp add: next'_def)
    also have "remove1 c (tl (rest xs (Some c))) = tl (rest xs (Some c))"
      using assms(1) rest_Some [OF c] by (metis distinct.simps(2) distinct_dropWhile option.simps(5) remove1_idem rest_def)
    also have "\<dots> = remove1 c (rest xs next)" using rest_Some [OF c] True by (metis remove1.simps(2))
    finally show ?thesis .
  qed (simp add: next'_def go)
qed

lemma rest_append_new: "r \<notin> set xs \<Longrightarrow> points_into xs cur \<Longrightarrow> cur = None \<or> rest (xs @ [r]) cur = rest xs cur @ [r]"
  by (cases cur) (auto simp: rest_def intro: dropWhile_append1)

lemma insert_before_set: "p \<in> set xs \<Longrightarrow> set (insert_before_pid p r xs) = insert r (set xs)"
  by (induction xs) auto

lemma insert_before_distinct: "p \<in> set xs \<Longrightarrow> r \<notin> set xs \<Longrightarrow> distinct xs \<Longrightarrow> distinct (insert_before_pid p r xs)"
  by (induction xs) (auto simp: insert_before_set)

lemma insert_before_rest:
  assumes "p \<in> set xs" "r \<notin> set xs" "distinct xs"
  shows "rest (insert_before_pid p r xs) (tailq_next xs p) = rest xs (tailq_next xs p)"
  using assms
proof (induction xs)
  case (Cons y ys)
  show ?case
  proof (cases "y = p")
    case True
    with Cons show ?thesis by (auto simp: rest_def split: option.splits list.splits)
  next
    case False
    then have "tailq_next ys p \<noteq> Some y" using tailq_next_points [of ys p] Cons.prems(3) by auto
    with False Cons show ?thesis by (auto simp: rest_def split: option.splits)
  qed
qed simp

section \<open>The invariant\<close>

text \<open>A packet is in at most one queue; loss records and poisoned packets are in the unacked queue.\<close>

definition packet_ok :: "pid \<Rightarrow> sc_packet \<Rightarrow> bool" where
  "packet_ok p x \<longleftrightarrow>
     \<not> (po_sched x \<and> po_unacked x) \<and> \<not> (po_sched x \<and> po_lost x) \<and> \<not> (po_unacked x \<and> po_lost x)
     \<and> (po_loss_rec x \<longrightarrow> po_unacked x \<and> \<not> po_poison x \<and> \<not> po_mtu_probe x \<and> \<not> po_hello x \<and> po_has_sent_sz x)
     \<and> (po_poison x \<longrightarrow> po_unacked x \<and> \<not> po_mtu_probe x \<and> \<not> po_hello x \<and> po_frame_types x = 0 \<and> po_fake_loss_rec x = 0)
     \<and> (po_poison x \<or> po_mtu_probe x \<longrightarrow> po_loss_chain x = p)
     \<and> (po_mtu_probe x \<longrightarrow> po_fake_loss_rec x = 0) \<and> po_fake_loss_rec x \<le> 1
     \<and> po_total_sz x < 65536"

text \<open>The unacked queue of a packet: a poisoned packet is in the last one, without the flags that say so.\<close>

definition q_pns :: "sc_packet \<Rightarrow> packnum_space" where
  "q_pns x = (if po_poison x then PNS_APP else po_pns x)"

text \<open>What a packet contributes to the counters.  The record of a duplicate (\<^verbatim>\<open>po_fake_loss_rec\<close>) is in flight like a packet.\<close>

definition counted :: "sc_packet \<Rightarrow> bool" where
  "counted x \<longleftrightarrow> po_unacked x \<and> \<not> po_poison x \<and> (po_loss_rec x \<longrightarrow> po_fake_loss_rec x = 1)"

definition w_all :: "sc_packet \<Rightarrow> u32" where "w_all x = of_bool (counted x)"
definition w_bytes :: "sc_packet \<Rightarrow> u32" where "w_bytes x = (if counted x then packet_out_sent_sz x else 0)"
definition w_retx :: "u32 \<Rightarrow> sc_packet \<Rightarrow> u32" where
  "w_retx fts x = of_bool (po_unacked x \<and> \<not> po_loss_rec x \<and> has_frames x fts)"
definition w_sched :: "sc_packet \<Rightarrow> u32" where "w_sched x = of_bool (po_sched x)"
definition w_sbytes :: "sc_packet \<Rightarrow> u32" where "w_sbytes x = (if po_sched x then po_total_sz x else 0)"
definition w_lost :: "sc_packet \<Rightarrow> u32" where "w_lost x = of_bool (po_lost x)"

lemmas weights = w_all_def w_bytes_def w_retx_def w_sched_def w_sbytes_def w_lost_def counted_def

text \<open>The queues and counters agree with the heap \<open>h\<close>.\<close>

definition sc_view :: "(pid \<Rightarrow> sc_packet option) \<Rightarrow> send_ctl \<Rightarrow> bool" where
  "sc_view h ctl \<longleftrightarrow>
     finite (dom h) \<and> dom h \<subseteq> {..<sc_fresh ctl} \<and> (\<forall>p x. h p = Some x \<longrightarrow> packet_ok p x)
     \<and> (\<forall>pns. distinct (sc_unacked_packets ctl pns)
             \<and> set (sc_unacked_packets ctl pns) = {p. \<exists>x. h p = Some x \<and> po_unacked x \<and> q_pns x = pns})
     \<and> distinct (sc_scheduled_packets ctl) \<and> set (sc_scheduled_packets ctl) = {p. \<exists>x. h p = Some x \<and> po_sched x}
     \<and> distinct (sc_lost_packets ctl) \<and> set (sc_lost_packets ctl) = {p. \<exists>x. h p = Some x \<and> po_lost x}
     \<and> sc_n_in_flight_all ctl = hsum w_all h \<and> sc_bytes_unacked_all ctl = hsum w_bytes h
     \<and> sc_n_in_flight_retx ctl = hsum (w_retx (sc_retx_frames ctl)) h
     \<and> sc_n_scheduled ctl = hsum w_sched h \<and> sc_bytes_scheduled ctl = hsum w_sbytes h
     \<and> sc_lost_packet_number ctl = hsum w_lost h"

lemma view_cong:
  "sc_view h ctl \<Longrightarrow> sc_fresh ctl \<le> sc_fresh ctl' \<Longrightarrow> sc_unacked_packets ctl' = sc_unacked_packets ctl \<Longrightarrow>
   sc_scheduled_packets ctl' = sc_scheduled_packets ctl \<Longrightarrow> sc_lost_packets ctl' = sc_lost_packets ctl \<Longrightarrow>
   sc_n_in_flight_all ctl' = sc_n_in_flight_all ctl \<Longrightarrow> sc_bytes_unacked_all ctl' = sc_bytes_unacked_all ctl \<Longrightarrow>
   sc_n_in_flight_retx ctl' = sc_n_in_flight_retx ctl \<Longrightarrow> sc_retx_frames ctl' = sc_retx_frames ctl \<Longrightarrow>
   sc_n_scheduled ctl' = sc_n_scheduled ctl \<Longrightarrow> sc_bytes_scheduled ctl' = sc_bytes_scheduled ctl \<Longrightarrow>
   sc_lost_packet_number ctl' = sc_lost_packet_number ctl \<Longrightarrow> sc_view h ctl'"
  unfolding sc_view_def by simp (meson lessThan_subset_iff order_trans)

lemma viewD:
  assumes "sc_view h ctl"
  shows "finite (dom h)" "dom h \<subseteq> {..<sc_fresh ctl}" "h p = Some x \<Longrightarrow> packet_ok p x" "distinct (sc_unacked_packets ctl pns)"
    "p \<in> set (sc_unacked_packets ctl pns) \<longleftrightarrow> (\<exists>x. h p = Some x \<and> po_unacked x \<and> q_pns x = pns)"
    "distinct (sc_scheduled_packets ctl)" "p \<in> set (sc_scheduled_packets ctl) \<longleftrightarrow> (\<exists>x. h p = Some x \<and> po_sched x)"
    "distinct (sc_lost_packets ctl)" "p \<in> set (sc_lost_packets ctl) \<longleftrightarrow> (\<exists>x. h p = Some x \<and> po_lost x)"
  using assms unfolding sc_view_def by auto

text \<open>A packet goes, a packet comes, a packet is changed.\<close>

lemma view_gone:
  assumes v: "sc_view h ctl" and p: "h p = Some x"
    and u: "sc_unacked_packets ctl' = (sc_unacked_packets ctl)(q_pns x := remove1 p (sc_unacked_packets ctl (q_pns x)))"
    and s: "sc_scheduled_packets ctl' = remove1 p (sc_scheduled_packets ctl)" and l: "sc_lost_packets ctl' = remove1 p (sc_lost_packets ctl)"
    and f: "sc_fresh ctl' = sc_fresh ctl" "sc_retx_frames ctl' = sc_retx_frames ctl"
    and c: "sc_n_in_flight_all ctl' = sc_n_in_flight_all ctl - w_all x" "sc_bytes_unacked_all ctl' = sc_bytes_unacked_all ctl - w_bytes x"
      "sc_n_in_flight_retx ctl' = sc_n_in_flight_retx ctl - w_retx (sc_retx_frames ctl) x" "sc_n_scheduled ctl' = sc_n_scheduled ctl - w_sched x"
      "sc_bytes_scheduled ctl' = sc_bytes_scheduled ctl - w_sbytes x" "sc_lost_packet_number ctl' = sc_lost_packet_number ctl - w_lost x"
  shows "sc_view (h(p := None)) ctl'"
  unfolding sc_view_def
proof (intro conjI allI impI)
  note d = viewD [OF v]
  show "finite (dom (h(p := None)))" "dom (h(p := None)) \<subseteq> {..<sc_fresh ctl'}" using d(1,2) f by auto
  show "packet_ok q y" if "(h(p := None)) q = Some y" for q y using that d(3) by (auto split: if_splits)
  fix pns
  show "distinct (sc_unacked_packets ctl' pns)" using d(4) by (auto simp: u)
  show "set (sc_unacked_packets ctl' pns) = {q. \<exists>y. (h(p := None)) q = Some y \<and> po_unacked y \<and> q_pns y = pns}"
    using d(4,5) p by (auto simp: u)
next
  note d = viewD [OF v]
  show "distinct (sc_scheduled_packets ctl')" "distinct (sc_lost_packets ctl')" using d(6,8) by (auto simp: s l)
  show "set (sc_scheduled_packets ctl') = {q. \<exists>y. (h(p := None)) q = Some y \<and> po_sched y}"
    "set (sc_lost_packets ctl') = {q. \<exists>y. (h(p := None)) q = Some y \<and> po_lost y}" using d(6-9) by (auto simp: s l)
  have fin: "finite (dom h)" by (rule d(1))
  show "sc_n_in_flight_all ctl' = hsum w_all (h(p := None))" "sc_bytes_unacked_all ctl' = hsum w_bytes (h(p := None))"
    "sc_n_in_flight_retx ctl' = hsum (w_retx (sc_retx_frames ctl')) (h(p := None))" "sc_n_scheduled ctl' = hsum w_sched (h(p := None))"
    "sc_bytes_scheduled ctl' = hsum w_sbytes (h(p := None))" "sc_lost_packet_number ctl' = hsum w_lost (h(p := None))"
    using v unfolding c f hsum_del [OF fin p] by (simp_all add: sc_view_def)
qed

lemma view_comes:
  assumes v: "sc_view h ctl" and p: "h p = None" and ok: "packet_ok p x" and f: "p < sc_fresh ctl'" "sc_fresh ctl \<le> sc_fresh ctl'"
    and r: "sc_retx_frames ctl' = sc_retx_frames ctl"
    and u: "\<And>pns. distinct (sc_unacked_packets ctl' pns)" "\<And>pns. set (sc_unacked_packets ctl' pns) =
        (if po_unacked x \<and> pns = q_pns x then insert p (set (sc_unacked_packets ctl pns)) else set (sc_unacked_packets ctl pns))"
    and s: "distinct (sc_scheduled_packets ctl')" "set (sc_scheduled_packets ctl') = (if po_sched x then insert p (set (sc_scheduled_packets ctl)) else set (sc_scheduled_packets ctl))"
    and l: "distinct (sc_lost_packets ctl')" "set (sc_lost_packets ctl') = (if po_lost x then insert p (set (sc_lost_packets ctl)) else set (sc_lost_packets ctl))"
    and c: "sc_n_in_flight_all ctl' = sc_n_in_flight_all ctl + w_all x" "sc_bytes_unacked_all ctl' = sc_bytes_unacked_all ctl + w_bytes x"
      "sc_n_in_flight_retx ctl' = sc_n_in_flight_retx ctl + w_retx (sc_retx_frames ctl) x" "sc_n_scheduled ctl' = sc_n_scheduled ctl + w_sched x"
      "sc_bytes_scheduled ctl' = sc_bytes_scheduled ctl + w_sbytes x" "sc_lost_packet_number ctl' = sc_lost_packet_number ctl + w_lost x"
  shows "sc_view (h(p \<mapsto> x)) ctl'"
  unfolding sc_view_def
proof (intro conjI allI impI)
  note d = viewD [OF v]
  show "finite (dom (h(p \<mapsto> x)))" "dom (h(p \<mapsto> x)) \<subseteq> {..<sc_fresh ctl'}" using d(1,2) f by auto
  show "packet_ok q y" if "(h(p \<mapsto> x)) q = Some y" for q y using that d(3) ok by (auto split: if_splits)
  fix pns
  show "distinct (sc_unacked_packets ctl' pns)" by (rule u)
  show "set (sc_unacked_packets ctl' pns) = {q. \<exists>y. (h(p \<mapsto> x)) q = Some y \<and> po_unacked y \<and> q_pns y = pns}"
    using d(5) p by (auto simp: u)
next
  note d = viewD [OF v]
  show "distinct (sc_scheduled_packets ctl')" "distinct (sc_lost_packets ctl')" by (fact s l)+
  show "set (sc_scheduled_packets ctl') = {q. \<exists>y. (h(p \<mapsto> x)) q = Some y \<and> po_sched y}"
    "set (sc_lost_packets ctl') = {q. \<exists>y. (h(p \<mapsto> x)) q = Some y \<and> po_lost y}" using d(7,9) p by (auto simp: s l)
  have fin: "finite (dom h)" by (rule d(1))
  show "sc_n_in_flight_all ctl' = hsum w_all (h(p \<mapsto> x))" "sc_bytes_unacked_all ctl' = hsum w_bytes (h(p \<mapsto> x))"
    "sc_n_in_flight_retx ctl' = hsum (w_retx (sc_retx_frames ctl')) (h(p \<mapsto> x))" "sc_n_scheduled ctl' = hsum w_sched (h(p \<mapsto> x))"
    "sc_bytes_scheduled ctl' = hsum w_sbytes (h(p \<mapsto> x))" "sc_lost_packet_number ctl' = hsum w_lost (h(p \<mapsto> x))"
    using v unfolding c r hsum_new [OF fin p] by (simp_all add: sc_view_def)
qed

lemma view_changed:
  assumes v: "sc_view h ctl" and p: "h p = Some x" and ok: "packet_ok p x'"
    and same: "po_unacked x' = po_unacked x" "po_sched x' = po_sched x" "po_lost x' = po_lost x" "q_pns x' = q_pns x"
      "w_all x' = w_all x" "w_bytes x' = w_bytes x" "w_retx (sc_retx_frames ctl) x' = w_retx (sc_retx_frames ctl) x" "w_sbytes x' = w_sbytes x"
  shows "sc_view (h(p \<mapsto> x')) ctl"
proof -
  note d = viewD [OF v]
  have fin: "finite (dom h)" by (rule d(1))
  have "w_sched x' = w_sched x" "w_lost x' = w_lost x" using same by (simp_all add: weights)
  moreover have "dom (h(p \<mapsto> x')) = dom h" using p by auto
  ultimately show ?thesis using v p ok same unfolding sc_view_def hsum_upd [OF fin p]
    by (auto split: if_splits simp del: dom_fun_upd)
qed

end
