(* ===== verification/Send_Chain.thy ===== *)
theory Send_Chain
  imports Send_View
begin

text \<open>
  The chains of the send controller: what the functions that take a packet out of its queue do, and the destruction of
  a packet together with all records of its earlier transmissions (\<^verbatim>\<open>send_ctl_destroy_chain\<close>).
\<close>

section \<open>Chains\<close>

definition nx :: "(pid \<Rightarrow> sc_packet option) \<Rightarrow> pid \<Rightarrow> pid option" where
  "nx h p = map_option po_loss_chain (h p)"

definition chains :: "(pid \<Rightarrow> sc_packet option) \<Rightarrow> bool" where
  "chains h \<longleftrightarrow> all_cyc (nx h) \<and> (\<forall>p x y. h p = Some x \<longrightarrow> h (po_loss_chain x) = Some y \<longrightarrow> po_pns y = po_pns x)"

text \<open>Changes of members on which neither the queues and counters nor the chains depend.\<close>

definition touched :: "sc_packet \<Rightarrow> sc_packet \<Rightarrow> bool" where
  "touched x y \<longleftrightarrow> y = x\<lparr>po_repackno := po_repackno y, po_ecn := po_ecn y, po_feedback_recorded := po_feedback_recorded y,
     po_been_detect_loss := po_been_detect_loss y, po_facked := po_facked y\<rparr>"

definition touched_heap :: "(pid \<Rightarrow> sc_packet option) \<Rightarrow> (pid \<Rightarrow> sc_packet option) \<Rightarrow> bool" where
  "touched_heap h h' \<longleftrightarrow> (\<forall>q. rel_option touched (h q) (h' q))"

lemma touched_refl [simp]: "touched x x"
  by (simp add: touched_def)

lemma touched_trans: "touched x y \<Longrightarrow> touched y z \<Longrightarrow> touched x z"
  unfolding touched_def by (cases x, cases y, cases z) simp

lemma touched_heap_refl [simp]: "touched_heap h h"
  by (simp add: touched_heap_def option.rel_refl)

lemma touched_heap_trans: "touched_heap h h' \<Longrightarrow> touched_heap h' h'' \<Longrightarrow> touched_heap h h''"
  unfolding touched_heap_def
proof
  fix q assume "\<forall>q. rel_option touched (h q) (h' q)" "\<forall>q. rel_option touched (h' q) (h'' q)"
  then have "rel_option touched (h q) (h' q)" "rel_option touched (h' q) (h'' q)" by auto
  then show "rel_option touched (h q) (h'' q)"
    by (cases "h q"; cases "h' q"; cases "h'' q") (auto intro: touched_trans)
qed

lemma touched_heap_upd: "touched_heap h h' \<Longrightarrow> touched_heap (h(p := None)) (h'(p := None))"
  by (auto simp: touched_heap_def)

lemma touched_heap_upd1: "h p = Some x \<Longrightarrow> touched x y \<Longrightarrow> touched_heap h (h(p \<mapsto> y))"
  by (auto simp: touched_heap_def intro: option.rel_refl)

lemma touched_heapD: "touched_heap h h' \<Longrightarrow> h q = Some x \<Longrightarrow> \<exists>y. h' q = Some y \<and> touched x y"
  by (metis option_rel_Some1 touched_heap_def)

lemma touched_heapD2: "touched_heap h h' \<Longrightarrow> h' q = Some y \<Longrightarrow> \<exists>x. h q = Some x \<and> touched x y"
  by (metis option_rel_Some2 touched_heap_def)

lemma touched_heap_None: "touched_heap h h' \<Longrightarrow> h' q = None \<longleftrightarrow> h q = None"
  by (metis option.rel_distinct(1,2) option.exhaust touched_heap_def)

lemma touched_heap_dom: "touched_heap h h' \<Longrightarrow> dom h' = dom h"
  using touched_heap_None by (auto simp: dom_def)

lemma touched_members:
  assumes "touched x y"
  shows "po_packno y = po_packno x" "po_pns y = po_pns x" "po_sched y = po_sched x" "po_unacked y = po_unacked x"
    "po_lost y = po_lost x" "po_loss_rec y = po_loss_rec x" "po_poison y = po_poison x" "po_mtu_probe y = po_mtu_probe x"
    "po_frame_types y = po_frame_types x" "po_loss_chain y = po_loss_chain x" "po_retrans_times y = po_retrans_times x"
    "packet_ok p y = packet_ok p x" "w_all y = w_all x" "w_bytes y = w_bytes x" "w_retx fts y = w_retx fts x"
    "w_sched y = w_sched x" "w_sbytes y = w_sbytes x" "w_lost y = w_lost x" "q_pns y = q_pns x"
proof -
  obtain a b c d e where y: "y = x\<lparr>po_repackno := a, po_ecn := b, po_feedback_recorded := c, po_been_detect_loss := d, po_facked := e\<rparr>"
    using assms unfolding touched_def by metis
  show "w_bytes y = w_bytes x" "po_packno y = po_packno x" "po_pns y = po_pns x" "po_sched y = po_sched x" "po_unacked y = po_unacked x"
    "po_lost y = po_lost x" "po_loss_rec y = po_loss_rec x" "po_poison y = po_poison x" "po_mtu_probe y = po_mtu_probe x"
    "po_frame_types y = po_frame_types x" "po_loss_chain y = po_loss_chain x" "po_retrans_times y = po_retrans_times x"
    "packet_ok p y = packet_ok p x" "w_all y = w_all x" "w_retx fts y = w_retx fts x"
    "w_sched y = w_sched x" "w_sbytes y = w_sbytes x" "w_lost y = w_lost x" "q_pns y = q_pns x"
    unfolding y w_bytes_def by (simp_all add: w_all_def w_retx_def w_sched_def w_sbytes_def w_lost_def counted_def q_pns_def packet_ok_def packet_out_sent_sz_def has_frames_def cong: if_cong)
qed

lemma touched_view:
  assumes v: "sc_view h ctl" and t: "touched_heap h h'"
  shows "sc_view h' ctl"
proof -
  have s: "hsum w h' = hsum w h" if "\<And>x y. touched x y \<Longrightarrow> w y = w x" for w :: "sc_packet \<Rightarrow> u32"
    by (rule hsum_cong) (use touched_heap_dom [OF t] touched_heapD [OF t] that in force)+
  have ex: "(\<exists>y. h' q = Some y \<and> P y) \<longleftrightarrow> (\<exists>x. h q = Some x \<and> P x)" if "\<And>x y. touched x y \<Longrightarrow> P y = P x" for q P
    using touched_heapD [OF t, of q] touched_heapD2 [OF t, of q] that by metis
  have ok: "\<forall>p x. h' p = Some x \<longrightarrow> packet_ok p x" using v touched_heapD2 [OF t] touched_members(12) viewD(3) by metis
  have u: "(\<exists>y. h' q = Some y \<and> po_unacked y \<and> q_pns y = pns) \<longleftrightarrow> (\<exists>x. h q = Some x \<and> po_unacked x \<and> q_pns x = pns)" for q pns
    by (rule ex) (simp add: touched_members)
  have m: "(\<exists>y. h' q = Some y \<and> po_sched y) \<longleftrightarrow> (\<exists>x. h q = Some x \<and> po_sched x)"
    "(\<exists>y. h' q = Some y \<and> po_lost y) \<longleftrightarrow> (\<exists>x. h q = Some x \<and> po_lost x)" for q
    by (rule ex, simp add: touched_members)+
  show ?thesis using v unfolding sc_view_def u m touched_heap_dom [OF t]
    by (simp add: ok s [OF touched_members(13)] s [OF touched_members(14)] s [OF touched_members(15)] s [OF touched_members(16)]
        s [OF touched_members(17)] s [OF touched_members(18)])
qed

lemma chains_cong:
  assumes "chains h" "\<And>p. map_option (\<lambda>x. (po_loss_chain x, po_pns x)) (h' p) = map_option (\<lambda>x. (po_loss_chain x, po_pns x)) (h p)"
  shows "chains h'"
proof -
  have e: "nx h' = nx h"
  proof
    fix p
    have "map_option fst (map_option (\<lambda>x. (po_loss_chain x, po_pns x)) (h' p)) = map_option fst (map_option (\<lambda>x. (po_loss_chain x, po_pns x)) (h p))"
      by (simp only: assms(2))
    then show "nx h' p = nx h p" by (simp add: nx_def option.map_comp comp_def)
  qed
  have "po_pns y = po_pns x" if "h' p = Some x" "h' (po_loss_chain x) = Some y" for p x y
  proof -
    from that assms(2) [of p] obtain x' where x: "h p = Some x'" "po_loss_chain x' = po_loss_chain x" "po_pns x' = po_pns x" by (cases "h p") auto
    from that assms(2) [of "po_loss_chain x"] obtain y' where "h (po_loss_chain x) = Some y'" "po_pns y' = po_pns y" by (cases "h (po_loss_chain x)") auto
    with x assms(1) show ?thesis unfolding chains_def by metis
  qed
  with assms(1) show ?thesis unfolding chains_def e by blast
qed

lemma touched_chains: "chains h \<Longrightarrow> touched_heap h h' \<Longrightarrow> chains h'"
proof (erule chains_cong)
  fix p assume "touched_heap h h'"
  then have "rel_option touched (h p) (h' p)" by (simp add: touched_heap_def)
  then show "map_option (\<lambda>x. (po_loss_chain x, po_pns x)) (h' p) = map_option (\<lambda>x. (po_loss_chain x, po_pns x)) (h p)"
    by (cases "h p"; cases "h' p") (auto simp: touched_members)
qed

section \<open>One member of a chain goes\<close>

text \<open>The part of the state that leaving packets do not change.\<close>

definition kept :: "send_ctl \<Rightarrow> pid \<times> int list \<times> u32 \<times> u32 \<times> u32 list \<times> u32 \<times> u32 \<times> (packnum_space \<Rightarrow> qtime option) \<times> packno" where
  "kept ctl = (sc_fresh ctl, sc_feedback_window ctl, sc_feedback_window_size ctl, sc_largest_feedback_window ctl, sc_rounds_map ctl,
     sc_retx_frames ctl, sc_art_flag ctl, sc_al_retx ctl, sc_last_sent ctl)"

lemma mark_repackno_ok:
  "set ps \<subseteq> dom (sc_heap ctl) \<Longrightarrow> \<exists>h'. mark_repackno ctl ps = Some (ctl\<lparr>sc_heap := h'\<rparr>) \<and> touched_heap (sc_heap ctl) h'"
proof (induction ps arbitrary: ctl)
  case Nil
  then show ?case by (intro exI [of _ "sc_heap ctl"]) simp
next
  case (Cons p ps)
  then obtain x where x: "sc_heap ctl p = Some x" by auto
  show ?case
  proof (cases "po_repackno x")
    case True
    then show ?thesis using x by (intro exI [of _ "sc_heap ctl"]) simp
  next
    case False
    define h where "h = (sc_heap ctl)(p \<mapsto> x\<lparr>po_repackno := True\<rparr>)"
    have t: "touched_heap (sc_heap ctl) h" unfolding h_def by (rule touched_heap_upd1) (auto simp: x touched_def)
    then have "set ps \<subseteq> dom (sc_heap (ctl\<lparr>sc_heap := h\<rparr>))" using Cons.prems touched_heap_dom [OF t] by simp
    from Cons.IH [OF this] obtain h' where m: "mark_repackno (ctl\<lparr>sc_heap := h\<rparr>) ps = Some (ctl\<lparr>sc_heap := h'\<rparr>)" "touched_heap h h'" by auto
    from m(1) x False have "mark_repackno ctl (p # ps) = Some (ctl\<lparr>sc_heap := h'\<rparr>)" by (simp add: upd_packet_def h_def)
    with t m(2) show ?thesis by (blast intro: touched_heap_trans)
  qed
qed

lemma set_tl_subset: "set (tl xs) \<subseteq> set xs"
  by (cases xs) auto

lemma renumber_ok:
  assumes "set (sc_scheduled_packets ctl) \<subseteq> dom (sc_heap ctl)" "sc_heap ctl cur = Some x"
  shows "\<exists>h' n. send_ctl_maybe_renumber_sched_to_right ctl cur = Some (ctl\<lparr>sc_cur_packno := n, sc_heap := h'\<rparr>) \<and> touched_heap (sc_heap ctl) h'"
proof (cases "po_repackno x")
  case True
  then show ?thesis using assms(2) unfolding send_ctl_maybe_renumber_sched_to_right_def
    by (intro exI [of _ "sc_heap ctl"] exI [of _ "sc_cur_packno ctl"]) simp
next
  case False
  let ?ps = "tl (dropWhile (\<lambda>q. q \<noteq> cur) (sc_scheduled_packets ctl))"
  have "set ?ps \<subseteq> dom (sc_heap (ctl\<lparr>sc_cur_packno := po_packno x - 1\<rparr>))"
    using assms(1) set_tl_subset [of "dropWhile (\<lambda>q. q \<noteq> cur) (sc_scheduled_packets ctl)"] by (auto dest: set_dropWhileD)
  from mark_repackno_ok [OF this] False assms(2) show ?thesis
    unfolding send_ctl_maybe_renumber_sched_to_right_def by auto
qed

lemma unacked_remove_eq:
  "sc_heap ctl p = Some x \<Longrightarrow> send_ctl_unacked_remove ctl p sz =
     Some (ctl\<lparr>sc_unacked_packets := (sc_unacked_packets ctl)(po_pns x := remove1 p (sc_unacked_packets ctl (po_pns x))),
       sc_heap := (sc_heap ctl)(p \<mapsto> x\<lparr>po_unacked := False\<rparr>), sc_bytes_unacked_all := sc_bytes_unacked_all ctl - sz,
       sc_n_in_flight_all := sc_n_in_flight_all ctl - 1,
       sc_bytes_unacked_retx := sc_bytes_unacked_retx ctl - (if has_frames x (sc_retx_frames ctl) then sz else 0),
       sc_n_in_flight_retx := sc_n_in_flight_retx ctl - of_bool (has_frames x (sc_retx_frames ctl))\<rparr>)"
  by (simp add: send_ctl_unacked_remove_def upd_packet_def set_unacked_def)

text \<open>A packet that has left the unacked queue, before and after it is destroyed.\<close>

lemma unacked_remove_view:
  assumes v: "sc_view h ctl" and p: "h p = Some x" "sc_heap ctl p = Some x" "po_unacked x" "\<not> po_loss_rec x" "\<not> po_poison x"
  shows "\<exists>ctl'. send_ctl_unacked_remove ctl p (packet_out_sent_sz x) = Some ctl' \<and> sc_view (h(p := None)) ctl'
    \<and> sc_heap ctl' = (sc_heap ctl)(p \<mapsto> x\<lparr>po_unacked := False\<rparr>) \<and> kept ctl' = kept ctl
    \<and> sc_unacked_packets ctl' = (sc_unacked_packets ctl)(po_pns x := remove1 p (sc_unacked_packets ctl (po_pns x)))
    \<and> sc_scheduled_packets ctl' = sc_scheduled_packets ctl \<and> sc_lost_packets ctl' = sc_lost_packets ctl
    \<and> sc_n_in_flight_all ctl' = sc_n_in_flight_all ctl - 1"
proof -
  have n: "p \<notin> set (sc_scheduled_packets ctl)" "p \<notin> set (sc_lost_packets ctl)" "\<not> po_sched x" "\<not> po_lost x"
    using viewD(3,7,9) [OF v] p by (auto simp: packet_ok_def)
  have v': "sc_view (h(p := None)) ctl'" if "send_ctl_unacked_remove ctl p (packet_out_sent_sz x) = Some ctl'" for ctl'
    using that unfolding unacked_remove_eq [OF p(2)]
    by (intro view_gone [OF v p(1)]) (use n p in \<open>auto simp: weights q_pns_def remove1_idem\<close>)
  show ?thesis using v' unfolding unacked_remove_eq [OF p(2)] by (simp add: kept_def)
qed

lemma chain_member_goes:
  assumes v: "sc_view ((sc_heap ctl)(p := None)) ctl" and cur: "sc_heap ctl cur = Some x" "cur \<noteq> p" "po_pns x = pns" "\<not> po_poison x"
  shows "\<exists>ctl1 ctl'. chain_member_leaves ctl pns cur = Some ctl1 \<and> send_ctl_destroy_packet ctl1 cur = Some ctl'
    \<and> sc_view ((sc_heap ctl')(p := None)) ctl' \<and> touched_heap ((sc_heap ctl)(cur := None)) (sc_heap ctl')
    \<and> sc_unacked_packets ctl' = (sc_unacked_packets ctl)(pns := remove1 cur (sc_unacked_packets ctl pns)) \<and> kept ctl' = kept ctl"
    (is "\<exists>ctl1 ctl'. _ \<and> _ \<and> ?P ctl'")
proof -
  let ?h = "(sc_heap ctl)(p := None)"
  have h: "?h cur = Some x" using cur by simp
  have ok: "packet_ok cur x" by (rule viewD(3) [OF v h])
  have nu: "cur \<notin> set (sc_unacked_packets ctl q)" if "\<not> po_unacked x" for q using viewD(5) [OF v] that h by auto
  have ns: "cur \<notin> set (sc_scheduled_packets ctl)" if "\<not> po_sched x" using viewD(7) [OF v] that h by auto
  have nl: "cur \<notin> set (sc_lost_packets ctl)" if "\<not> po_lost x" using viewD(9) [OF v] that h by auto
  have tw: "((sc_heap ctl)(cur := None))(p := None) = ?h(cur := None)" using cur(2) by (auto simp: fun_upd_def)
  consider (sched) "po_sched x" "\<not> po_unacked x" "\<not> po_lost x" | (rec) "po_unacked x" "\<not> po_sched x" "\<not> po_lost x" "po_loss_rec x"
    | (unacked) "po_unacked x" "\<not> po_sched x" "\<not> po_lost x" "\<not> po_loss_rec x" | (lost) "po_lost x" "\<not> po_sched x" "\<not> po_unacked x"
    | (none) "\<not> po_lost x" "\<not> po_sched x" "\<not> po_unacked x"
    using ok by (auto simp: packet_ok_def)
  then show ?thesis
  proof cases
    case sched
    have "set (sc_scheduled_packets ctl) \<subseteq> dom (sc_heap ctl)" using viewD(7) [OF v] by (auto split: if_splits)
    from renumber_ok [OF this cur(1)] obtain h' n where
      r: "send_ctl_maybe_renumber_sched_to_right ctl cur = Some (ctl\<lparr>sc_cur_packno := n, sc_heap := h'\<rparr>)" and t: "touched_heap (sc_heap ctl) h'" by blast
    from touched_heapD [OF t cur(1)] obtain y where y: "h' cur = Some y" "touched x y" by blast
    let ?c1 = "ctl\<lparr>sc_cur_packno := n, sc_heap := h'(cur \<mapsto> y\<lparr>po_sched := False\<rparr>), sc_scheduled_packets := remove1 cur (sc_scheduled_packets ctl),
      sc_n_scheduled := sc_n_scheduled ctl - 1, sc_bytes_scheduled := sc_bytes_scheduled ctl - po_total_sz y\<rparr>"
    let ?c2 = "?c1\<lparr>sc_heap := h'(cur := None)\<rparr>"
    have e1: "chain_member_leaves ctl pns cur = Some ?c1"
      unfolding chain_member_leaves_def cur(1) by (simp add: sched r send_ctl_sched_remove_def y upd_packet_def)
    have e2: "send_ctl_destroy_packet ?c1 cur = Some ?c2" by (simp add: send_ctl_destroy_packet_def)
    have "po_total_sz y = po_total_sz x" using y(2) by (metis touched_members(17) touched_members(3) w_sbytes_def sched(1))
    then have "sc_view (?h(cur := None)) ?c2"
      by (intro view_gone [OF v h]) (use sched nu nl cur in \<open>simp_all add: weights q_pns_def remove1_idem\<close>)
    then have "sc_view (h'(cur := None, p := None)) ?c2"
      by (rule touched_view) (metis tw t touched_heap_upd)
    then have "?P ?c2" using t nu sched by (simp add: kept_def remove1_idem touched_heap_upd)
    with e1 e2 show ?thesis by blast
  next
    case rec
    let ?c1 = "ctl\<lparr>sc_n_in_flight_all := sc_n_in_flight_all ctl - w_all x, sc_bytes_unacked_all := sc_bytes_unacked_all ctl - w_bytes x,
      sc_unacked_packets := (sc_unacked_packets ctl)(pns := remove1 cur (sc_unacked_packets ctl pns))\<rparr>"
    let ?c2 = "?c1\<lparr>sc_heap := (sc_heap ctl)(cur := None)\<rparr>"
    have hs: "po_has_sent_sz x" "\<not> po_poison x" using rec ok by (auto simp: packet_ok_def)
    have e1: "chain_member_leaves ctl pns cur = Some ?c1"
      unfolding chain_member_leaves_def cur(1) using rec hs by (simp add: set_unacked_def weights packet_out_sent_sz_def)
    have e2: "send_ctl_destroy_packet ?c1 cur = Some ?c2" using cur by (simp add: send_ctl_destroy_packet_def)
    have "sc_view (?h(cur := None)) ?c2"
      by (intro view_gone [OF v h]) (use rec ns nl cur in \<open>simp_all add: q_pns_def w_retx_def w_sched_def w_sbytes_def w_lost_def remove1_idem\<close>)
    then have "?P ?c2" using tw by (simp add: kept_def)
    with e1 e2 show ?thesis by blast
  next
    case unacked
    from unacked_remove_view [OF v h cur(1) unacked(1,4) cur(4)] obtain ctl1 where
      c: "send_ctl_unacked_remove ctl cur (packet_out_sent_sz x) = Some ctl1" "sc_view (?h(cur := None)) ctl1"
      "sc_heap ctl1 = (sc_heap ctl)(cur \<mapsto> x\<lparr>po_unacked := False\<rparr>)" "kept ctl1 = kept ctl"
      "sc_unacked_packets ctl1 = (sc_unacked_packets ctl)(pns := remove1 cur (sc_unacked_packets ctl pns))"
      unfolding cur(3) by blast
    let ?c2 = "ctl1\<lparr>sc_heap := (sc_heap ctl)(cur := None)\<rparr>"
    have e1: "chain_member_leaves ctl pns cur = Some ctl1" unfolding chain_member_leaves_def cur(1) using unacked c(1) by simp
    have e2: "send_ctl_destroy_packet ctl1 cur = Some ?c2" by (simp add: send_ctl_destroy_packet_def c(3))
    have "sc_view (?h(cur := None)) ?c2" by (rule view_cong [OF c(2)]) simp_all
    then have "?P ?c2" using tw c by (simp add: kept_def)
    with e1 e2 show ?thesis by blast
  next
    case lost
    let ?c1 = "ctl\<lparr>sc_lost_packets := remove1 cur (sc_lost_packets ctl), sc_lost_packet_number := sc_lost_packet_number ctl - 1\<rparr>"
    let ?c2 = "?c1\<lparr>sc_heap := (sc_heap ctl)(cur := None)\<rparr>"
    have e1: "chain_member_leaves ctl pns cur = Some ?c1" unfolding chain_member_leaves_def cur(1) using lost by simp
    have e2: "send_ctl_destroy_packet ?c1 cur = Some ?c2" using cur by (simp add: send_ctl_destroy_packet_def)
    have "sc_view (?h(cur := None)) ?c2"
      by (intro view_gone [OF v h]) (use lost ns nu cur in \<open>simp_all add: weights q_pns_def remove1_idem\<close>)
    then have "?P ?c2" using tw nu lost by (simp add: kept_def remove1_idem)
    with e1 e2 show ?thesis by blast
  next
    case none
    let ?c2 = "ctl\<lparr>sc_heap := (sc_heap ctl)(cur := None)\<rparr>"
    have e1: "chain_member_leaves ctl pns cur = Some ctl" unfolding chain_member_leaves_def cur(1) using none by simp
    have e2: "send_ctl_destroy_packet ctl cur = Some ?c2" using cur by (simp add: send_ctl_destroy_packet_def)
    have "sc_view (?h(cur := None)) ?c2"
      by (intro view_gone [OF v h]) (use none ns nu nl cur in \<open>simp_all add: weights q_pns_def remove1_idem\<close>)
    then have "?P ?c2" using tw nu none by (simp add: kept_def remove1_idem)
    with e1 e2 show ?thesis by blast
  qed
qed

section \<open>The whole chain goes\<close>

definition without :: "(pid \<Rightarrow> 'x option) \<Rightarrow> pid set \<Rightarrow> pid \<Rightarrow> 'x option" where
  "without h S = (\<lambda>q. if q \<in> S then None else h q)"

fun walk :: "(pid \<Rightarrow> sc_packet option) \<Rightarrow> pid \<Rightarrow> pid list \<Rightarrow> pid \<Rightarrow> bool" where
  "walk h cur [] p \<longleftrightarrow> cur = p"
| "walk h cur (z # zs) p \<longleftrightarrow> cur = z \<and> (\<exists>x. h z = Some x \<and> walk h (po_loss_chain x) zs p)"

lemma nx_Some: "nx h p = Some q \<longleftrightarrow> (\<exists>x. h p = Some x \<and> po_loss_chain x = q)"
  by (auto simp: nx_def)

lemma links_walk: "links (nx h) q ys p \<Longrightarrow> h q = Some x \<Longrightarrow> walk h (po_loss_chain x) ys p"
proof (induction ys arbitrary: q x)
  case (Cons y ys)
  then have y: "po_loss_chain x = y" "links (nx h) y ys p" by (auto simp: nx_Some)
  from links_dom [OF y(2)] obtain x' where "h y = Some x'" by (auto simp: nx_Some)
  with y Cons.IH show ?case by auto
qed (simp add: nx_Some)

lemma walk_cong: "(\<And>z. z \<in> set zs \<Longrightarrow> rel_option touched (h z) (h' z)) \<Longrightarrow> walk h c zs p \<Longrightarrow> walk h' c zs p"
proof (induction zs arbitrary: c)
  case (Cons z zs)
  then obtain x where x: "c = z" "h z = Some x" "walk h (po_loss_chain x) zs p" by auto
  from Cons.prems(1) [of z] x obtain y where y: "h' z = Some y" "touched x y" by (auto simp: option_rel_Some1)
  have "walk h' (po_loss_chain x) zs p" by (rule Cons.IH) (use Cons.prems(1) x(3) in auto)
  with x(1) y show ?case by (auto simp: touched_members)
qed simp

lemma touched_without: "touched_heap (h(c := None)) h1 \<Longrightarrow> touched_heap (without h1 S) h2 \<Longrightarrow> touched_heap (without h (insert c S)) h2"
proof (rule touched_heap_trans [of _ "without h1 S"])
  assume "touched_heap (h(c := None)) h1"
  then show "touched_heap (without h (insert c S)) (without h1 S)"
    by (auto simp: touched_heap_def without_def split: if_splits)
qed

lemma destroy_chain_loop_ok:
  assumes "walk (sc_heap ctl) cur zs p" "distinct zs" "p \<notin> set zs" "\<And>z x. z \<in> set zs \<Longrightarrow> sc_heap ctl z = Some x \<Longrightarrow> po_pns x = pns \<and> \<not> po_poison x"
    "sc_view ((sc_heap ctl)(p := None)) ctl" "points_into (sc_unacked_packets ctl pns) next"
  shows "\<exists>ctl' next'. destroy_chain_loop p pns cur next ctl = Some (ctl', next') \<and> sc_view ((sc_heap ctl')(p := None)) ctl'
    \<and> touched_heap (without (sc_heap ctl) (set zs)) (sc_heap ctl') \<and> kept ctl' = kept ctl
    \<and> sc_unacked_packets ctl' = (sc_unacked_packets ctl)(pns := filter (\<lambda>q. q \<notin> set zs) (sc_unacked_packets ctl pns))
    \<and> points_into (sc_unacked_packets ctl' pns) next'
    \<and> rest (sc_unacked_packets ctl' pns) next' = filter (\<lambda>q. q \<notin> set zs) (rest (sc_unacked_packets ctl pns) next)"
  using assms
proof (induction zs arbitrary: cur ctl "next")
  case Nil
  then show ?case by (simp add: destroy_chain_loop.simps without_def)
next
  case (Cons z zs)
  then obtain x where x: "cur = z" "sc_heap ctl z = Some x" "walk (sc_heap ctl) (po_loss_chain x) zs p" by auto
  have z: "z \<noteq> p" "z \<notin> set zs" "po_pns x = pns" "\<not> po_poison x" using Cons.prems x by auto
  from chain_member_goes [OF Cons.prems(5) x(2) z(1,3,4)] obtain ctl1 ctl2 where
    c: "chain_member_leaves ctl pns z = Some ctl1" "send_ctl_destroy_packet ctl1 z = Some ctl2"
    "sc_view ((sc_heap ctl2)(p := None)) ctl2" "touched_heap ((sc_heap ctl)(z := None)) (sc_heap ctl2)"
    "sc_unacked_packets ctl2 = (sc_unacked_packets ctl)(pns := remove1 z (sc_unacked_packets ctl pns))" "kept ctl2 = kept ctl" by blast
  let ?next = "if next = Some z then tailq_next (sc_unacked_packets ctl pns) z else next"
  have e: "destroy_chain_loop p pns cur next ctl = destroy_chain_loop p pns (po_loss_chain x) ?next ctl2"
    by (subst destroy_chain_loop.simps) (simp add: x(1,2) z(1,3) c(1,2))
  have d: "distinct (sc_unacked_packets ctl pns)" by (rule viewD(4) [OF Cons.prems(5)])
  have dr: "distinct (rest (sc_unacked_packets ctl pns) next)" using d by (auto simp: rest_def split: option.splits)
  note r = rest_remove1 [OF d Cons.prems(6), of z]
  have t: "rel_option touched (sc_heap ctl q) (sc_heap ctl2 q)" if "q \<noteq> z" for q using c(4) [unfolded touched_heap_def, rule_format, of q] that by simp
  have w: "walk (sc_heap ctl2) (po_loss_chain x) zs p" by (rule walk_cong [OF _ x(3)]) (metis t z(2))
  have pn: "po_pns y = pns \<and> \<not> po_poison y" if "q \<in> set zs" "sc_heap ctl2 q = Some y" for q y
  proof -
    have "q \<noteq> z" using that(1) z(2) by auto
    from t [OF this] that(2) obtain y' where "sc_heap ctl q = Some y'" "touched y' y" by (auto simp: option_rel_Some2)
    with Cons.prems(4) [of q y'] that(1) show ?thesis by (simp add: touched_members)
  qed
  have pi: "points_into (sc_unacked_packets ctl2 pns) ?next" using r(1) by (simp add: c(5))
  have dz: "distinct zs" "p \<notin> set zs" using Cons.prems by auto
  obtain ctl' next' where
    i: "destroy_chain_loop p pns (po_loss_chain x) ?next ctl2 = Some (ctl', next')" "sc_view ((sc_heap ctl')(p := None)) ctl'"
    "touched_heap (without (sc_heap ctl2) (set zs)) (sc_heap ctl')" "kept ctl' = kept ctl2"
    "sc_unacked_packets ctl' = (sc_unacked_packets ctl2)(pns := filter (\<lambda>q. q \<notin> set zs) (sc_unacked_packets ctl2 pns))"
    "points_into (sc_unacked_packets ctl' pns) next'"
    "rest (sc_unacked_packets ctl' pns) next' = filter (\<lambda>q. q \<notin> set zs) (rest (sc_unacked_packets ctl2 pns) ?next)"
    using Cons.IH [OF w dz _ c(3) pi] pn by blast
  have f: "filter (\<lambda>q. q \<notin> set zs) (remove1 z xs) = filter (\<lambda>q. q \<notin> set (z # zs)) xs" if "distinct xs" for xs
    using that by (auto simp: distinct_remove1_removeAll removeAll_filter_not_eq intro!: filter_cong)
  have th: "touched_heap (without (sc_heap ctl) (set (z # zs))) (sc_heap ctl')"
    unfolding list.set by (rule touched_without [OF c(4) i(3)])
  have "rest (sc_unacked_packets ctl' pns) next' = filter (\<lambda>q. q \<notin> set (z # zs)) (rest (sc_unacked_packets ctl pns) next)"
    unfolding i(7) c(5) fun_upd_same r(2) by (rule f [OF dr])
  moreover have "sc_unacked_packets ctl' = (sc_unacked_packets ctl)(pns := filter (\<lambda>q. q \<notin> set (z # zs)) (sc_unacked_packets ctl pns))"
    unfolding i(5) c(5) fun_upd_same fun_upd_upd f [OF d] ..
  ultimately show ?case using e i(1,2,4,6) c(6) th by metis
qed

lemma cyc_no_self:
  assumes "cyc h p ys" "z \<in> set ys"
  shows "h z \<noteq> Some z"
proof
  assume a: "h z = Some z"
  from cyc_rotate [OF assms] obtain zs where zs: "cyc h z zs" "set (z # zs) = set (p # ys)" by blast
  have "p \<noteq> z" using assms by (auto simp: cyc_def)
  with zs(2) obtain w ws where "zs = w # ws" by (cases zs) auto
  with zs(1) a show False by (auto simp: cyc_def)
qed

lemma links_pns: "links (nx h) q ys p \<Longrightarrow> chains h \<Longrightarrow> h q = Some x \<Longrightarrow> z \<in> set ys \<Longrightarrow> h z = Some y \<Longrightarrow> po_pns y = po_pns x"
proof (induction ys arbitrary: q x)
  case (Cons a ys)
  then have a: "po_loss_chain x = a" "links (nx h) a ys p" by (auto simp: nx_Some)
  from links_dom [OF a(2)] obtain x' where x': "h a = Some x'" by (auto simp: nx_Some)
  have "po_pns x' = po_pns x" using Cons.prems(2,3) x' a(1) unfolding chains_def by blast
  with Cons.IH [OF a(2) Cons.prems(2) x'] Cons.prems(4,5) x' show ?case by auto
qed simp

lemma nx_without: "nx (without h S) = (\<lambda>q. if q \<in> S then None else nx h q)"
  by (auto simp: nx_def without_def)

lemma chains_without:
  assumes "chains h" "cyc (nx h) p ys"
  shows "chains (without h (set (p # ys)))"
  using all_cyc_del [of "nx h" p ys] assms unfolding chains_def nx_without
  by (auto simp: without_def split: if_splits)

text \<open>The chain of a packet that is in no queue any more is destroyed, and the packet with it.\<close>

lemma destroyed_with_chain:
  assumes ch: "chains (sc_heap ctl)" and p: "sc_heap ctl p = Some x" "po_pns x = pns" and cy: "cyc (nx (sc_heap ctl)) p ys"
    and v: "sc_view ((sc_heap ctl)(p := None)) ctl" and pt: "points_into (sc_unacked_packets ctl pns) next"
  shows "\<exists>ctl1 next' ctl'. send_ctl_destroy_chain ctl p next = Some (ctl1, next') \<and> send_ctl_destroy_packet ctl1 p = Some ctl'
    \<and> sc_view (sc_heap ctl') ctl' \<and> chains (sc_heap ctl') \<and> kept ctl' = kept ctl
    \<and> touched_heap (without (sc_heap ctl) (set (p # ys))) (sc_heap ctl')
    \<and> sc_unacked_packets ctl' = (sc_unacked_packets ctl)(pns := filter (\<lambda>q. q \<notin> set ys) (sc_unacked_packets ctl pns))
    \<and> points_into (sc_unacked_packets ctl' pns) next'
    \<and> rest (sc_unacked_packets ctl' pns) next' = filter (\<lambda>q. q \<notin> set ys) (rest (sc_unacked_packets ctl pns) next)"
proof -
  have l: "links (nx (sc_heap ctl)) p ys p" "distinct ys" "p \<notin> set ys" using cy by (auto simp: cyc_def)
  have m: "po_pns y = pns \<and> \<not> po_poison y" if "z \<in> set ys" "sc_heap ctl z = Some y" for z y
  proof
    show "po_pns y = pns" using links_pns [OF l(1) ch p(1) that] p(2) by simp
    have "po_loss_chain y \<noteq> z" using cyc_no_self [OF cy that(1)] that(2) by (auto simp: nx_Some)
    moreover have "packet_ok z y" by (rule viewD(3) [OF v]) (use that l(3) in auto)
    ultimately show "\<not> po_poison y" by (auto simp: packet_ok_def)
  qed
  obtain ctl1 next' where
    d: "destroy_chain_loop p pns (po_loss_chain x) next ctl = Some (ctl1, next')" "sc_view ((sc_heap ctl1)(p := None)) ctl1"
    "touched_heap (without (sc_heap ctl) (set ys)) (sc_heap ctl1)" "kept ctl1 = kept ctl"
    "sc_unacked_packets ctl1 = (sc_unacked_packets ctl)(pns := filter (\<lambda>q. q \<notin> set ys) (sc_unacked_packets ctl pns))"
    "points_into (sc_unacked_packets ctl1 pns) next'"
    "rest (sc_unacked_packets ctl1 pns) next' = filter (\<lambda>q. q \<notin> set ys) (rest (sc_unacked_packets ctl pns) next)"
    using destroy_chain_loop_ok [OF links_walk [OF l(1) p(1)] l(2,3) _ v pt] m by blast
  have "without (sc_heap ctl) (set ys) p = Some x" using p l(3) by (simp add: without_def)
  from touched_heapD [OF d(3) this] obtain y where y: "sc_heap ctl1 p = Some y" by blast
  let ?c2 = "ctl1\<lparr>sc_heap := (sc_heap ctl1)(p \<mapsto> y\<lparr>po_loss_chain := p\<rparr>)\<rparr>"
  let ?c3 = "ctl1\<lparr>sc_heap := (sc_heap ctl1)(p := None)\<rparr>"
  have e: "send_ctl_destroy_chain ctl p next = Some (?c2, next')" "send_ctl_destroy_packet ?c2 p = Some ?c3"
    by (simp_all add: send_ctl_destroy_chain_def p d(1) upd_packet_def y send_ctl_destroy_packet_def)
  have w: "without (sc_heap ctl) (set (p # ys)) = (without (sc_heap ctl) (set ys))(p := None)" by (auto simp: without_def)
  have t: "touched_heap (without (sc_heap ctl) (set (p # ys))) ((sc_heap ctl1)(p := None))"
    unfolding w by (rule touched_heap_upd [OF d(3)])
  have "sc_view (sc_heap ?c3) ?c3" using view_cong [OF d(2), of ?c3] by simp
  moreover have "chains (sc_heap ?c3)" using touched_chains [OF chains_without [OF ch cy] t] by simp
  ultimately show ?thesis using e t d(4-7) by (intro exI [of _ ?c2] exI [of _ next'] exI [of _ ?c3]) (simp add: kept_def)
qed

end
