(* ===== verification/Send_Loss.thy ===== *)
theory Send_Loss
  imports Send_Chain
begin

text \<open>
  Lost packets: the invariant is kept by the functions that declare packets lost, and none of them accesses memory
  that is not allocated or runs forever.
\<close>

section \<open>The invariant of the send controller\<close>

text \<open>The feedback window and the table of the rounds.\<close>

definition art_ok :: "send_ctl \<Rightarrow> bool" where
  "art_ok ctl \<longleftrightarrow> sc_feedback_window_size ctl = of_nat (length (sc_feedback_window ctl)) \<and> length (sc_feedback_window ctl) \<le> 10
     \<and> set (sc_feedback_window ctl) \<subseteq> {0, 1} \<and> sc_largest_feedback_window ctl = MAX_FEEDBACK_WINDOW_SIZE
     \<and> length (sc_rounds_map ctl) = MAX_ROUND_BOUND"

text \<open>The unacked queues are in the order of the packet numbers.\<close>

definition pn :: "send_ctl \<Rightarrow> pid \<Rightarrow> packno" where
  "pn ctl p = (case sc_heap ctl p of None \<Rightarrow> 0 | Some x \<Rightarrow> po_packno x)"

definition queues_sorted :: "send_ctl \<Rightarrow> bool" where
  "queues_sorted ctl \<longleftrightarrow> (\<forall>pns. sorted (map (pn ctl) (sc_unacked_packets ctl pns)))"

definition sc_inv :: "send_ctl \<Rightarrow> bool" where
  "sc_inv ctl \<longleftrightarrow> sc_view (sc_heap ctl) ctl \<and> chains (sc_heap ctl) \<and> art_ok ctl \<and> queues_sorted ctl"

lemma sc_invD:
  assumes "sc_inv ctl"
  shows "sc_view (sc_heap ctl) ctl" "chains (sc_heap ctl)" "art_ok ctl" "queues_sorted ctl"
  using assms by (auto simp: sc_inv_def)

lemma sorted_map_cong: "sorted (map f xs) \<Longrightarrow> (\<And>p. p \<in> set xs \<Longrightarrow> g p = f p) \<Longrightarrow> sorted (map g xs)"
  by (metis (no_types, lifting) map_cong)

lemma queues_sorted_cong:
  assumes "queues_sorted ctl"
    and "\<And>pns. \<exists>xs. sorted (map (pn ctl) xs) \<and> sc_unacked_packets ctl' pns = xs \<and> (\<forall>p \<in> set xs. pn ctl' p = pn ctl p)"
  shows "queues_sorted ctl'"
  unfolding queues_sorted_def
proof
  fix pns
  from assms(2) [of pns] obtain xs where xs: "sorted (map (pn ctl) xs)" "sc_unacked_packets ctl' pns = xs" "\<forall>p \<in> set xs. pn ctl' p = pn ctl p" by blast
  then show "sorted (map (pn ctl') (sc_unacked_packets ctl' pns))" by (auto intro: sorted_map_cong)
qed

lemma queues_sorted_same:
  "sc_heap ctl' = sc_heap ctl \<Longrightarrow> sc_unacked_packets ctl' = sc_unacked_packets ctl \<Longrightarrow> queues_sorted ctl' = queues_sorted ctl"
  unfolding queues_sorted_def pn_def by simp

text \<open>No packet in flight has used up the rows of the table.\<close>

definition rounds_left :: "send_ctl \<Rightarrow> bool" where
  "rounds_left ctl \<longleftrightarrow> (\<forall>p x. sc_heap ctl p = Some x \<longrightarrow> po_unacked x \<longrightarrow> po_retrans_times x < 19)"

text \<open>The part of the state that the invariant speaks of, and the alarms.\<close>

definition core :: "send_ctl \<Rightarrow> (pid \<Rightarrow> sc_packet option) \<times> (packnum_space \<Rightarrow> pid list) \<times> pid list \<times> pid list \<times> u32 list \<times> int list \<times> u32 list
    \<times> (packnum_space \<Rightarrow> qtime option)" where
  "core ctl = (sc_heap ctl, sc_unacked_packets ctl, sc_scheduled_packets ctl, sc_lost_packets ctl,
     [sc_n_in_flight_all ctl, sc_bytes_unacked_all ctl, sc_n_in_flight_retx ctl, sc_retx_frames ctl, sc_n_scheduled ctl, sc_bytes_scheduled ctl,
      sc_lost_packet_number ctl, sc_feedback_window_size ctl, sc_largest_feedback_window ctl],
     sc_feedback_window ctl, sc_rounds_map ctl, sc_al_retx ctl)"

lemma core_inv: "core ctl' = core ctl \<Longrightarrow> sc_fresh ctl \<le> sc_fresh ctl' \<Longrightarrow> sc_inv ctl \<Longrightarrow> sc_inv ctl'"
proof -
  assume c: "core ctl' = core ctl" "sc_fresh ctl \<le> sc_fresh ctl'" "sc_inv ctl"
  then have "sc_view (sc_heap ctl) ctl'" by (intro view_cong [OF sc_invD(1) [OF c(3)]]) (simp_all add: core_def)
  with c queues_sorted_same [of ctl' ctl] show ?thesis by (simp add: sc_inv_def core_def art_ok_def)
qed

lemma core_rounds: "core ctl' = core ctl \<Longrightarrow> rounds_left ctl \<Longrightarrow> rounds_left ctl'"
  by (simp add: rounds_left_def core_def)

lemma pn_touched: "touched_heap (without (sc_heap ctl) S) (sc_heap ctl') \<Longrightarrow> p \<notin> S \<Longrightarrow> pn ctl' p = pn ctl p"
proof -
  assume "touched_heap (without (sc_heap ctl) S) (sc_heap ctl')" "p \<notin> S"
  then have "rel_option touched (sc_heap ctl p) (sc_heap ctl' p)" unfolding touched_heap_def without_def by (metis (full_types))
  then show ?thesis by (cases "sc_heap ctl p"; cases "sc_heap ctl' p") (auto simp: pn_def touched_members)
qed

lemma without_empty [simp]: "without h {} = h"
  by (simp add: without_def)

lemma insert_before_idem: "p \<notin> set xs \<Longrightarrow> insert_before_pid p r xs = xs"
  by (induction xs) auto

lemma insert_before_in: "z \<in> set (insert_before_pid p r ys) \<Longrightarrow> z \<in> set ys \<or> z = r \<and> p \<in> set ys"
  by (induction ys) (auto split: if_splits)

lemma insert_before_sorted: "sorted (map f xs) \<Longrightarrow> f r = f p \<Longrightarrow> sorted (map f (insert_before_pid p r xs))"
  by (induction xs) (auto dest: insert_before_in)

lemma insert_before_sub: "set xs \<subseteq> set (insert_before_pid p r xs)"
  by (induction xs) auto

lemma insert_before_rest_any:
  assumes "distinct xs" "points_into xs next" "p \<notin> set (rest xs next)" "r \<notin> set xs"
  shows "rest (insert_before_pid p r xs) next = rest xs next" "points_into (insert_before_pid p r xs) next"
proof -
  show "rest (insert_before_pid p r xs) next = rest xs next"
  proof (cases "next")
    case (Some q)
    with assms show ?thesis by (induction xs) (auto simp: rest_def insert_before_idem split: if_splits)
  qed simp
  show "points_into (insert_before_pid p r xs) next"
    using assms(2) insert_before_sub [of xs p r] by (cases "next") auto
qed

lemma rest_remove1_other:
  assumes "distinct xs" "points_into xs next" "p \<notin> set (rest xs next)"
  shows "points_into (remove1 p xs) next" "rest (remove1 p xs) next = rest xs next"
proof -
  have "next \<noteq> Some p" using assms(2,3) rest_Some [of p xs] by (cases "next") (metis list.set_intros(1) points_into_Some)+
  then show "points_into (remove1 p xs) next" "rest (remove1 p xs) next = rest xs next"
    using rest_remove1 [OF assms(1,2), of p] remove1_idem [OF assms(3)] by simp_all
qed

section \<open>The record of a loss\<close>

lemma sent_sz_16: "packet_ok p x \<Longrightarrow> (ucast (ucast (packet_out_sent_sz x) :: u16) :: u32) = packet_out_sent_sz x"
proof -
  assume a: "packet_ok p x"
  have "packet_out_sent_sz x < 65536"
  proof (cases "po_has_sent_sz x")
    case True
    have "unat (po_sent_sz x) < 65536" by (rule less_le_trans [OF unsigned_less]) simp
    then have "unat (ucast (po_sent_sz x) :: u32) < 65536" by (simp add: unsigned_ucast_eq take_bit_nat_eq_self)
    with True show ?thesis by (simp add: packet_out_sent_sz_def word_less_nat_alt)
  qed (use a in \<open>simp add: packet_out_sent_sz_def packet_ok_def\<close>)
  then have "unat (packet_out_sent_sz x) < 65536" by (simp add: word_less_nat_alt)
  then show ?thesis by (intro unsigned_word_eqI [where 'a = nat]) (simp add: unsigned_ucast_eq unsigned_take_bit_eq take_bit_nat_eq_self)
qed

lemma dom_nx: "dom (nx h) = dom h"
  by (auto simp: nx_def)

lemma chains_next:
  assumes "chains h" "h q = Some a"
  shows "\<exists>b. h (po_loss_chain a) = Some b \<and> po_pns b = po_pns a"
proof -
  from assms obtain ys where c: "cyc (nx h) q ys" by (auto simp: chains_def all_cyc_def nx_def dom_def)
  have "nx h q = Some (po_loss_chain a)" using assms(2) by (simp add: nx_Some)
  from cyc_closed [OF c _ this] have "po_loss_chain a \<in> set (q # ys)" by simp
  also have "\<dots> \<subseteq> dom h" using links_dom [of "nx h" q ys q] c by (simp add: cyc_def dom_nx)
  finally show ?thesis using assms unfolding chains_def by blast
qed

lemma record_loss_chains:
  assumes "chains h" "h p = Some x" "h r = None" "po_loss_chain rec = po_loss_chain x" "po_pns rec = po_pns x"
  shows "chains (h(r \<mapsto> rec, p \<mapsto> x\<lparr>po_loss_chain := r\<rparr>))" (is "chains ?h")
proof -
  have pr: "p \<noteq> r" using assms by auto
  have n: "nx ?h = (nx h)(r \<mapsto> po_loss_chain x, p \<mapsto> r)" using pr assms(4) by (auto simp: nx_def fun_eq_iff)
  have "all_cyc (nx ?h)" unfolding n
    by (rule all_cyc_insert) (use assms in \<open>auto simp: chains_def nx_def\<close>)
  moreover have "po_pns z = po_pns y" if "?h q = Some y" "?h (po_loss_chain y) = Some z" for q y z
  proof -
    have cl: "\<exists>b. h (po_loss_chain a) = Some b \<and> po_pns b = po_pns a" if "h q = Some a" for q a
      by (rule chains_next [OF assms(1) that])
    show ?thesis using that assms(2-5) pr cl [of q] cl [of p] by (auto split: if_splits)
  qed
  ultimately show ?thesis unfolding chains_def by blast
qed

definition loss_record :: "sc_packet \<Rightarrow> sc_packet" where
  "loss_record x = zero_packet\<lparr>po_unacked := True, po_loss_rec := True, po_has_sent_sz := True, po_pns := po_pns x,
     po_packno := po_packno x, po_retrans_no := po_retrans_no x, po_retrans_packet_number := po_retrans_packet_number x,
     po_fake_loss_rec := po_fake_loss_rec x, po_been_detect_loss := po_been_detect_loss x,
     po_retrans_times := po_retrans_times x, po_sent := po_sent x, po_sent_sz := ucast (packet_out_sent_sz x),
     po_frame_types := po_frame_types x, po_loss_chain := po_loss_chain x\<rparr>"

lemma record_loss_eq:
  assumes "sc_heap ctl p = Some x" "\<not> env_alloc_fails env (sc_fresh ctl)"
  shows "send_ctl_record_loss env ctl p = Some (ctl\<lparr>sc_fresh := sc_fresh ctl + 1,
    sc_heap := (sc_heap ctl)(sc_fresh ctl \<mapsto> loss_record x, p \<mapsto> x\<lparr>po_loss_chain := sc_fresh ctl\<rparr>),
    sc_unacked_packets := (sc_unacked_packets ctl)(po_pns x := insert_before_pid p (sc_fresh ctl) (sc_unacked_packets ctl (po_pns x))),
    sc_n_in_flight_all := sc_n_in_flight_all ctl + of_bool (po_fake_loss_rec x = 1),
    sc_bytes_unacked_all := sc_bytes_unacked_all ctl + (if po_fake_loss_rec x = 1 then packet_out_sent_sz x else 0)\<rparr>, Some (sc_fresh ctl))"
  using assms by (simp add: send_ctl_record_loss_def malo_get_def set_unacked_def loss_record_def)

lemma record_loss_view:
  assumes v: "sc_view (sc_heap ctl) ctl" and p: "sc_heap ctl p = Some x" "po_unacked x" "\<not> po_poison x" "\<not> po_mtu_probe x" "\<not> po_loss_rec x"
    and a: "\<not> env_alloc_fails env (sc_fresh ctl)" "send_ctl_record_loss env ctl p = Some (ctl', rec)"
  shows "sc_view (sc_heap ctl') ctl'"
proof -
  let ?r = "sc_fresh ctl"
  let ?h = "(sc_heap ctl)(?r \<mapsto> loss_record x)"
  have c: "ctl' = fst (the (send_ctl_record_loss env ctl p))" using a by simp
  note c = c [unfolded record_loss_eq [OF p(1) a(1)] option.sel fst_conv]
  note d = viewD [OF v]
  have r: "sc_heap ctl ?r = None" using d(2) by auto
  have ru: "?r \<notin> set (sc_unacked_packets ctl q)" for q using d(5) r by auto
  have pu: "p \<in> set (sc_unacked_packets ctl (po_pns x))" using d(5) p by (auto simp: q_pns_def)
  have okx: "packet_ok p x" by (rule d(3) [OF p(1)])
  have lr: "po_unacked (loss_record x)" "po_pns (loss_record x) = po_pns x" "\<not> po_sched (loss_record x)" "\<not> po_lost (loss_record x)"
    "po_loss_rec (loss_record x)" "\<not> po_poison (loss_record x)" "po_fake_loss_rec (loss_record x) = po_fake_loss_rec x"
    "packet_out_sent_sz (loss_record x) = packet_out_sent_sz x" "packet_ok ?r (loss_record x)"
    using sent_sz_16 [OF okx] okx by (simp_all add: loss_record_def zero_packet_def packet_ok_def) (simp add: packet_out_sent_sz_def)
  have v1: "sc_view ?h ctl'"
    by (rule view_comes [OF v r lr(9)])
      (use d(4,6,8) ru pu insert_before_set [OF pu] insert_before_distinct [OF pu ru d(4)] lr p(5) in \<open>auto simp: c weights q_pns_def\<close>)
  have ok1: "packet_ok p (x\<lparr>po_loss_chain := ?r\<rparr>)" using okx p by (simp add: packet_ok_def)
  have hp: "?h p = Some x" using p(1) r by auto
  have "sc_view (?h(p \<mapsto> x\<lparr>po_loss_chain := ?r\<rparr>)) ctl'"
    by (rule view_changed [OF v1 hp ok1]) (auto simp: weights packet_out_sent_sz_def has_frames_def q_pns_def)
  then show ?thesis by (simp add: c)
qed

lemma record_loss_ok:
  assumes inv: "sc_inv ctl" and p: "sc_heap ctl p = Some x" "po_unacked x" "\<not> po_poison x" "\<not> po_mtu_probe x" "\<not> po_loss_rec x" "po_pns x = pns"
    and n: "points_into (sc_unacked_packets ctl pns) next" "p \<notin> set (rest (sc_unacked_packets ctl pns) next)"
  shows "\<exists>ctl' rec c. send_ctl_record_loss env ctl p = Some (ctl', rec) \<and> sc_inv ctl' \<and> sc_heap ctl' p = Some (x\<lparr>po_loss_chain := c\<rparr>)
    \<and> (\<forall>q y. q \<noteq> p \<longrightarrow> sc_heap ctl' q = Some y \<longrightarrow> sc_heap ctl q = Some y \<or> y = loss_record x)
    \<and> (\<forall>r. rec = Some r \<longrightarrow> r \<noteq> p \<and> sc_heap ctl' r = Some (loss_record x))
    \<and> points_into (sc_unacked_packets ctl' pns) next \<and> rest (sc_unacked_packets ctl' pns) next = rest (sc_unacked_packets ctl pns) next
    \<and> sc_al_retx ctl' = sc_al_retx ctl \<and> sc_retx_frames ctl' = sc_retx_frames ctl
    \<and> (\<not> env_alloc_fails env (sc_fresh ctl) \<longrightarrow> sc_n_in_flight_all ctl' = sc_n_in_flight_all ctl + of_bool (po_fake_loss_rec x = 1))"
proof (cases "env_alloc_fails env (sc_fresh ctl)")
  case True
  then have e: "send_ctl_record_loss env ctl p = Some (ctl\<lparr>sc_fresh := sc_fresh ctl + 1\<rparr>, None)"
    by (simp add: send_ctl_record_loss_def malo_get_def)
  have "sc_inv (ctl\<lparr>sc_fresh := sc_fresh ctl + 1\<rparr>)" by (rule core_inv [OF _ _ inv]) (simp_all add: core_def)
  then show ?thesis using e p(1) n True by (intro exI [of _ "ctl\<lparr>sc_fresh := sc_fresh ctl + 1\<rparr>"] exI [of _ None] exI [of _ "po_loss_chain x"]) simp
next
  case False
  note e = record_loss_eq [OF p(1) False]
  from inv have v: "sc_view (sc_heap ctl) ctl" and ch: "chains (sc_heap ctl)" and ar: "art_ok ctl"
    and so: "queues_sorted ctl" by (auto simp: sc_inv_def)
  have r: "sc_heap ctl (sc_fresh ctl) = None" using viewD(2) [OF v] by auto
  have ru: "sc_fresh ctl \<notin> set (sc_unacked_packets ctl pns)" using viewD(5) [OF v] r by auto
  have pu: "p \<in> set (sc_unacked_packets ctl pns)" using viewD(5) [OF v] p by (auto simp: q_pns_def)
  obtain ctl' where c: "send_ctl_record_loss env ctl p = Some (ctl', Some (sc_fresh ctl))" using e by blast
  then have c': "ctl' = fst (the (send_ctl_record_loss env ctl p))" by simp
  note c' = c' [unfolded e option.sel fst_conv]
  have "chains (sc_heap ctl')" using record_loss_chains [OF ch p(1) r, of "loss_record x"] by (simp add: c' loss_record_def)
  moreover have "sc_view (sc_heap ctl') ctl'" by (rule record_loss_view [OF v p(1-5) False c])
  moreover have "queues_sorted ctl'" unfolding queues_sorted_def
  proof
    fix q
    define f where "f z = (if z = sc_fresh ctl then po_packno x else pn ctl z)" for z
    have nq: "sc_fresh ctl \<notin> set (sc_unacked_packets ctl q)" using viewD(5) [OF v] r by auto
    have s: "sorted (map f (sc_unacked_packets ctl q))"
    proof (rule sorted_map_cong [of "pn ctl"])
      show "sorted (map (pn ctl) (sc_unacked_packets ctl q))" using sc_invD(4) [OF inv] unfolding queues_sorted_def by blast
      show "f z = pn ctl z" if "z \<in> set (sc_unacked_packets ctl q)" for z using that nq by (auto simp: f_def)
    qed
    have fp: "f (sc_fresh ctl) = f p" using r p(1) by (auto simp: pn_def f_def)
    have "sorted (map f (sc_unacked_packets ctl' q))" using s insert_before_sorted [OF s fp] by (cases "q = po_pns x") (simp_all add: c')
    moreover have "pn ctl' z = f z" if "z \<in> set (sc_unacked_packets ctl' q)" for z
      using that p(1) r by (auto simp: pn_def c' loss_record_def f_def)
    ultimately show "sorted (map (pn ctl') (sc_unacked_packets ctl' q))" by (rule sorted_map_cong)
  qed
  ultimately have "sc_inv ctl'" using ar by (simp add: sc_inv_def art_ok_def c')
  moreover have "sc_heap ctl' p = Some (x\<lparr>po_loss_chain := sc_fresh ctl\<rparr>)" by (simp add: c')
  moreover have "sc_fresh ctl \<noteq> p" using r p by auto
  ultimately show ?thesis
    using c insert_before_rest_any [OF viewD(4) [OF v] n ru]
    by (intro exI [of _ ctl'] exI [of _ "Some (sc_fresh ctl)"] exI [of _ "sc_fresh ctl"]) (auto simp: c' p(6))
qed

section \<open>To the lost queue\<close>

lemma disable_ecn_touches:
  "touched_heap (sc_heap ctl) (sc_heap (lsquic_send_ctl_disable_ecn ctl))"
  "p \<notin> set (sc_scheduled_packets ctl) \<Longrightarrow> sc_heap (lsquic_send_ctl_disable_ecn ctl) p = sc_heap ctl p"
proof -
  have "rel_option touched y (map_option (\<lambda>x. x\<lparr>po_ecn := 0\<rparr>) y)" for y by (cases y) (auto simp: touched_def)
  then show "touched_heap (sc_heap ctl) (sc_heap (lsquic_send_ctl_disable_ecn ctl))"
    by (simp add: touched_heap_def lsquic_send_ctl_disable_ecn_def option.rel_refl)
qed (simp add: lsquic_send_ctl_disable_ecn_def)

lemma note_loss_ok:
  assumes v: "sc_view (sc_heap ctl) ctl"
  shows "touched_heap (sc_heap ctl) (sc_heap (note_loss ctl x))" "p \<notin> set (sc_scheduled_packets ctl) \<Longrightarrow> sc_heap (note_loss ctl x) p = sc_heap ctl p"
    "sc_unacked_packets (note_loss ctl x) = sc_unacked_packets ctl" "sc_retx_frames (note_loss ctl x) = sc_retx_frames ctl"
    "sc_view (sc_heap ctl) (note_loss ctl x)" "art_ok (note_loss ctl x) = art_ok ctl"
proof -
  define c where "c = ctl\<lparr>sc_loss_count := sc_loss_count ctl + 1,
    sc_lost_ack := (if has_frames x FT_ACK then (sc_lost_ack ctl)(po_pns x := True) else sc_lost_ack ctl)\<rparr>"
  have e: "note_loss ctl x = ctl \<or> note_loss ctl x = c \<or> note_loss ctl x = lsquic_send_ctl_disable_ecn c"
    by (simp add: note_loss_def Let_def c_def)
  have h: "sc_heap c = sc_heap ctl" "sc_scheduled_packets c = sc_scheduled_packets ctl" by (simp_all add: c_def)
  note d = disable_ecn_touches [where ctl = c, unfolded h]
  show "touched_heap (sc_heap ctl) (sc_heap (note_loss ctl x))" using e d(1) h by auto
  show "p \<notin> set (sc_scheduled_packets ctl) \<Longrightarrow> sc_heap (note_loss ctl x) p = sc_heap ctl p" using e d(2) h by auto
  show "sc_unacked_packets (note_loss ctl x) = sc_unacked_packets ctl" "sc_retx_frames (note_loss ctl x) = sc_retx_frames ctl"
    "art_ok (note_loss ctl x) = art_ok ctl"
    by (auto simp: note_loss_def Let_def lsquic_send_ctl_disable_ecn_def art_ok_def)
  show "sc_view (sc_heap ctl) (note_loss ctl x)"
    by (rule view_cong [OF v]) (auto simp: note_loss_def Let_def lsquic_send_ctl_disable_ecn_def)
qed

lemma note_loss_inv:
  assumes "sc_inv ctl" "sc_heap ctl p = Some x" "po_unacked x"
  shows "sc_inv (note_loss ctl x)" "sc_heap (note_loss ctl x) p = Some x" "rounds_left ctl \<Longrightarrow> rounds_left (note_loss ctl x)"
proof -
  from assms(1) have v: "sc_view (sc_heap ctl) ctl" and ch: "chains (sc_heap ctl)" and ar: "art_ok ctl"
    and so: "queues_sorted ctl" by (auto simp: sc_inv_def)
  note n = note_loss_ok [OF v, where x = x]
  note t = n(1)
  have "queues_sorted (note_loss ctl x)"
    by (rule queues_sorted_cong [OF so]) (use so n(3) pn_touched [of ctl "{}" "note_loss ctl x"] t in \<open>simp add: queues_sorted_def\<close>)
  then show "sc_inv (note_loss ctl x)"
    using touched_view [OF n(5) t] touched_chains [OF ch t] ar n(6) by (simp add: sc_inv_def)
  have "\<not> po_sched x" using viewD(3) [OF v assms(2)] assms(3) by (auto simp: packet_ok_def)
  then have "p \<notin> set (sc_scheduled_packets ctl)" using viewD(7) [OF v] assms(2) by auto
  then show "sc_heap (note_loss ctl x) p = Some x" using n(2) assms(2) by simp
  assume r: "rounds_left ctl"
  show "rounds_left (note_loss ctl x)" unfolding rounds_left_def
  proof (intro allI impI)
    fix q y assume "sc_heap (note_loss ctl x) q = Some y" "po_unacked y"
    with touched_heapD2 [OF t, of q y] obtain z where "sc_heap ctl q = Some z" "touched z y" by blast
    with r \<open>po_unacked y\<close> show "po_retrans_times y < 19" by (auto simp: rounds_left_def touched_members)
  qed
qed

lemma chains_upd:
  "chains h \<Longrightarrow> h p = Some x \<Longrightarrow> po_loss_chain y = po_loss_chain x \<Longrightarrow> po_pns y = po_pns x \<Longrightarrow> chains (h(p \<mapsto> y))"
  by (erule chains_cong) auto

lemma to_lost_queue_ok:
  assumes inv: "sc_inv ctl" and p: "sc_heap ctl p = Some x" "po_unacked x" "\<not> po_poison x" "\<not> po_loss_rec x" "po_pns x = pns"
    and n: "points_into (sc_unacked_packets ctl pns) next" "p \<notin> set (rest (sc_unacked_packets ctl pns) next)"
  shows "\<exists>ctl'. to_lost_queue ctl p (packet_out_sent_sz x) = Some ctl' \<and> sc_inv ctl'
    \<and> sc_heap ctl' = (sc_heap ctl)(p \<mapsto> x\<lparr>po_unacked := False, po_lost := True\<rparr>)
    \<and> points_into (sc_unacked_packets ctl' pns) next \<and> rest (sc_unacked_packets ctl' pns) next = rest (sc_unacked_packets ctl pns) next
    \<and> sc_n_in_flight_all ctl' = sc_n_in_flight_all ctl - 1 \<and> kept ctl' = kept ctl"
proof -
  from inv have v: "sc_view (sc_heap ctl) ctl" and ch: "chains (sc_heap ctl)" and ar: "art_ok ctl"
    and so: "queues_sorted ctl" by (auto simp: sc_inv_def)
  have ok: "packet_ok p x" by (rule viewD(3) [OF v p(1)])
  then have f: "\<not> po_lost x" "\<not> po_sched x" using p(2) by (auto simp: packet_ok_def)
  from unacked_remove_view [OF v p(1,1,2,4,3)] obtain ctl1 where
    c: "send_ctl_unacked_remove ctl p (packet_out_sent_sz x) = Some ctl1" "sc_view ((sc_heap ctl)(p := None)) ctl1"
    "sc_heap ctl1 = (sc_heap ctl)(p \<mapsto> x\<lparr>po_unacked := False\<rparr>)" "kept ctl1 = kept ctl"
    "sc_unacked_packets ctl1 = (sc_unacked_packets ctl)(pns := remove1 p (sc_unacked_packets ctl pns))"
    "sc_n_in_flight_all ctl1 = sc_n_in_flight_all ctl - 1" unfolding p(5) by blast
  let ?y = "x\<lparr>po_unacked := False, po_lost := True\<rparr>"
  let ?c = "ctl1\<lparr>sc_lost_packets := sc_lost_packets ctl1 @ [p], sc_lost_packet_number := sc_lost_packet_number ctl1 + 1,
    sc_heap := (sc_heap ctl)(p \<mapsto> ?y)\<rparr>"
  have e: "to_lost_queue ctl p (packet_out_sent_sz x) = Some ?c"
    by (simp add: to_lost_queue_def p(1) f c(1) upd_packet_def c(3))
  have fr: "sc_fresh ctl1 = sc_fresh ctl" using c(4) by (simp add: kept_def)
  have "p < sc_fresh ctl" using viewD(2) [OF v] p(1) by auto
  moreover have "p \<notin> set (sc_lost_packets ctl1)" using viewD(9) [OF c(2)] by auto
  moreover have "packet_ok p ?y" using ok p f by (simp add: packet_ok_def)
  ultimately have "sc_view (((sc_heap ctl)(p := None))(p \<mapsto> ?y)) ?c"
    by (intro view_comes [OF c(2)]) (use viewD(4,6,8) [OF c(2)] f in \<open>auto simp: weights fr q_pns_def\<close>)
  then have "sc_view (sc_heap ?c) ?c" by simp
  moreover have "chains (sc_heap ?c)" using chains_upd [OF ch p(1), of ?y] by simp
  moreover have "art_ok ?c" using ar c(4) by (simp add: art_ok_def kept_def)
  moreover have "queues_sorted ?c"
    by (rule queues_sorted_cong [OF so]) (use so in \<open>auto simp: queues_sorted_def sorted_map_remove1 c(5) pn_def p(1)\<close>)
  ultimately have "sc_inv ?c" by (simp add: sc_inv_def)
  then show ?thesis using e rest_remove1_other [OF viewD(4) [OF v] n] c(4,5,6) by (intro exI [of _ ?c]) (simp add: kept_def)
qed

text \<open>The members of a packet that the planning of its retransmission leaves alone.\<close>

definition shape :: "sc_packet \<Rightarrow> bool list \<times> u32 \<times> u16 \<times> u32 \<times> pid \<times> packnum_space \<times> packno" where
  "shape x = ([po_sched x, po_unacked x, po_lost x, po_loss_rec x, po_poison x, po_mtu_probe x, po_hello x, po_has_sent_sz x],
     po_frame_types x, po_sent_sz x, po_total_sz x, po_loss_chain x, po_pns x, po_packno x)"

lemma shape_schedule_time [simp]: "shape (lsquic_packet_out_schedule_time x init now rand) = shape x"
  by (simp add: lsquic_packet_out_schedule_time_def Let_def shape_def)

lemma shape_upd [simp]:
  "shape (x\<lparr>po_retrans_packet_number := a\<rparr>) = shape x" "shape (x\<lparr>po_retrans_times := a\<rparr>) = shape x"
  "shape (x\<lparr>po_retrans_no := b\<rparr>) = shape x" "shape (x\<lparr>po_remained_time := c\<rparr>) = shape x"
  "shape (x\<lparr>po_need_retrans_number := a\<rparr>) = shape x" "shape (x\<lparr>po_fake_loss_rec := a\<rparr>) = shape x"
  "shape (x\<lparr>po_been_detect_loss := a\<rparr>) = shape x"
  by (simp_all add: shape_def)

definition planned :: "send_ctl \<Rightarrow> pid \<Rightarrow> sc_packet \<Rightarrow> send_ctl \<Rightarrow> bool" where
  "planned ctl p x ctl' \<longleftrightarrow> (\<exists>y m. ctl' = ctl\<lparr>sc_heap := (sc_heap ctl)(p \<mapsto> y), sc_rounds_map := m\<rparr>
     \<and> shape y = shape x \<and> (po_fake_loss_rec y = po_fake_loss_rec x \<or> po_fake_loss_rec y = 1) \<and> length m = MAX_ROUND_BOUND)"

lemma planned_upd:
  assumes "planned ctl p x c" "\<And>y. shape (f y) = shape y" "\<And>y. po_fake_loss_rec (f y) = po_fake_loss_rec y \<or> po_fake_loss_rec (f y) = 1"
  shows "\<exists>c'. upd_packet p f c = Some c' \<and> planned ctl p x c'"
proof -
  from assms(1) obtain y m where c: "c = ctl\<lparr>sc_heap := (sc_heap ctl)(p \<mapsto> y), sc_rounds_map := m\<rparr>" "shape y = shape x"
    "po_fake_loss_rec y = po_fake_loss_rec x \<or> po_fake_loss_rec y = 1" "length m = MAX_ROUND_BOUND"
    unfolding planned_def by blast
  then have "upd_packet p f c = Some (ctl\<lparr>sc_heap := (sc_heap ctl)(p \<mapsto> f y), sc_rounds_map := m\<rparr>)" by (simp add: upd_packet_def)
  then show ?thesis using c assms(2,3) [of y] unfolding planned_def by (intro exI conjI) (assumption, rule refl, auto)
qed

lemma fake_schedule_time [simp]: "po_fake_loss_rec (lsquic_packet_out_schedule_time x init now rand) = po_fake_loss_rec x"
  by (simp add: lsquic_packet_out_schedule_time_def Let_def)

lemma plan_ok:
  assumes p: "sc_heap ctl p = Some x" "po_retrans_times x < 19" and len: "length (sc_rounds_map ctl) = MAX_ROUND_BOUND"
  shows "\<exists>ctl'. plan_retransmission env ctl p = Some ctl' \<and> planned ctl p x ctl'"
proof -
  have "unat (po_retrans_times x) < 19" using p(2) by (simp add: word_less_nat_alt)
  moreover have "unat (po_retrans_times x + 1) \<le> unat (po_retrans_times x) + 1" by (simp add: unat_word_ariths)
  ultimately have t: "unat (po_retrans_times x + 1) < MAX_ROUND_BOUND" by (simp add: MAX_ROUND_BOUND_def)
  have start: "planned ctl p x ctl" unfolding planned_def
    by (intro exI [of _ x] exI [of _ "sc_rounds_map ctl"]) (simp add: p(1) len fun_upd_idem)
  note last = planned_upd [of ctl p x _ "\<lambda>x. x\<lparr>po_been_detect_loss := 0\<rparr>"]
  define dup where "dup \<longleftrightarrow> po_fake_loss_rec x \<noteq> 0 \<and> \<not> po_loss_rec x \<and> po_been_detect_loss x = 0"
  let ?f1 = "\<lambda>x. lsquic_packet_out_schedule_time (x\<lparr>po_retrans_packet_number := po_retrans_packet_number x + 1\<rparr>) False (env_now env) (env_rand env p)"
  let ?f2 = "\<lambda>x. x\<lparr>po_retrans_times := po_retrans_times x + 1, po_retrans_no := (if po_retrans_no x \<noteq> 0 then po_retrans_no x else po_packno x),
              po_remained_time := min_rtt (sc_rtt ctl)\<rparr>"
  let ?f3 = "\<lambda>d x. lsquic_packet_out_schedule_time (x\<lparr>po_need_retrans_number := (if d > 0 then ucast d else 1), po_fake_loss_rec := 1\<rparr>)
              True (env_now env) (env_rand env p)"
  let ?body = "if dup then upd_packet p ?f1 ctl else do { ctl \<leftarrow> upd_packet p ?f2 ctl;
      if sc_art_flag ctl \<noteq> 0 then do { (ctl, d) \<leftarrow> art_duplicate_number ctl p; upd_packet p (?f3 (d :: u32)) ctl } else Some ctl }"
  have body: "\<exists>c. ?body = Some c \<and> planned ctl p x c"
  proof (cases dup)
    case True
    with planned_upd [OF start, of ?f1] show ?thesis by simp
  next
    case False
    define c where "c = ctl\<lparr>sc_heap := (sc_heap ctl)(p \<mapsto> ?f2 x)\<rparr>"
    have u: "upd_packet p ?f2 ctl = Some c" by (simp add: upd_packet_def p(1) c_def)
    with planned_upd [OF start, of ?f2] have pc: "planned ctl p x c" by simp
    obtain r where a: "art_duplicate_number c p = Some (c\<lparr>sc_rounds_map := (sc_rounds_map ctl)[unat (po_retrans_times x + 1) := r]\<rparr>, r)"
      using t len by (simp add: art_duplicate_number_def Let_def c_def)
    define c2 where "c2 = c\<lparr>sc_rounds_map := (sc_rounds_map ctl)[unat (po_retrans_times x + 1) := r]\<rparr>"
    have "planned ctl p x c2" unfolding planned_def c2_def c_def
      by (intro exI [of _ "?f2 x"] exI [of _ "(sc_rounds_map ctl)[unat (po_retrans_times x + 1) := r]"]) (simp add: len)
    from planned_upd [OF this, of "?f3 r"] obtain c3 where c3: "upd_packet p (?f3 r) c2 = Some c3" "planned ctl p x c3" by auto
    show ?thesis
    proof (cases "sc_art_flag c = 0")
      case True
      then show ?thesis using False u pc by (simp del: not_gr_zero)
    next
      case f: False
      have "?body = do { ctl \<leftarrow> Some c; if sc_art_flag ctl \<noteq> 0 then do { (ctl, d) \<leftarrow> art_duplicate_number ctl p; upd_packet p (?f3 (d :: u32)) ctl } else Some ctl }"
        by (simp only: u False if_False)
      also have "\<dots> = upd_packet p (?f3 r) c2" using f by (simp only: a c2_def [symmetric] bind.bind_lunit) simp
      finally have "?body = Some c3" unfolding c3(1) .
      then show ?thesis using c3(2) by (intro exI conjI)
    qed
  qed
  then obtain c where c: "?body = Some c" "planned ctl p x c" by blast
  from last [OF c(2)] obtain c' where c': "upd_packet p (\<lambda>x. x\<lparr>po_been_detect_loss := 0\<rparr>) c = Some c'" "planned ctl p x c'" by auto
  show ?thesis
  proof (cases "po_frame_types x \<noteq> FT_PADDING \<and> has_frames x FT_STREAM")
    case True
    then have "plan_retransmission env ctl p = do { c \<leftarrow> ?body; upd_packet p (\<lambda>x. x\<lparr>po_been_detect_loss := 0\<rparr>) c }"
      unfolding plan_retransmission_def p(1) dup_def by simp
    then show ?thesis using c c' by simp
  next
    case False
    then have "plan_retransmission env ctl p = Some ctl" by (simp only: plan_retransmission_def p(1) bind.bind_lunit if_False)
    then show ?thesis using start by blast
  qed
qed

lemma planned_inv:
  assumes inv: "sc_inv ctl" and p: "sc_heap ctl p = Some x" "po_lost x" "\<not> po_mtu_probe x" and pl: "planned ctl p x ctl'"
  shows "sc_inv ctl'" "sc_unacked_packets ctl' = sc_unacked_packets ctl" "rounds_left ctl \<Longrightarrow> rounds_left ctl'"
    "\<exists>y. sc_heap ctl' = (sc_heap ctl)(p \<mapsto> y) \<and> shape y = shape x" "sc_n_in_flight_all ctl' = sc_n_in_flight_all ctl"
    "sc_al_retx ctl' = sc_al_retx ctl" "sc_retx_frames ctl' = sc_retx_frames ctl"
proof -
  from inv have v: "sc_view (sc_heap ctl) ctl" and ch: "chains (sc_heap ctl)" and ar: "art_ok ctl"
    and so: "queues_sorted ctl" by (auto simp: sc_inv_def)
  from pl obtain y m where c: "ctl' = ctl\<lparr>sc_heap := (sc_heap ctl)(p \<mapsto> y), sc_rounds_map := m\<rparr>" and y: "shape y = shape x" "length m = MAX_ROUND_BOUND"
    "po_fake_loss_rec y = po_fake_loss_rec x \<or> po_fake_loss_rec y = 1"
    unfolding planned_def by blast
  have ok: "packet_ok p x" by (rule viewD(3) [OF v p(1)])
  then have u: "\<not> po_unacked x" "\<not> po_sched x" "\<not> po_poison x" using p(2) by (auto simp: packet_ok_def)
  have m: "po_unacked y = po_unacked x" "po_sched y = po_sched x" "po_lost y = po_lost x" "po_poison y = po_poison x" "po_loss_rec y = po_loss_rec x"
    "po_loss_chain y = po_loss_chain x" "po_pns y = po_pns x" "po_frame_types y = po_frame_types x"
    using y(1) by (simp_all add: shape_def)
  have "packet_ok p y" using ok y(1,3) u p(3) by (auto simp: packet_ok_def shape_def)
  then have v1: "sc_view ((sc_heap ctl)(p \<mapsto> y)) ctl"
    by (rule view_changed [OF v p(1)]) (use m u in \<open>simp_all add: weights q_pns_def\<close>)
  have "sc_view ((sc_heap ctl)(p \<mapsto> y)) ctl'" by (rule view_cong [OF v1]) (simp_all add: c)
  then have "sc_view (sc_heap ctl') ctl'" by (simp add: c)
  moreover have "chains (sc_heap ctl')" using chains_upd [OF ch p(1), of y] m by (simp add: c)
  moreover have "queues_sorted ctl'"
    by (rule queues_sorted_cong [OF so]) (use so y(1) p(1) in \<open>auto simp: queues_sorted_def c pn_def shape_def\<close>)
  ultimately show "sc_inv ctl'" using ar y(2) by (simp add: sc_inv_def art_ok_def c)
  show "sc_unacked_packets ctl' = sc_unacked_packets ctl" by (simp add: c)
  show "rounds_left ctl \<Longrightarrow> rounds_left ctl'" using m u by (auto simp: rounds_left_def c)
  show "\<exists>y. sc_heap ctl' = (sc_heap ctl)(p \<mapsto> y) \<and> shape y = shape x" using y by (auto simp: c)
  show "sc_n_in_flight_all ctl' = sc_n_in_flight_all ctl" "sc_al_retx ctl' = sc_al_retx ctl" "sc_retx_frames ctl' = sc_retx_frames ctl"
    by (simp_all add: c)
qed

text \<open>A packet whose loss has to be noticed: it is what the retransmission alarm is for.\<close>

definition awaits_ack :: "u32 \<Rightarrow> sc_packet \<Rightarrow> bool" where
  "awaits_ack fts x \<longleftrightarrow> po_unacked x \<and> \<not> po_loss_rec x \<and> \<not> po_poison x \<and> has_frames x fts"

definition shrinks :: "send_ctl \<Rightarrow> send_ctl \<Rightarrow> bool" where
  "shrinks ctl ctl' \<longleftrightarrow> sc_al_retx ctl' = sc_al_retx ctl \<and> sc_retx_frames ctl' = sc_retx_frames ctl
     \<and> (\<forall>p y. sc_heap ctl' p = Some y \<longrightarrow> awaits_ack (sc_retx_frames ctl) y
          \<longrightarrow> (\<exists>x. sc_heap ctl p = Some x \<and> awaits_ack (sc_retx_frames ctl) x \<and> po_pns x = po_pns y))"

lemma shrinks_refl [simp]: "shrinks ctl ctl"
  by (simp add: shrinks_def)

lemma shrinks_trans: "shrinks ctl c1 \<Longrightarrow> shrinks c1 c2 \<Longrightarrow> shrinks ctl c2"
  unfolding shrinks_def by metis

lemma touched_awaits: "touched x y \<Longrightarrow> awaits_ack fts y = awaits_ack fts x"
  by (simp add: awaits_ack_def touched_members has_frames_def)

lemma shrinks_touched:
  assumes "touched_heap (without (sc_heap ctl) S) (sc_heap ctl')" "sc_al_retx ctl' = sc_al_retx ctl" "sc_retx_frames ctl' = sc_retx_frames ctl"
  shows "shrinks ctl ctl'"
  unfolding shrinks_def
proof (intro conjI assms(2,3) allI impI)
  fix p y assume a: "sc_heap ctl' p = Some y" "awaits_ack (sc_retx_frames ctl) y"
  from touched_heapD2 [OF assms(1) a(1)] obtain x where "sc_heap ctl p = Some x" "touched x y" by (auto simp: without_def split: if_splits)
  with a(2) show "\<exists>x. sc_heap ctl p = Some x \<and> awaits_ack (sc_retx_frames ctl) x \<and> po_pns x = po_pns y"
    by (metis touched_awaits touched_members(2))
qed

lemma core_shrinks: "core ctl' = core ctl \<Longrightarrow> shrinks ctl ctl'"
  by (auto simp: shrinks_def core_def)

text \<open>What a traversal of an unacked queue needs of a step that handles one packet.\<close>

definition loss_step :: "packnum_space \<Rightarrow> pid option \<Rightarrow> send_ctl \<Rightarrow> send_ctl \<Rightarrow> pid option \<Rightarrow> bool" where
  "loss_step pns next ctl ctl' next' \<longleftrightarrow> sc_inv ctl' \<and> rounds_left ctl' \<and> points_into (sc_unacked_packets ctl' pns) next'
     \<and> length (rest (sc_unacked_packets ctl' pns) next') \<le> length (rest (sc_unacked_packets ctl pns) next)
     \<and> shrinks ctl ctl'
     \<and> (\<forall>q y. sc_heap ctl' q = Some y \<longrightarrow> awaits_ack (sc_retx_frames ctl) y \<longrightarrow> q \<in> set (rest (sc_unacked_packets ctl pns) next)
          \<longrightarrow> q \<in> set (rest (sc_unacked_packets ctl' pns) next'))"

lemma destroyed_packet: "send_ctl_destroy_packet ctl p = Some ctl' \<Longrightarrow> sc_heap ctl' p = None"
  by (auto simp: send_ctl_destroy_packet_def split: bind_splits)

lemma loss_step_after:
  assumes "shrinks ctl c1" "length (rest (sc_unacked_packets c1 pns) next) \<le> length (rest (sc_unacked_packets ctl pns) next)"
    "set (rest (sc_unacked_packets ctl pns) next) \<subseteq> set (rest (sc_unacked_packets c1 pns) next)" "loss_step pns next c1 c2 next'"
  shows "loss_step pns next ctl c2 next'"
  using assms shrinks_trans [OF assms(1), of c2] by (auto simp: loss_step_def shrinks_def)

lemma touched_rounds: "rounds_left ctl \<Longrightarrow> touched_heap (without (sc_heap ctl) S) (sc_heap ctl') \<Longrightarrow> rounds_left ctl'"
  unfolding rounds_left_def
proof (intro allI impI)
  fix q y assume a: "\<forall>p x. sc_heap ctl p = Some x \<longrightarrow> po_unacked x \<longrightarrow> po_retrans_times x < 19"
    "touched_heap (without (sc_heap ctl) S) (sc_heap ctl')" "sc_heap ctl' q = Some y" "po_unacked y"
  from touched_heapD2 [OF a(2,3)] obtain x where "sc_heap ctl q = Some x" "touched x y" by (auto simp: without_def split: if_splits)
  with a(1,4) show "po_retrans_times y < 19" by (auto simp: touched_members)
qed

text \<open>A packet that has left the unacked queue is destroyed with its chain.\<close>

lemma leave_and_destroy:
  assumes inv: "chains (sc_heap ctl)" "art_ok ctl" "queues_sorted ctl" and v: "sc_view ((sc_heap ctl)(p := None)) ctl" and r: "rounds_left ctl"
    and p: "sc_heap ctl p = Some x" "po_pns x = pns" and n: "points_into (sc_unacked_packets ctl pns) next"
  shows "\<exists>ctl1 next' ctl'. send_ctl_destroy_chain ctl p next = Some (ctl1, next') \<and> send_ctl_destroy_packet ctl1 p = Some ctl'
    \<and> loss_step pns next ctl ctl' next'
    \<and> (\<exists>ys. cyc (nx (sc_heap ctl)) p ys \<and> touched_heap (without (sc_heap ctl) (set (p # ys))) (sc_heap ctl')
         \<and> sc_unacked_packets ctl' = (sc_unacked_packets ctl)(pns := filter (\<lambda>q. q \<notin> set ys) (sc_unacked_packets ctl pns))
         \<and> rest (sc_unacked_packets ctl' pns) next' = filter (\<lambda>q. q \<notin> set ys) (rest (sc_unacked_packets ctl pns) next))"
proof -
  from inv(1) p(1) obtain ys where cy: "cyc (nx (sc_heap ctl)) p ys" by (auto simp: chains_def all_cyc_def nx_def dom_def)
  from destroyed_with_chain [OF inv(1) p cy v n] obtain ctl1 next' ctl' where
    d: "send_ctl_destroy_chain ctl p next = Some (ctl1, next')" "send_ctl_destroy_packet ctl1 p = Some ctl'"
    "sc_view (sc_heap ctl') ctl'" "chains (sc_heap ctl')" "kept ctl' = kept ctl"
    "touched_heap (without (sc_heap ctl) (set (p # ys))) (sc_heap ctl')"
    "sc_unacked_packets ctl' = (sc_unacked_packets ctl)(pns := filter (\<lambda>q. q \<notin> set ys) (sc_unacked_packets ctl pns))"
    "points_into (sc_unacked_packets ctl' pns) next'"
    "rest (sc_unacked_packets ctl' pns) next' = filter (\<lambda>q. q \<notin> set ys) (rest (sc_unacked_packets ctl pns) next)" by blast
  have "p \<notin> set (sc_unacked_packets ctl q)" for q using viewD(5) [OF v] by auto
  then have "queues_sorted ctl'" unfolding queues_sorted_def
  proof (intro allI)
    fix q
    have "sorted (map (pn ctl) (sc_unacked_packets ctl' q))" using inv(3) by (simp add: d(7) queues_sorted_def sorted_filter)
    moreover have "pn ctl' z = pn ctl z" if "z \<in> set (sc_unacked_packets ctl' q)" for z
    proof (rule pn_touched [OF d(6)])
      from that viewD(5) [OF d(3)] obtain y where "sc_heap ctl' z = Some y" by auto
      from touched_heapD2 [OF d(6) this] show "z \<notin> set (p # ys)" by (auto simp: without_def split: if_splits)
    qed
    ultimately show "sorted (map (pn ctl') (sc_unacked_packets ctl' q))" by (rule sorted_map_cong)
  qed
  then have "sc_inv ctl'" using d(3-5) inv(2) by (simp add: sc_inv_def art_ok_def kept_def)
  moreover have "rounds_left ctl'" by (rule touched_rounds [OF r d(6)])
  moreover have "shrinks ctl ctl'" using shrinks_touched [OF d(6)] d(5) by (simp add: kept_def)
  moreover have "q \<notin> set ys" if "sc_heap ctl' q = Some y" for q y
    using touched_heapD2 [OF d(6) that] by (auto simp: without_def split: if_splits)
  ultimately have "loss_step pns next ctl ctl' next'" using d(8,9) by (auto simp: loss_step_def)
  then show ?thesis using d(1,2,6,7,9) cy by blast
qed

lemma unacked_leaves:
  assumes inv: "sc_inv ctl" and r: "rounds_left ctl" and p: "sc_heap ctl p = Some x" "po_unacked x" "\<not> po_poison x" "\<not> po_loss_rec x" "po_pns x = pns"
    and n: "points_into (sc_unacked_packets ctl pns) next" "p \<notin> set (rest (sc_unacked_packets ctl pns) next)"
  shows "\<exists>ctl1. send_ctl_unacked_remove ctl p (packet_out_sent_sz x) = Some ctl1 \<and> chains (sc_heap ctl1) \<and> art_ok ctl1 \<and> queues_sorted ctl1
    \<and> sc_view ((sc_heap ctl1)(p := None)) ctl1 \<and> rounds_left ctl1 \<and> sc_heap ctl1 = (sc_heap ctl)(p \<mapsto> x\<lparr>po_unacked := False\<rparr>)
    \<and> points_into (sc_unacked_packets ctl1 pns) next \<and> rest (sc_unacked_packets ctl1 pns) next = rest (sc_unacked_packets ctl pns) next
    \<and> sc_unacked_packets ctl1 = (sc_unacked_packets ctl)(pns := remove1 p (sc_unacked_packets ctl pns)) \<and> kept ctl1 = kept ctl"
proof -
  from inv have v: "sc_view (sc_heap ctl) ctl" and ch: "chains (sc_heap ctl)" and ar: "art_ok ctl"
    and so: "queues_sorted ctl" by (auto simp: sc_inv_def)
  from unacked_remove_view [OF v p(1,1,2,4,3)] obtain ctl1 where
    c: "send_ctl_unacked_remove ctl p (packet_out_sent_sz x) = Some ctl1" "sc_view ((sc_heap ctl)(p := None)) ctl1"
    "sc_heap ctl1 = (sc_heap ctl)(p \<mapsto> x\<lparr>po_unacked := False\<rparr>)" "kept ctl1 = kept ctl"
    "sc_unacked_packets ctl1 = (sc_unacked_packets ctl)(pns := remove1 p (sc_unacked_packets ctl pns))" unfolding p(5) by blast
  have "chains (sc_heap ctl1)" unfolding c(3) by (rule chains_upd [OF ch p(1)]) simp_all
  moreover have "art_ok ctl1" using ar c(4) by (simp add: art_ok_def kept_def)
  moreover have "queues_sorted ctl1"
    by (rule queues_sorted_cong [OF so]) (use so in \<open>auto simp: queues_sorted_def sorted_map_remove1 c(3,5) pn_def p(1)\<close>)
  moreover have "sc_view ((sc_heap ctl1)(p := None)) ctl1" using c(2) by (simp add: c(3))
  moreover have "rounds_left ctl1" using r by (auto simp: rounds_left_def c(3))
  ultimately show ?thesis using c rest_remove1_other [OF viewD(4) [OF v] n] by (intro exI [of _ ctl1]) simp
qed

lemma handle_regular_ok:
  assumes inv: "sc_inv ctl" and r: "rounds_left ctl"
    and p: "sc_heap ctl p = Some x" "po_unacked x" "\<not> po_poison x" "\<not> po_mtu_probe x" "\<not> po_loss_rec x" "po_pns x = pns"
    and n: "points_into (sc_unacked_packets ctl pns) next" "p \<notin> set (rest (sc_unacked_packets ctl pns) next)"
  shows "\<exists>ctl' rec next'. send_ctl_handle_regular_lost_packet env ctl p next = Some (ctl', rec, next') \<and> loss_step pns next ctl ctl' next'
    \<and> (\<forall>q. rec = Some q \<longrightarrow> sc_heap ctl' q \<noteq> None)
    \<and> (has_frames x (sc_retx_frames ctl) \<and> po_fake_loss_rec x = 1 \<and> \<not> env_alloc_fails env (sc_fresh ctl)
         \<longrightarrow> sc_n_in_flight_all ctl' = sc_n_in_flight_all ctl)
    \<and> (\<forall>y. sc_heap ctl' p = Some y \<longrightarrow> \<not> po_unacked y)"
proof -
  define c0 where "c0 = note_loss ctl x"
  from inv have v: "sc_view (sc_heap ctl) ctl" by (simp add: sc_inv_def)
  note nl = note_loss_inv [OF inv p(1,2), folded c0_def] note_loss_ok(3,4) [OF v, where x = x, folded c0_def]
  note n0 = n [folded nl(4)]
  have same: "sc_fresh c0 = sc_fresh ctl" "sc_n_in_flight_all c0 = sc_n_in_flight_all ctl" "sc_al_retx c0 = sc_al_retx ctl"
    by (auto simp: c0_def note_loss_def Let_def lsquic_send_ctl_disable_ecn_def)
  have sh0: "shrinks ctl c0"
    by (rule shrinks_touched [of _ "{}"]) (use note_loss_ok(1) [OF v, where x = x] same nl(5) in \<open>simp_all add: c0_def\<close>)
  show ?thesis
  proof (cases "has_frames x (sc_retx_frames c0)")
    case True
    from record_loss_ok [OF nl(1,2) p(2-6) n0] obtain c1 rec c where
      r1: "send_ctl_record_loss env c0 p = Some (c1, rec)" "sc_inv c1" "sc_heap c1 p = Some (x\<lparr>po_loss_chain := c\<rparr>)"
      "\<And>q y. q \<noteq> p \<Longrightarrow> sc_heap c1 q = Some y \<Longrightarrow> sc_heap c0 q = Some y \<or> y = loss_record x"
      "\<And>r. rec = Some r \<Longrightarrow> r \<noteq> p \<and> sc_heap c1 r = Some (loss_record x)"
      "points_into (sc_unacked_packets c1 pns) next" "rest (sc_unacked_packets c1 pns) next = rest (sc_unacked_packets c0 pns) next"
      "\<not> env_alloc_fails env (sc_fresh c0) \<longrightarrow> sc_n_in_flight_all c1 = sc_n_in_flight_all c0 + of_bool (po_fake_loss_rec x = 1)"
      "sc_al_retx c1 = sc_al_retx c0" "sc_retx_frames c1 = sc_retx_frames c0" by blast
    let ?x = "x\<lparr>po_loss_chain := c\<rparr>"
    have sz: "packet_out_sent_sz ?x = packet_out_sent_sz x" by (simp add: packet_out_sent_sz_def)
    have tx: "po_retrans_times x < 19" using r p(1,2) by (auto simp: rounds_left_def)
    have rl1: "rounds_left c1" unfolding rounds_left_def
    proof (intro allI impI)
      fix q y assume q: "sc_heap c1 q = Some y" "po_unacked y"
      show "po_retrans_times y < 19"
      proof (cases "q = p")
        case True
        with q r1(3) have "y = x\<lparr>po_loss_chain := c\<rparr>" by simp
        then show ?thesis using tx by simp
      next
        case False
        have "po_retrans_times (loss_record x) = po_retrans_times x" by (simp add: loss_record_def)
        with r1(4) [OF False q(1)] nl(3) [OF r] q(2) tx show ?thesis unfolding rounds_left_def by metis
      qed
    qed
    have px: "po_unacked ?x" "\<not> po_poison ?x" "\<not> po_loss_rec ?x" "po_pns ?x = pns" using p by simp_all
    have n1: "p \<notin> set (rest (sc_unacked_packets c1 pns) next)" using n0 r1(7) by simp
    from to_lost_queue_ok [OF r1(2,3) px r1(6) n1] obtain c2 where
      l: "to_lost_queue c1 p (packet_out_sent_sz x) = Some c2" "sc_inv c2" "sc_heap c2 = (sc_heap c1)(p \<mapsto> ?x\<lparr>po_unacked := False, po_lost := True\<rparr>)"
      "points_into (sc_unacked_packets c2 pns) next" "rest (sc_unacked_packets c2 pns) next = rest (sc_unacked_packets c1 pns) next"
      "sc_n_in_flight_all c2 = sc_n_in_flight_all c1 - 1" "kept c2 = kept c1" unfolding sz by blast
    have rl2: "rounds_left c2" using rl1 by (auto simp: rounds_left_def l(3))
    have h2: "sc_heap c2 p = Some (?x\<lparr>po_unacked := False, po_lost := True\<rparr>)" by (simp add: l(3))
    have "length (sc_rounds_map c2) = MAX_ROUND_BOUND" using l(2) by (simp add: sc_inv_def art_ok_def)
    from plan_ok [OF h2 _ this, of env] tx obtain c3 where
      pl: "plan_retransmission env c2 p = Some c3" "planned c2 p (?x\<lparr>po_unacked := False, po_lost := True\<rparr>) c3" by auto
    note i = planned_inv [OF l(2) h2 _ _ pl(2)]
    have e: "send_ctl_handle_regular_lost_packet env ctl p next = Some (c3, rec, next)"
      unfolding send_ctl_handle_regular_lost_packet_def p(1) using True p(5) r1(1) l(1) pl(1) by (simp add: c0_def)
    obtain z where z: "sc_heap c3 = (sc_heap c2)(p \<mapsto> z)" "\<not> po_unacked z" using i(4) p(4) by (auto simp: shape_def)
    have "shrinks c0 c3" unfolding shrinks_def
    proof (intro conjI allI impI)
      show "sc_al_retx c3 = sc_al_retx c0" "sc_retx_frames c3 = sc_retx_frames c0" using i(6,7) l(7) r1(9,10) p(4) by (simp_all add: kept_def)
      fix q y assume q: "sc_heap c3 q = Some y" "awaits_ack (sc_retx_frames c0) y"
      have qp: "q \<noteq> p" using q z by (auto simp: awaits_ack_def)
      then have "sc_heap c1 q = Some y" using q(1) z(1) by (simp add: l(3))
      from r1(4) [OF qp this] q(2) show "\<exists>x. sc_heap c0 q = Some x \<and> awaits_ack (sc_retx_frames c0) x \<and> po_pns x = po_pns y"
        by (auto simp: awaits_ack_def loss_record_def)
    qed
    then have "shrinks ctl c3" by (rule shrinks_trans [OF sh0])
    then have "loss_step pns next ctl c3 next"
      using i(1-3) rl2 l(4,5) r1(7) p(4) by (simp add: loss_step_def nl(4))
    moreover have "sc_heap c3 q \<noteq> None" if "rec = Some q" for q using i(4) r1(5) [OF that] p(4) by (auto simp: l(3))
    moreover have "sc_n_in_flight_all c3 = sc_n_in_flight_all ctl" if "po_fake_loss_rec x = 1" "\<not> env_alloc_fails env (sc_fresh ctl)"
      using that r1(8) l(6) i(5) p(4) by (simp add: same)
    ultimately show ?thesis using e z by (intro exI [of _ c3] exI [of _ rec] exI [of _ "next"]) auto
  next
    case False
    from unacked_leaves [OF nl(1) nl(3) [OF r] nl(2) p(2,3,5,6) n0] obtain c1 where
      c: "send_ctl_unacked_remove c0 p (packet_out_sent_sz x) = Some c1" "chains (sc_heap c1)" "art_ok c1" "queues_sorted c1"
      "sc_view ((sc_heap c1)(p := None)) c1" "rounds_left c1" "sc_heap c1 = (sc_heap c0)(p \<mapsto> x\<lparr>po_unacked := False\<rparr>)"
      "points_into (sc_unacked_packets c1 pns) next" "rest (sc_unacked_packets c1 pns) next = rest (sc_unacked_packets c0 pns) next"
      "kept c1 = kept c0" by blast
    have h1: "sc_heap c1 p = Some (x\<lparr>po_unacked := False\<rparr>)" "po_pns (x\<lparr>po_unacked := False\<rparr>) = pns" using p(6) by (simp_all add: c(7))
    from leave_and_destroy [OF c(2-6) h1 c(8)] obtain c2 next' ctl' where
      "send_ctl_destroy_chain c1 p next = Some (c2, next')" "send_ctl_destroy_packet c2 p = Some ctl'" "loss_step pns next c1 ctl' next'" by blast
    note d = this destroyed_packet [OF this(2)]
    have e: "send_ctl_handle_regular_lost_packet env ctl p next = Some (ctl', None, next')"
      unfolding send_ctl_handle_regular_lost_packet_def p(1) using False c(1) d(1,2) by (simp add: c0_def)
    have "shrinks ctl c1" by (rule shrinks_trans [OF sh0]) (use c(7,10) p(1) nl(2) in \<open>auto simp: shrinks_def kept_def awaits_ack_def\<close>)
    then have "loss_step pns next ctl ctl' next'" by (rule loss_step_after [OF _ _ _ d(3)]) (simp_all add: c(9) nl(4))
    with e False nl(5) d(4) show ?thesis by auto
  qed
qed

lemma handle_mtu_ok:
  assumes inv: "sc_inv ctl" and r: "rounds_left ctl"
    and p: "sc_heap ctl p = Some x" "po_unacked x" "\<not> po_poison x" "po_mtu_probe x" "\<not> po_loss_rec x" "po_pns x = pns"
    and n: "points_into (sc_unacked_packets ctl pns) next" "p \<notin> set (rest (sc_unacked_packets ctl pns) next)"
  shows "\<exists>ctl'. send_ctl_handle_lost_mtu_probe ctl p = Some ctl' \<and> loss_step pns next ctl ctl' next \<and> sc_heap ctl' p = None"
proof -
  from unacked_leaves [OF inv r p(1,2,3,5,6) n] obtain c1 where
    c: "send_ctl_unacked_remove ctl p (packet_out_sent_sz x) = Some c1" "chains (sc_heap c1)" "art_ok c1" "queues_sorted c1"
    "sc_view ((sc_heap c1)(p := None)) c1" "rounds_left c1" "sc_heap c1 = (sc_heap ctl)(p \<mapsto> x\<lparr>po_unacked := False\<rparr>)"
    "points_into (sc_unacked_packets c1 pns) next" "rest (sc_unacked_packets c1 pns) next = rest (sc_unacked_packets ctl pns) next"
    "kept c1 = kept ctl" by blast
  let ?c2 = "c1\<lparr>sc_heap := (sc_heap c1)(p := None)\<rparr>"
  have e: "send_ctl_handle_lost_mtu_probe ctl p = Some ?c2"
    by (simp add: send_ctl_handle_lost_mtu_probe_def p(1) c(1) send_ctl_destroy_packet_def c(7))
  have "packet_ok p x" using inv p(1) by (auto simp: sc_inv_def dest: viewD(3))
  then have "cyc (nx (sc_heap c1)) p []" using p(4) by (simp add: cyc_def nx_Some c(7) packet_ok_def)
  from chains_without [OF c(2) this] have "chains ((sc_heap c1)(p := None))"
    by (simp add: without_def fun_upd_def)
  moreover have "sc_view ((sc_heap c1)(p := None)) ?c2" by (rule view_cong [OF c(5)]) simp_all
  moreover have "queues_sorted ?c2"
    by (rule queues_sorted_cong [OF c(4)]) (use c(4) viewD(5) [OF c(5)] in \<open>auto simp: queues_sorted_def pn_def\<close>)
  ultimately have "sc_inv ?c2" using c(3) by (simp add: sc_inv_def art_ok_def)
  moreover have "rounds_left ?c2" using c(6) by (auto simp: rounds_left_def)
  moreover have "shrinks ctl ?c2" using c(7,10) by (auto simp: shrinks_def kept_def)
  ultimately have "loss_step pns next ctl ?c2 next" using c(8,9) by (simp add: loss_step_def)
  with e show ?thesis by (intro exI [of _ ?c2]) simp
qed

lemma handle_lost_ok:
  assumes inv: "sc_inv ctl" and r: "rounds_left ctl"
    and p: "sc_heap ctl p = Some x" "po_unacked x" "\<not> po_poison x" "\<not> po_loss_rec x" "po_pns x = pns"
    and n: "points_into (sc_unacked_packets ctl pns) next" "p \<notin> set (rest (sc_unacked_packets ctl pns) next)"
  shows "\<exists>ctl' b next'. send_ctl_handle_lost_packet env ctl p next = Some (ctl', b, next') \<and> loss_step pns next ctl ctl' next'
    \<and> (\<forall>y. sc_heap ctl' p = Some y \<longrightarrow> \<not> po_unacked y)"
proof (cases "po_mtu_probe x")
  case True
  from handle_mtu_ok [OF inv r p(1-3) True p(4,5) n] show ?thesis using True p(1) by (auto simp: send_ctl_handle_lost_packet_def)
next
  case False
  from handle_regular_ok [OF inv r p(1-3) False p(4,5) n, of env] show ?thesis using False p(1) by (fastforce simp: send_ctl_handle_lost_packet_def)
qed

end
