(* ===== verification/Send_Timeouts.thy ===== *)
theory Send_Timeouts
  imports Send_Loss
begin

text \<open>
  The traversals of the unacked queues: loss detection, timeouts and the scheduling of duplicates end, access only
  allocated memory and keep the invariant.
\<close>

section \<open>Feedback\<close>

lemma push_feedback_ok:
  assumes inv: "sc_inv ctl" and al: "\<not> env_alloc_fails env (sc_fresh ctl)" and v: "v \<in> {0, 1}"
  shows "\<exists>ctl'. push_feedback env ctl v = Some ctl' \<and> sc_inv ctl' \<and> sc_heap ctl' = sc_heap ctl \<and> sc_unacked_packets ctl' = sc_unacked_packets ctl
    \<and> sc_retx_frames ctl' = sc_retx_frames ctl \<and> sc_reord_thresh ctl' = sc_reord_thresh ctl
    \<and> sc_n_in_flight_all ctl' = sc_n_in_flight_all ctl \<and> shrinks ctl ctl'"
proof -
  note a = sc_invD(3) [OF inv, unfolded art_ok_def]
  have view: "sc_view (sc_heap ctl) ctl'" if "sc_fresh ctl \<le> sc_fresh ctl'" "sc_unacked_packets ctl' = sc_unacked_packets ctl"
    "sc_scheduled_packets ctl' = sc_scheduled_packets ctl" "sc_lost_packets ctl' = sc_lost_packets ctl"
    "sc_n_in_flight_all ctl' = sc_n_in_flight_all ctl" "sc_bytes_unacked_all ctl' = sc_bytes_unacked_all ctl"
    "sc_n_in_flight_retx ctl' = sc_n_in_flight_retx ctl" "sc_retx_frames ctl' = sc_retx_frames ctl"
    "sc_n_scheduled ctl' = sc_n_scheduled ctl" "sc_bytes_scheduled ctl' = sc_bytes_scheduled ctl"
    "sc_lost_packet_number ctl' = sc_lost_packet_number ctl" for ctl'
    by (rule view_cong [OF sc_invD(1) [OF inv]]) (simp_all add: that)
  have so: "queues_sorted ctl'" if "sc_heap ctl' = sc_heap ctl" "sc_unacked_packets ctl' = sc_unacked_packets ctl" for ctl'
    using queues_sorted_same [OF that] sc_invD(4) [OF inv] by simp
  have ge: "sc_feedback_window_size ctl \<ge> sc_largest_feedback_window ctl \<longleftrightarrow> length (sc_feedback_window ctl) = 10"
    using a by (auto simp: MAX_FEEDBACK_WINDOW_SIZE_def word_le_nat_alt unsigned_of_nat take_bit_nat_eq_self)
  show ?thesis
  proof (cases "length (sc_feedback_window ctl) = 10")
    case True
    then obtain w ws where w: "sc_feedback_window ctl = w # ws" by (cases "sc_feedback_window ctl") auto
    let ?c = "ctl\<lparr>sc_feedback_window := ws @ [v]\<rparr>"
    have e: "push_feedback env ctl v = Some ?c" using True ge w by (simp add: push_feedback_def)
    have "sc_inv ?c" using inv a v w view [of ?c] so [of ?c] by (auto simp: sc_inv_def art_ok_def)
    with e show ?thesis by (intro exI [of _ ?c]) (simp add: shrinks_def)
  next
    case False
    let ?c = "ctl\<lparr>sc_fresh := sc_fresh ctl + 1, sc_feedback_window_size := sc_feedback_window_size ctl + 1,
      sc_feedback_window := sc_feedback_window ctl @ [v]\<rparr>"
    have e: "push_feedback env ctl v = Some ?c" using False ge al by (simp add: push_feedback_def malo_get_def)
    have "sc_inv ?c" using inv a v False view [of ?c] so [of ?c] by (auto simp: sc_inv_def art_ok_def)
    with e show ?thesis by (intro exI [of _ ?c]) (simp add: shrinks_def)
  qed
qed

section \<open>Steps of a traversal\<close>

lemma queue_member:
  assumes "sc_inv ctl" "p \<in> set (sc_unacked_packets ctl pns)"
  shows "\<exists>x. sc_heap ctl p = Some x \<and> po_unacked x \<and> packet_ok p x \<and> (\<not> po_poison x \<longrightarrow> po_pns x = pns)"
  using assms viewD(3,5) [OF sc_invD(1) [OF assms(1)]] by (auto simp: q_pns_def split: if_splits)

lemma next_shorter:
  assumes "distinct xs" "p \<in> set xs"
  shows "points_into xs (tailq_next xs p)" "p \<notin> set (rest xs (tailq_next xs p))"
    "length (rest xs (tailq_next xs p)) < length (rest xs (Some p))"
proof -
  show "points_into xs (tailq_next xs p)" by (rule tailq_next_points)
  have d: "distinct (rest xs (Some p))" using assms(1) by (simp add: rest_def)
  note r = rest_Some [OF assms(2)]
  show "p \<notin> set (rest xs (tailq_next xs p))" unfolding rest_tailq_next [OF assms] using d r by (metis distinct.simps(2))
  show "length (rest xs (tailq_next xs p)) < length (rest xs (Some p))" unfolding rest_tailq_next [OF assms] using r by (metis length_Cons lessI)
qed

lemma loss_step_refl: "sc_inv ctl \<Longrightarrow> rounds_left ctl \<Longrightarrow> points_into (sc_unacked_packets ctl pns) next \<Longrightarrow> loss_step pns next ctl ctl next"
  by (simp add: loss_step_def)

lemma loss_step_trans:
  assumes "loss_step pns n ctl c1 n1" "loss_step pns n1 c1 c2 n2"
  shows "loss_step pns n ctl c2 n2"
proof -
  have sh: "shrinks ctl c1" "shrinks c1 c2" using assms by (auto simp: loss_step_def)
  have "q \<in> set (rest (sc_unacked_packets c2 pns) n2)"
    if "sc_heap c2 q = Some y" "awaits_ack (sc_retx_frames ctl) y" "q \<in> set (rest (sc_unacked_packets ctl pns) n)" for q y
  proof -
    have f: "sc_retx_frames c1 = sc_retx_frames ctl" using sh(1) by (simp add: shrinks_def)
    from sh(2) that(1,2) obtain x where "sc_heap c1 q = Some x" "awaits_ack (sc_retx_frames ctl) x" unfolding shrinks_def f by blast
    with assms(1) that(3) have "q \<in> set (rest (sc_unacked_packets c1 pns) n1)" by (auto simp: loss_step_def)
    with assms(2) that(1,2) f show ?thesis by (auto simp: loss_step_def)
  qed
  with assms shrinks_trans [OF sh] show ?thesis by (auto simp: loss_step_def)
qed

lemma touch_packet:
  assumes inv: "sc_inv ctl" and r: "rounds_left ctl" and p: "sc_heap ctl p = Some x" and t: "touched x (f x)"
    and n: "points_into (sc_unacked_packets ctl pns) next"
  shows "\<exists>ctl'. upd_packet p f ctl = Some ctl' \<and> sc_heap ctl' = (sc_heap ctl)(p \<mapsto> f x) \<and> loss_step pns next ctl ctl' next
    \<and> sc_unacked_packets ctl' = sc_unacked_packets ctl"
proof -
  let ?c = "ctl\<lparr>sc_heap := (sc_heap ctl)(p \<mapsto> f x)\<rparr>"
  have th: "touched_heap (sc_heap ctl) ((sc_heap ctl)(p \<mapsto> f x))" by (rule touched_heap_upd1) (use p t in auto)
  have v: "sc_view (sc_heap ctl) ?c" by (rule view_cong [OF sc_invD(1) [OF inv]]) simp_all
  have "queues_sorted ?c"
    by (rule queues_sorted_cong [OF sc_invD(4) [OF inv]])
      (use sc_invD(4) [OF inv] pn_touched [of ctl "{}" ?c] th in \<open>simp add: queues_sorted_def\<close>)
  then have "sc_inv ?c" using touched_view [OF v th] touched_chains [OF sc_invD(2) [OF inv] th] sc_invD(3) [OF inv]
    by (simp add: sc_inv_def art_ok_def)
  moreover have "rounds_left ?c" by (rule touched_rounds [of ctl "{}", OF r]) (simp add: th)
  moreover have "shrinks ctl ?c" by (rule shrinks_touched [of ctl "{}"]) (simp_all add: th)
  ultimately show ?thesis using p n by (intro exI [of _ ?c]) (simp add: upd_packet_def loss_step_def)
qed

lemma overdue_record_ok:
  assumes inv: "sc_inv ctl" and r: "rounds_left ctl" and al: "\<And>q. \<not> env_alloc_fails env q" and p: "sc_heap ctl p = Some x"
    and n: "points_into (sc_unacked_packets ctl pns) next"
  shows "\<exists>ctl'. overdue_record env ctl p = Some ctl' \<and> loss_step pns next ctl ctl' next"
proof (cases "po_fake_loss_rec x = 1 \<and> po_feedback_recorded x = 0")
  case True
  from push_feedback_ok [OF inv al, of 1] obtain c1 where
    c: "push_feedback env ctl 1 = Some c1" "sc_inv c1" "sc_heap c1 = sc_heap ctl" "sc_unacked_packets c1 = sc_unacked_packets ctl" "shrinks ctl c1" by auto
  have "rounds_left c1" using r by (simp add: rounds_left_def c(3))
  from touch_packet [OF c(2) this, of p x "\<lambda>x. x\<lparr>po_feedback_recorded := 1\<rparr>" pns "next"] p n c(3,4) obtain c2 where
    c2: "upd_packet p (\<lambda>x. x\<lparr>po_feedback_recorded := 1\<rparr>) c1 = Some c2" "loss_step pns next c1 c2 next" by (auto simp: touched_def)
  have "loss_step pns next ctl c2 next" by (rule loss_step_after [OF c(5) _ _ c2(2)]) (simp_all add: c(4))
  then show ?thesis using True p c c2(1) by (simp add: overdue_record_def send_ctl_record_feedback_loss_def)
next
  case False
  then have "overdue_record env ctl p = Some ctl" unfolding overdue_record_def p by auto
  then show ?thesis using loss_step_refl [OF inv r n] by blast
qed

text \<open>A packet that is found lost.\<close>

lemma detected_loss_ok:
  assumes inv: "sc_inv ctl" and r: "rounds_left ctl" and p: "sc_heap ctl p = Some x" "po_unacked x" "\<not> po_poison x" "\<not> po_loss_rec x" "po_pns x = pns"
    and n: "points_into (sc_unacked_packets ctl pns) next" "p \<notin> set (rest (sc_unacked_packets ctl pns) next)"
  shows "\<exists>c1. upd_packet p (\<lambda>x. x\<lparr>po_been_detect_loss := 1\<rparr>) ctl = Some c1
    \<and> (\<exists>ctl' b next'. send_ctl_handle_lost_packet env c1 p next = Some (ctl', b, next') \<and> loss_step pns next ctl ctl' next')
    \<and> (\<not> po_mtu_probe x \<longrightarrow> (\<exists>ctl' rec next'. send_ctl_handle_regular_lost_packet env c1 p next = Some (ctl', rec, next')
         \<and> loss_step pns next ctl ctl' next' \<and> (\<forall>q. rec = Some q \<longrightarrow> sc_heap ctl' q \<noteq> None)))"
proof -
  let ?x = "x\<lparr>po_been_detect_loss := 1\<rparr>"
  have "touched x ?x" by (simp add: touched_def)
  from touch_packet [where f = "\<lambda>x. x\<lparr>po_been_detect_loss := 1\<rparr>", OF inv r p(1) this n(1)] obtain c1 where
    c: "upd_packet p (\<lambda>x. x\<lparr>po_been_detect_loss := 1\<rparr>) ctl = Some c1" "sc_heap c1 = (sc_heap ctl)(p \<mapsto> ?x)"
    "loss_step pns next ctl c1 next" "sc_unacked_packets c1 = sc_unacked_packets ctl" by blast
  from c(3) have i: "sc_inv c1" "rounds_left c1" by (auto simp: loss_step_def)
  have px: "sc_heap c1 p = Some ?x" "po_unacked ?x" "\<not> po_poison ?x" "\<not> po_loss_rec ?x" "po_pns ?x = pns" using p by (simp_all add: c(2))
  note n1 = n [folded c(4)]
  have "\<exists>ctl' b next'. send_ctl_handle_lost_packet env c1 p next = Some (ctl', b, next') \<and> loss_step pns next ctl ctl' next'"
    using handle_lost_ok [OF i px n1] loss_step_trans [OF c(3)] by blast
  moreover have "\<exists>ctl' rec next'. send_ctl_handle_regular_lost_packet env c1 p next = Some (ctl', rec, next')
         \<and> loss_step pns next ctl ctl' next' \<and> (\<forall>q. rec = Some q \<longrightarrow> sc_heap ctl' q \<noteq> None)" if "\<not> po_mtu_probe x"
  proof -
    from that have "\<not> po_mtu_probe ?x" by simp
    from handle_regular_ok [OF i px(1,2,3) this px(4,5) n1] loss_step_trans [OF c(3)] show ?thesis by blast
  qed
  ultimately show ?thesis using c(1) by blast
qed

lemma core_loss_step: "core c1 = core ctl \<Longrightarrow> loss_step pns n c1 c2 n2 \<Longrightarrow> loss_step pns n ctl c2 n2"
  by (rule loss_step_after [OF core_shrinks]) (simp_all add: core_def)

lemma mark_facked_ok:
  assumes "loss_step pns n ctl c next" "\<forall>q. rec = Some q \<longrightarrow> sc_heap c q \<noteq> None"
  shows "\<exists>c'. (case rec of None \<Rightarrow> Some c | Some r \<Rightarrow> upd_packet r (\<lambda>y. y\<lparr>po_facked := True\<rparr>) c) = Some c' \<and> loss_step pns n ctl c' next"
proof (cases rec)
  case (Some r)
  with assms obtain y where y: "sc_heap c r = Some y" by auto
  have t: "touched y (y\<lparr>po_facked := True\<rparr>)" by (simp add: touched_def)
  from assms(1) have "sc_inv c" "rounds_left c" "points_into (sc_unacked_packets c pns) next" by (auto simp: loss_step_def)
  from touch_packet [where f = "\<lambda>y. y\<lparr>po_facked := True\<rparr>", OF this(1,2) y t this(3)] Some loss_step_trans [OF assms(1)] show ?thesis by fastforce
qed (use assms in simp)

lemma detect_one_ok:
  assumes inv: "sc_inv ctl" and r: "rounds_left ctl" and al: "\<And>q. \<not> env_alloc_fails env q"
    and p: "sc_heap ctl p = Some x" "po_unacked x" "\<not> po_poison x" "packet_ok p x" "po_pns x = pns"
    and n: "points_into (sc_unacked_packets ctl pns) next" "p \<notin> set (rest (sc_unacked_packets ctl pns) next)"
  shows "\<exists>ctl' l next'. detect_one env retx p lost next ctl = Some (ctl', l, next') \<and> loss_step pns next ctl ctl' next'"
proof -
  define fack where "fack \<longleftrightarrow> po_packno x + ucast (sc_reord_thresh ctl) < sc_largest_acked_packno ctl"
  define early where "early \<longleftrightarrow> retx \<noteq> 0 \<and> has_frames x (sc_retx_frames ctl) \<and> \<not> po_mtu_probe x \<and> retx \<le> sc_largest_acked_packno ctl"
  define late where "late \<longleftrightarrow> sc_largest_acked_sent_time ctl > po_sent x + srtt (sc_rtt ctl)"
  define now where "now \<longleftrightarrow> \<not> po_lost x \<and> all_duplicates_sent x"
  note unfold = detect_one_def p(1) bind.bind_lunit fack_def [symmetric] early_def [symmetric] late_def [symmetric] now_def [symmetric]
  note same = loss_step_refl [OF inv r n(1)]
  have ov: "\<exists>ctl'. overdue_record env ctl p = Some ctl' \<and> loss_step pns next ctl ctl' next" by (rule overdue_record_ok [OF inv r al p(1) n(1)])
  show ?thesis
  proof (cases "po_loss_rec x")
    case True
    then show ?thesis unfolding unfold using ov same by auto
  next
    case False
    note dl = detected_loss_ok [OF inv r p(1-3) False p(5) n, of env]
    show ?thesis
    proof (cases fack)
      case True
      show ?thesis
      proof (cases "po_mtu_probe x")
        case True
        from handle_mtu_ok [OF inv r p(1-3) True False p(5) n] show ?thesis
          unfolding unfold using \<open>fack\<close> False True by auto
      next
        case mtu: False
        show ?thesis
        proof (cases now)
          case True
          from dl mtu obtain c1 c2 rec next' where
            c: "upd_packet p (\<lambda>x. x\<lparr>po_been_detect_loss := 1\<rparr>) ctl = Some c1"
            "send_ctl_handle_regular_lost_packet env c1 p next = Some (c2, rec, next')" "loss_step pns next ctl c2 next'"
            "\<forall>q. rec = Some q \<longrightarrow> sc_heap c2 q \<noteq> None" by blast
          from mark_facked_ok [OF c(3,4)] obtain c3 where
            m: "(case rec of None \<Rightarrow> Some c2 | Some r \<Rightarrow> upd_packet r (\<lambda>y. y\<lparr>po_facked := True\<rparr>) c2) = Some c3" "loss_step pns next ctl c3 next'" by blast
          have "detect_one env retx p lost next ctl = Some (c3, po_packno x, next')"
            unfolding unfold using \<open>fack\<close> False mtu True c(1,2) m(1) by simp
          with m(2) show ?thesis by blast
        next
          case now: False
          have "detect_one env retx p lost next ctl = Some (ctl, po_packno x, next)"
            unfolding unfold using \<open>fack\<close> False mtu now by simp
          with same show ?thesis by blast
        qed
      qed
    next
      case nf: False
      show ?thesis
      proof (cases early)
        case True
        define c0 where "c0 = ctl\<lparr>sc_loss_to := srtt (sc_rtt ctl) div 4\<rparr>"
        have co: "core c0 = core ctl" "sc_fresh c0 = sc_fresh ctl" by (simp_all add: c0_def core_def)
        have i0: "sc_inv c0" "rounds_left c0" using core_inv [OF co(1)] core_rounds [OF co(1)] inv r co(2) by simp_all
        have f0: "sc_heap c0 = sc_heap ctl" "sc_unacked_packets c0 = sc_unacked_packets ctl" by (simp_all add: c0_def)
        note p0 = p [folded f0(1)] and n0 = n [folded f0(2)]
        have sum: "\<exists>ctl' l next'. (if now then do { c \<leftarrow> upd_packet p (\<lambda>x. x\<lparr>po_been_detect_loss := 1\<rparr>) c0; (c, _, next) \<leftarrow> send_ctl_handle_lost_packet env c p next;
              Some (c, po_packno x, next) } else Some (c0, po_packno x, next)) = Some (ctl', l, next') \<and> loss_step pns next c0 ctl' next'"
          using detected_loss_ok [OF i0 p0(1-3) False p0(5) n0, of env] loss_step_refl [OF i0 n0(1)] by auto
        have "detect_one env retx p lost next ctl = (if now then do { c \<leftarrow> upd_packet p (\<lambda>x. x\<lparr>po_been_detect_loss := 1\<rparr>) c0; (c, _, next) \<leftarrow> send_ctl_handle_lost_packet env c p next;
              Some (c, po_packno x, next) } else Some (c0, po_packno x, next))"
          unfolding unfold using nf True False by (simp add: c0_def Let_def)
        with sum core_loss_step [OF co(1)] show ?thesis by metis
      next
        case ne: False
        show ?thesis unfolding unfold using nf ne False same dl by (auto simp: Let_def)
      qed
    qed
  qed
qed

section \<open>Traversals\<close>

text \<open>The traversals end: what is left to see becomes shorter.\<close>

lemma detect_losses_loop_ok:
  assumes "sc_inv ctl" "rounds_left ctl" "\<And>q. \<not> env_alloc_fails env q" "points_into (sc_unacked_packets ctl pns) cur"
  shows "\<exists>ctl' l. detect_losses_loop env pns retx cur lost ctl = Some (ctl', l) \<and> sc_inv ctl' \<and> rounds_left ctl' \<and> shrinks ctl ctl'"
  using assms
proof (induction "length (rest (sc_unacked_packets ctl pns) cur)" arbitrary: ctl cur lost rule: less_induct)
  case less
  show ?case
  proof (cases cur)
    case None
    then show ?thesis using less.prems by (simp add: detect_losses_loop.simps)
  next
    case (Some p)
    with less.prems(4) have pm: "p \<in> set (sc_unacked_packets ctl pns)" by simp
    from queue_member [OF less.prems(1) pm] obtain x where
      x: "sc_heap ctl p = Some x" "po_unacked x" "packet_ok p x" "\<not> po_poison x \<longrightarrow> po_pns x = pns" by blast
    let ?next = "tailq_next (sc_unacked_packets ctl pns) p"
    note d = viewD(4) [OF sc_invD(1) [OF less.prems(1)], of pns]
    note n = next_shorter [OF d pm]
    show ?thesis
    proof (cases "po_packno x > sc_largest_acked_packno ctl")
      case True
      then show ?thesis using less.prems Some x(1) by (simp add: detect_losses_loop.simps)
    next
      case False
      have "\<exists>c l nx. (if po_poison x then Some (ctl, lost, ?next) else detect_one env retx p lost ?next ctl) = Some (c, l, nx) \<and> loss_step pns ?next ctl c nx"
        using detect_one_ok [OF less.prems(1,2) less.prems(3) x(1,2) _ x(3) _ n(1,2)] x(4) loss_step_refl [OF less.prems(1,2) n(1)] by auto
      then obtain c l nx where c: "(if po_poison x then Some (ctl, lost, ?next) else detect_one env retx p lost ?next ctl) = Some (c, l, nx)"
        and ls: "loss_step pns ?next ctl c nx" by blast
      have "length (rest (sc_unacked_packets c pns) nx) < length (rest (sc_unacked_packets ctl pns) cur)"
        using ls n(3) Some by (simp add: loss_step_def)
      with less.hyps ls less.prems(3) have "\<exists>ctl' l'. detect_losses_loop env pns retx nx l c = Some (ctl', l') \<and> sc_inv ctl' \<and> rounds_left ctl' \<and> shrinks c ctl'"
        by (simp add: loss_step_def)
      moreover have "detect_losses_loop env pns retx cur lost ctl = detect_losses_loop env pns retx nx l c"
        by (subst detect_losses_loop.simps) (use Some x(1) False c in \<open>simp add: Let_def\<close>)
      moreover have "shrinks ctl c" using ls by (simp add: loss_step_def)
      ultimately show ?thesis using shrinks_trans by fastforce
    qed
  qed
qed

lemma expire_loop_ok:
  assumes "sc_inv ctl" "rounds_left ctl" "points_into (sc_unacked_packets ctl pns) cur"
    and sel: "\<And>p x. packet_ok p x \<Longrightarrow> sel x \<Longrightarrow> \<not> po_loss_rec x \<and> \<not> po_poison x"
  shows "\<exists>ctl'. expire_loop env pns sel cur ctl = Some ctl' \<and> sc_inv ctl' \<and> rounds_left ctl' \<and> shrinks ctl ctl'
    \<and> ((\<forall>x. awaits_ack (sc_retx_frames ctl) x \<longrightarrow> sel x) \<longrightarrow>
         (\<forall>q y. sc_heap ctl' q = Some y \<longrightarrow> awaits_ack (sc_retx_frames ctl) y \<longrightarrow> q \<notin> set (rest (sc_unacked_packets ctl pns) cur)))"
  using assms(1-3)
proof (induction "length (rest (sc_unacked_packets ctl pns) cur)" arbitrary: ctl cur rule: less_induct)
  case less
  show ?case
  proof (cases cur)
    case None
    then show ?thesis using less.prems by (simp add: expire_loop.simps)
  next
    case (Some p)
    with less.prems(3) have pm: "p \<in> set (sc_unacked_packets ctl pns)" by simp
    from queue_member [OF less.prems(1) pm] obtain x where
      x: "sc_heap ctl p = Some x" "po_unacked x" "packet_ok p x" "\<not> po_poison x \<longrightarrow> po_pns x = pns" by blast
    let ?next = "tailq_next (sc_unacked_packets ctl pns) p"
    note n = next_shorter [OF viewD(4) [OF sc_invD(1) [OF less.prems(1)], of pns] pm]
    let ?step = "if sel x then do { (ctl, _, next) \<leftarrow> send_ctl_handle_lost_packet env ctl p ?next; Some (ctl, next) } else Some (ctl, ?next)"
    have "\<exists>c nx. ?step = Some (c, nx) \<and> loss_step pns ?next ctl c nx \<and> (sel x \<longrightarrow> (\<forall>y. sc_heap c p = Some y \<longrightarrow> \<not> po_unacked y))"
    proof (cases "sel x")
      case True
      with sel x(3,4) have s: "\<not> po_loss_rec x" "\<not> po_poison x" "po_pns x = pns" by auto
      from handle_lost_ok [OF less.prems(1,2) x(1,2) s(2,1,3) n(1,2), of env] True show ?thesis by auto
    next
      case False
      with loss_step_refl [OF less.prems(1,2) n(1)] show ?thesis by simp
    qed
    then obtain c nx where c: "?step = Some (c, nx)" and ls: "loss_step pns ?next ctl c nx"
      and pu: "sel x \<longrightarrow> (\<forall>y. sc_heap c p = Some y \<longrightarrow> \<not> po_unacked y)" by blast
    have sh: "shrinks ctl c" and f: "sc_retx_frames c = sc_retx_frames ctl" using ls by (auto simp: loss_step_def shrinks_def)
    have "length (rest (sc_unacked_packets c pns) nx) < length (rest (sc_unacked_packets ctl pns) cur)"
      using ls n(3) Some by (simp add: loss_step_def)
    with less.hyps ls obtain ctl' where l: "expire_loop env pns sel nx c = Some ctl'" "sc_inv ctl'" "rounds_left ctl'" "shrinks c ctl'"
      "(\<forall>x. awaits_ack (sc_retx_frames ctl) x \<longrightarrow> sel x) \<longrightarrow>
         (\<forall>q y. sc_heap ctl' q = Some y \<longrightarrow> awaits_ack (sc_retx_frames ctl) y \<longrightarrow> q \<notin> set (rest (sc_unacked_packets c pns) nx))"
      unfolding loss_step_def f [symmetric] by blast
    have e: "expire_loop env pns sel cur ctl = Some ctl'"
      by (subst expire_loop.simps) (use Some x(1) c l(1) in \<open>simp add: Let_def\<close>)
    have "q \<notin> set (rest (sc_unacked_packets ctl pns) cur)"
      if all: "\<forall>x. awaits_ack (sc_retx_frames ctl) x \<longrightarrow> sel x" and q: "sc_heap ctl' q = Some y" "awaits_ack (sc_retx_frames ctl) y" for q y
    proof
      assume m: "q \<in> set (rest (sc_unacked_packets ctl pns) cur)"
      from l(4) q f obtain z where z: "sc_heap c q = Some z" "awaits_ack (sc_retx_frames ctl) z" unfolding shrinks_def by metis
      from sh z obtain w where w: "sc_heap ctl q = Some w" "awaits_ack (sc_retx_frames ctl) w" unfolding shrinks_def by blast
      show False
      proof (cases "q = p")
        case True
        then have "sel x" using all w x(1) by simp
        with pu z True show False by (auto simp: awaits_ack_def)
      next
        case False
        have "rest (sc_unacked_packets ctl pns) cur = p # rest (sc_unacked_packets ctl pns) ?next"
          using rest_Some [OF pm] rest_tailq_next [OF viewD(4) [OF sc_invD(1) [OF less.prems(1)]] pm] Some by simp
        with m False have "q \<in> set (rest (sc_unacked_packets ctl pns) ?next)" by simp
        with ls z have "q \<in> set (rest (sc_unacked_packets c pns) nx)" by (auto simp: loss_step_def)
        with l(5) all q show False by blast
      qed
    qed
    then show ?thesis using e l(2,3) shrinks_trans [OF sh l(4)] by blast
  qed
qed

lemma first_points: "points_into q (first_pid q)"
  by (simp add: first_pid_def split: list.splits)

lemma detect_losses_ok:
  assumes "sc_inv ctl" "rounds_left ctl" "\<And>q. \<not> env_alloc_fails env q"
  shows "\<exists>ctl' b. send_ctl_detect_losses env ctl pns = Some (ctl', b) \<and> sc_inv ctl' \<and> rounds_left ctl' \<and> shrinks ctl ctl'"
proof -
  let ?c = "ctl\<lparr>sc_loss_to := 0\<rparr>"
  have co: "core ?c = core ctl" by (simp add: core_def)
  note s1 = core_shrinks [OF co]
  have "sc_inv ?c" "rounds_left ?c" using core_inv [OF co] core_rounds [OF co] assms by simp_all
  from detect_losses_loop_ok [OF this assms(3), of pns "first_pid (sc_unacked_packets ctl pns)" "largest_retx_packet_number ctl pns" 0] first_points
  obtain c l where c: "detect_losses_loop env pns (largest_retx_packet_number ctl pns) (first_pid (sc_unacked_packets ctl pns)) 0 ?c = Some (c, l)"
    "sc_inv c" "rounds_left c" "shrinks ?c c" by auto
  let ?d = "if l > sc_largest_sent_at_cutback c then send_ctl_loss_event c else c"
  have co: "core ?d = core c" by (simp add: core_def send_ctl_loss_event_def)
  have "sc_fresh c \<le> sc_fresh ?d" by (simp add: send_ctl_loss_event_def)
  then have "sc_inv ?d" "rounds_left ?d" using core_inv [OF co] core_rounds [OF co] c(2,3) by simp_all
  moreover have "shrinks ctl ?d" by (rule shrinks_trans [OF shrinks_trans [OF s1 c(4)] core_shrinks [OF co]])
  ultimately show ?thesis using c(1) by (simp add: send_ctl_detect_losses_def Let_def)
qed

lemma expire_ok:
  assumes "sc_inv ctl" "rounds_left ctl"
  shows "\<exists>ctl'. send_ctl_expire env ctl pns fil = Some ctl' \<and> sc_inv ctl' \<and> rounds_left ctl' \<and> shrinks ctl ctl'
    \<and> (fil = EXFI_ALL \<longrightarrow> (\<forall>p y. sc_heap ctl' p = Some y \<longrightarrow> awaits_ack (sc_retx_frames ctl) y \<longrightarrow> po_pns y \<noteq> pns))"
proof (cases fil)
  case EXFI_ALL
  from expire_loop_ok [OF assms, of pns "first_pid (sc_unacked_packets ctl pns)" "\<lambda>x. \<not> po_loss_rec x \<and> \<not> po_poison x" env] first_points
  obtain ctl' where c: "send_ctl_expire env ctl pns fil = Some ctl'" "sc_inv ctl'" "rounds_left ctl'" "shrinks ctl ctl'"
    "\<And>q y. sc_heap ctl' q = Some y \<Longrightarrow> awaits_ack (sc_retx_frames ctl) y \<Longrightarrow> q \<notin> set (rest (sc_unacked_packets ctl pns) (first_pid (sc_unacked_packets ctl pns)))"
    using EXFI_ALL by (auto simp: send_ctl_expire_def awaits_ack_def)
  have "po_pns y \<noteq> pns" if y: "sc_heap ctl' p = Some y" "awaits_ack (sc_retx_frames ctl) y" for p y
  proof
    assume "po_pns y = pns"
    with c(4) y obtain x where "sc_heap ctl p = Some x" "awaits_ack (sc_retx_frames ctl) x" "po_pns x = pns" unfolding shrinks_def by metis
    then have "p \<in> set (sc_unacked_packets ctl pns)" using viewD(5) [OF sc_invD(1) [OF assms(1)]] by (auto simp: awaits_ack_def q_pns_def)
    then show False using c(5) [OF y] by (cases "sc_unacked_packets ctl pns") (auto simp: first_pid_def rest_def)
  qed
  with c show ?thesis by blast
next
  case EXFI_HSK
  then show ?thesis using expire_loop_ok [OF assms, of pns "first_pid (sc_unacked_packets ctl pns)" po_hello env] first_points
    by (fastforce simp: send_ctl_expire_def packet_ok_def)
next
  case EXFI_LAST
  show ?thesis
  proof (cases "send_ctl_last_unacked_retx_packet ctl pns")
    case None
    then show ?thesis using EXFI_LAST assms by (simp add: send_ctl_expire_def)
  next
    case (Some p)
    then have p: "p \<in> set (sc_unacked_packets ctl pns)" "retx_candidate ctl p"
      by (auto simp: send_ctl_last_unacked_retx_packet_def find_Some_iff) (metis in_set_conv_nth length_rev nth_mem set_rev)
    from queue_member [OF assms(1) p(1)] obtain x where
      x: "sc_heap ctl p = Some x" "po_unacked x" "packet_ok p x" "\<not> po_poison x \<longrightarrow> po_pns x = pns" by blast
    with p(2) have s: "\<not> po_loss_rec x" "\<not> po_poison x" "po_pns x = pns" by (auto simp: retx_candidate_def)
    from handle_lost_ok [OF assms x(1,2) s(2,1,3), of None env] Some EXFI_LAST show ?thesis
      by (auto simp: send_ctl_expire_def loss_step_def)
  qed
qed

end
