(* ===== verification/Send_Acks.thy ===== *)
theory Send_Acks
  imports Send_Timeouts
begin

text \<open>
  Acknowledgements: processing an ACK frame ends, keeps the invariant and destroys exactly the packets whose chain
  has a member with an acknowledged number.
\<close>

section \<open>The pointer into the ranges\<close>

text \<open>The highest range comes first; a number is acknowledged if a range has it.\<close>

definition ranges_ok :: "packno_range list \<Rightarrow> bool" where
  "ranges_ok rs \<longleftrightarrow> rs \<noteq> [] \<and> (\<forall>j < length rs. pr_low (rs ! j) \<le> pr_high (rs ! j))
     \<and> (\<forall>i j. i < j \<longrightarrow> j < length rs \<longrightarrow> pr_high (rs ! j) < pr_low (rs ! i))"

definition acked_no :: "packno_range list \<Rightarrow> packno \<Rightarrow> bool" where
  "acked_no rs n \<longleftrightarrow> (\<exists>r \<in> set rs. pr_low r \<le> n \<and> n \<le> pr_high r)"

declare dec_range.simps [simp del]

lemma dec_range_ok:
  assumes "n \<le> pr_high (rs ! 0)" "\<And>j. i < j \<Longrightarrow> j < length rs \<Longrightarrow> pr_high (rs ! j) < n"
  shows "\<exists>k \<le> i. dec_range rs i n = Some k \<and> n \<le> pr_high (rs ! k) \<and> (\<forall>j. k < j \<longrightarrow> j < length rs \<longrightarrow> pr_high (rs ! j) < n)"
  using assms(2)
proof (induction i)
  case 0
  then show ?case using assms(1) by (simp add: dec_range.simps)
next
  case (Suc i)
  show ?case
  proof (cases "pr_high (rs ! Suc i) < n")
    case True
    then have "\<And>j. i < j \<Longrightarrow> j < length rs \<Longrightarrow> pr_high (rs ! j) < n" using Suc.prems by (metis Suc_lessI)
    from Suc.IH [OF this] obtain k where k: "k \<le> i" "dec_range rs i n = Some k" "n \<le> pr_high (rs ! k)"
      "\<forall>j. k < j \<longrightarrow> j < length rs \<longrightarrow> pr_high (rs ! j) < n" by blast
    have "dec_range rs (Suc i) n = Some k" using True k(2) by (subst dec_range.simps) simp
    with k show ?thesis by (intro exI [of _ k]) simp
  next
    case False
    then have "dec_range rs (Suc i) n = Some (Suc i)" by (subst dec_range.simps) simp
    with False Suc.prems show ?thesis by (intro exI [of _ "Suc i"]) auto
  qed
qed

lemma range_hit:
  assumes ok: "ranges_ok rs" and k: "k < length rs" "n \<le> pr_high (rs ! k)" "\<And>j. k < j \<Longrightarrow> j < length rs \<Longrightarrow> pr_high (rs ! j) < n"
  shows "acked_no rs n \<longleftrightarrow> pr_low (rs ! k) \<le> n"
proof
  assume "acked_no rs n"
  then obtain j where j: "j < length rs" "pr_low (rs ! j) \<le> n" "n \<le> pr_high (rs ! j)" by (auto simp: acked_no_def in_set_conv_nth)
  have "\<not> k < j" using k(3) [of j] j by auto
  moreover have "\<not> j < k"
  proof
    assume "j < k"
    then have "pr_high (rs ! k) < pr_low (rs ! j)" using ok k(1) by (auto simp: ranges_ok_def)
    then show False using j(2) k(2) by simp
  qed
  ultimately show "pr_low (rs ! k) \<le> n" using j by (metis linorder_neqE_nat)
next
  assume "pr_low (rs ! k) \<le> n"
  then show "acked_no rs n" using k by (auto simp: acked_no_def)
qed

section \<open>Chains as sets\<close>

definition chain_of :: "(pid \<Rightarrow> sc_packet option) \<Rightarrow> pid \<Rightarrow> pid set" where
  "chain_of h p = {q. \<exists>ys. cyc (nx h) p ys \<and> q \<in> set (p # ys)}"

lemma cyc_unique: "cyc h p ys \<Longrightarrow> cyc h p zs \<Longrightarrow> set (p # ys) = set (p # zs)"
proof -
  have sub: "set (p # ys) \<subseteq> set (p # zs)" if "cyc h p ys" "cyc h p zs" for ys zs
  proof
    fix q assume "q \<in> set (p # ys)"
    have closed: "a \<in> set (p # zs) \<Longrightarrow> h a = Some b \<Longrightarrow> b \<in> set (p # zs)" for a b by (rule cyc_closed [OF that(2)])
    show "q \<in> set (p # zs)"
    proof (cases "q = p")
      case False
      with \<open>q \<in> set (p # ys)\<close> obtain as bs where "ys = as @ q # bs" by (auto simp: in_set_conv_decomp)
      then have "links h p as q" using that(1) by (simp add: cyc_def links_append)
      from links_stay [OF this, of "set (p # zs)"] closed show ?thesis by (metis list.set_intros(1))
    qed simp
  qed
  assume "cyc h p ys" "cyc h p zs"
  then show ?thesis using sub by blast
qed

lemma chain_of_cyc: "cyc (nx h) p ys \<Longrightarrow> chain_of h p = set (p # ys)"
  unfolding chain_of_def using cyc_unique [of "nx h" p ys] by blast

lemma chain_of_self: "chains h \<Longrightarrow> p \<in> dom h \<Longrightarrow> p \<in> chain_of h p"
  unfolding chains_def all_cyc_def dom_nx chain_of_def by auto

lemma chain_of_member:
  assumes "cyc (nx h) p ys" "q \<in> chain_of h p"
  shows "chain_of h q = chain_of h p"
proof (cases "q = p")
  case False
  note e = chain_of_cyc [OF assms(1)]
  from False assms(2) e have "q \<in> set ys" by simp
  from cyc_rotate [OF assms(1) this] obtain zs where zs: "cyc (nx h) q zs" "set (q # zs) = set (p # ys)" by blast
  show ?thesis unfolding e zs(2) [symmetric] by (rule chain_of_cyc [OF zs(1)])
qed simp

lemma chain_of_other:
  assumes "chains h" "cyc (nx h) p ys" "touched_heap (without h (set (p # ys))) h'" "q \<in> dom h'"
  shows "chain_of h' q = chain_of h q"
proof -
  from assms(4) obtain y where "h' q = Some y" by auto
  from touched_heapD2 [OF assms(3) this] have q: "q \<notin> set (p # ys)" "q \<in> dom h" by (auto simp: without_def split: if_splits)
  then obtain zs where zs: "cyc (nx h) q zs" using assms(1) unfolding chains_def all_cyc_def dom_nx by blast
  have dj: "set (p # ys) \<inter> set (q # zs) = {}" by (rule cyc_disjoint [OF assms(2) zs q(1)])
  have "nx h' z = nx h z" if "z \<in> set (q # zs)" for z
  proof -
    from that dj have "z \<notin> set (p # ys)" by auto
    then have "rel_option touched (h z) (h' z)" using assms(3) unfolding touched_heap_def without_def by (metis (full_types))
    then show ?thesis by (cases "h z"; cases "h' z") (auto simp: nx_def touched_members)
  qed
  then have "cyc (nx h') q zs" using zs unfolding cyc_def by (subst links_cong [of _ _ _ "nx h"]) auto
  then show ?thesis using chain_of_cyc zs by metis
qed

section \<open>One acknowledged packet\<close>

lemma record_leaves_view:
  assumes v: "sc_view (sc_heap ctl) ctl" and p: "sc_heap ctl p = Some x" "po_unacked x" "po_loss_rec x" "po_pns x = pns"
    and c: "ctl' = ctl\<lparr>sc_n_in_flight_all := sc_n_in_flight_all ctl - w_all x, sc_bytes_unacked_all := sc_bytes_unacked_all ctl - w_bytes x,
      sc_unacked_packets := (sc_unacked_packets ctl)(pns := remove1 p (sc_unacked_packets ctl pns)), sc_reord_thresh := th\<rparr>"
  shows "sc_view ((sc_heap ctl)(p := None)) ctl'"
proof -
  have ok: "packet_ok p x" by (rule viewD(3) [OF v p(1)])
  then have f: "\<not> po_sched x" "\<not> po_lost x" "\<not> po_poison x" using p by (auto simp: packet_ok_def)
  have "p \<notin> set (sc_scheduled_packets ctl)" "p \<notin> set (sc_lost_packets ctl)" using viewD(7,9) [OF v] p f by auto
  then show ?thesis by (intro view_gone [OF v p(1)])
    (use f p in \<open>simp_all add: c q_pns_def w_retx_def w_sched_def w_sbytes_def w_lost_def remove1_idem\<close>)
qed

text \<open>The packet is in no queue any more when its chain is destroyed.\<close>

lemma acked_leaves_ok:
  assumes inv: "sc_inv ctl" and r: "rounds_left ctl" and p: "sc_heap ctl p = Some x" "po_unacked x" "\<not> po_poison x" "po_pns x = pns"
    and n: "points_into (sc_unacked_packets ctl pns) next" "p \<notin> set (rest (sc_unacked_packets ctl pns) next)"
  shows "\<exists>ctl1. acked_leaves env ctl pns prev p x = Some (Some ctl1) \<and> chains (sc_heap ctl1) \<and> art_ok ctl1 \<and> queues_sorted ctl1
    \<and> sc_view ((sc_heap ctl1)(p := None)) ctl1 \<and> rounds_left ctl1 \<and> (\<exists>b. sc_heap ctl1 = (sc_heap ctl)(p \<mapsto> x\<lparr>po_unacked := b\<rparr>))
    \<and> points_into (sc_unacked_packets ctl1 pns) next \<and> rest (sc_unacked_packets ctl1 pns) next = rest (sc_unacked_packets ctl pns) next
    \<and> sc_unacked_packets ctl1 = (sc_unacked_packets ctl)(pns := remove1 p (sc_unacked_packets ctl pns)) \<and> shrinks ctl ctl1"
proof (cases "po_loss_rec x")
  case False
  have sh: "shrinks ctl c" if "sc_heap c = (sc_heap ctl)(p \<mapsto> x\<lparr>po_unacked := False\<rparr>)" "kept c = kept ctl" for c
    using that p(1) by (auto simp: shrinks_def kept_def awaits_ack_def)
  from unacked_leaves [OF inv r p(1-3) False p(4) n] show ?thesis
    using False p(3) sh by (fastforce simp: acked_leaves_def)
next
  case True
  note v = sc_invD(1) [OF inv]
  have ok: "packet_ok p x" by (rule viewD(3) [OF v p(1)])
  then have hs: "po_has_sent_sz x" using True by (simp add: packet_ok_def)
  define th where "th = (if po_facked x \<and> po_packno x + ucast (sc_reord_thresh ctl) < prev then ucast (prev - po_packno x) else sc_reord_thresh ctl)"
  define ctl1 where "ctl1 = ctl\<lparr>sc_n_in_flight_all := sc_n_in_flight_all ctl - w_all x, sc_bytes_unacked_all := sc_bytes_unacked_all ctl - w_bytes x,
      sc_unacked_packets := (sc_unacked_packets ctl)(pns := remove1 p (sc_unacked_packets ctl pns)), sc_reord_thresh := th\<rparr>"
  have e: "acked_leaves env ctl pns prev p x = Some (Some ctl1)"
    using True hs p(2,3) by (simp add: acked_leaves_def set_unacked_def send_ctl_maybe_increase_reord_thresh_def weights
        packet_out_sent_sz_def ctl1_def th_def Let_def)
  have h: "sc_heap ctl1 = sc_heap ctl" "sc_unacked_packets ctl1 = (sc_unacked_packets ctl)(pns := remove1 p (sc_unacked_packets ctl pns))"
    by (simp_all add: ctl1_def)
  have "sc_view ((sc_heap ctl)(p := None)) ctl1" by (rule record_leaves_view [OF v p(1,2) True p(4) ctl1_def])
  moreover have "art_ok ctl1" using sc_invD(3) [OF inv] by (simp add: art_ok_def ctl1_def)
  moreover have "queues_sorted ctl1"
    by (rule queues_sorted_cong [OF sc_invD(4) [OF inv]]) (use sc_invD(4) [OF inv] in \<open>auto simp: queues_sorted_def sorted_map_remove1 h pn_def\<close>)
  moreover have "rounds_left ctl1" using r by (simp add: rounds_left_def h)
  moreover have "sc_heap ctl1 = (sc_heap ctl)(p \<mapsto> x\<lparr>po_unacked := True\<rparr>)" using p(1,2) by (auto simp: h)
  moreover have "shrinks ctl ctl1" by (simp add: shrinks_def ctl1_def)
  ultimately show ?thesis using e sc_invD(2) [OF inv] rest_remove1_other [OF viewD(4) [OF v] n] h
    by (intro exI [of _ ctl1]) auto
qed

definition gone :: "packnum_space \<Rightarrow> pid set \<Rightarrow> send_ctl \<Rightarrow> send_ctl \<Rightarrow> bool" where
  "gone pns D ctl ctl' \<longleftrightarrow> touched_heap (without (sc_heap ctl) D) (sc_heap ctl')
     \<and> sc_unacked_packets ctl' = (sc_unacked_packets ctl)(pns := filter (\<lambda>q. q \<notin> D) (sc_unacked_packets ctl pns))"

lemma ack_one_ok:
  assumes inv: "sc_inv ctl" and r: "rounds_left ctl" and al: "\<And>q. \<not> env_alloc_fails env q"
    and p: "sc_heap ctl p = Some x" "po_unacked x" "\<not> po_poison x" "po_pns x = pns" and ai: "ai_pns acki = pns"
    and n: "points_into (sc_unacked_packets ctl pns) next" "p \<notin> set (rest (sc_unacked_packets ctl pns) next)"
  shows "\<exists>ctl' acc' next'. ack_one env acki prev p next acc ctl = Some (ctl', True, acc', next') \<and> loss_step pns next ctl ctl' next'
    \<and> gone pns (chain_of (sc_heap ctl) p) ctl ctl'
    \<and> rest (sc_unacked_packets ctl' pns) next' = filter (\<lambda>q. q \<notin> chain_of (sc_heap ctl) p) (rest (sc_unacked_packets ctl pns) next)"
proof -
  define c0 where "c0 = ctl\<lparr>sc_largest_acked_packno := po_packno x, sc_largest_acked_sent_time := po_sent x\<rparr>"
  have co: "core c0 = core ctl" "sc_fresh ctl \<le> sc_fresh c0" by (simp_all add: c0_def core_def)
  note i0 = core_inv [OF co inv] core_rounds [OF co(1) r]
  have f0: "sc_heap c0 = sc_heap ctl" "sc_unacked_packets c0 = sc_unacked_packets ctl" by (simp_all add: c0_def)
  have "\<exists>c1. (if po_fake_loss_rec x = 1 then push_feedback env c0 0 else Some c0) = Some c1 \<and> sc_inv c1
      \<and> sc_heap c1 = sc_heap ctl \<and> sc_unacked_packets c1 = sc_unacked_packets ctl \<and> shrinks ctl c1"
    using push_feedback_ok [OF i0(1) al, of 0] i0(1) f0 shrinks_trans [OF core_shrinks [OF co(1)]] core_shrinks [OF co(1)] by auto
  then obtain c1 where c1: "(if po_fake_loss_rec x = 1 then push_feedback env c0 0 else Some c0) = Some c1" "sc_inv c1"
    "sc_heap c1 = sc_heap ctl" "sc_unacked_packets c1 = sc_unacked_packets ctl" "shrinks ctl c1" by blast
  have r1: "rounds_left c1" using r by (simp add: rounds_left_def c1(3))
  note p1 = p(1) [folded c1(3)] and n1 = n [folded c1(4)]
  from acked_leaves_ok [OF c1(2) r1 p1 p(2-4) n1] obtain c2 b where
    c2: "acked_leaves env c1 pns prev p x = Some (Some c2)" "chains (sc_heap c2)" "art_ok c2" "queues_sorted c2"
    "sc_view ((sc_heap c2)(p := None)) c2" "rounds_left c2" "sc_heap c2 = (sc_heap ctl)(p \<mapsto> x\<lparr>po_unacked := b\<rparr>)"
    "points_into (sc_unacked_packets c2 pns) next" "rest (sc_unacked_packets c2 pns) next = rest (sc_unacked_packets ctl pns) next"
    "sc_unacked_packets c2 = (sc_unacked_packets ctl)(pns := remove1 p (sc_unacked_packets ctl pns))" "shrinks c1 c2" unfolding c1(3,4) by blast
  have p2: "sc_heap c2 p = Some (x\<lparr>po_unacked := b\<rparr>)" "po_pns (x\<lparr>po_unacked := b\<rparr>) = pns" using p(4) by (simp_all add: c2(7))
  from leave_and_destroy [OF c2(2-6) p2 c2(8)] obtain c3 next' ctl' ys where
    d: "send_ctl_destroy_chain c2 p next = Some (c3, next')" "send_ctl_destroy_packet c3 p = Some ctl'" "loss_step pns next c2 ctl' next'"
    "cyc (nx (sc_heap c2)) p ys" "touched_heap (without (sc_heap c2) (set (p # ys))) (sc_heap ctl')"
    "sc_unacked_packets ctl' = (sc_unacked_packets c2)(pns := filter (\<lambda>q. q \<notin> set ys) (sc_unacked_packets c2 pns))"
    "rest (sc_unacked_packets ctl' pns) next' = filter (\<lambda>q. q \<notin> set ys) (rest (sc_unacked_packets c2 pns) next)" by blast
  have "nx (sc_heap c2) = nx (sc_heap ctl)" using p(1) by (auto simp: c2(7) nx_def)
  then have ch: "chain_of (sc_heap ctl) p = set (p # ys)" using chain_of_cyc d(4) by metis
  have dist: "distinct (sc_unacked_packets ctl pns)" by (rule viewD(4) [OF sc_invD(1) [OF inv]])
  have f1: "filter (\<lambda>q. q \<notin> set ys) (remove1 p xs) = filter (\<lambda>q. q \<notin> set (p # ys)) xs" if "distinct xs" for xs
    using that by (auto simp: distinct_remove1_removeAll removeAll_filter_not_eq intro!: filter_cong)
  have "without (sc_heap c2) (set (p # ys)) = without (sc_heap ctl) (set (p # ys))" by (auto simp: without_def c2(7))
  then have g: "gone pns (chain_of (sc_heap ctl) p) ctl ctl'" unfolding gone_def ch using d(5,6) f1 [OF dist] by (simp add: c2(10))
  have "filter (\<lambda>q. q \<notin> set ys) (rest (sc_unacked_packets ctl pns) next) = filter (\<lambda>q. q \<notin> set (p # ys)) (rest (sc_unacked_packets ctl pns) next)"
    using n(2) by (intro filter_cong) auto
  then have rs: "rest (sc_unacked_packets ctl' pns) next' = filter (\<lambda>q. q \<notin> chain_of (sc_heap ctl) p) (rest (sc_unacked_packets ctl pns) next)"
    unfolding ch d(7) c2(9) .
  have ls: "loss_step pns next ctl ctl' next'"
    by (rule loss_step_after [OF shrinks_trans [OF c1(5) c2(11)] _ _ d(3)]) (simp_all add: c2(9))
  have "\<exists>acc'. ack_one env acki prev p next acc ctl = Some (ctl', True, acc', next')"
    unfolding ack_one_def p(1) bind.bind_lunit Let_def c0_def [symmetric] c1(1) ai c2(1) option.case d(1) prod.case d(2) by simp
  with ls g rs show ?thesis by blast
qed

lemma poison_acked:
  assumes inv: "sc_inv ctl" and p: "sc_heap ctl p = Some x" "po_poison x"
  shows "\<exists>ctl'. ack_one env acki prev p next acc ctl = Some (ctl', False, acc, next) \<and> sc_inv ctl' \<and> (rounds_left ctl \<longrightarrow> rounds_left ctl') \<and> shrinks ctl ctl'"
proof -
  have ok: "packet_ok p x" by (rule viewD(3) [OF sc_invD(1) [OF inv] p(1)])
  then have f: "po_fake_loss_rec x = 0" "\<not> po_loss_rec x" "\<not> po_mtu_probe x" using p(2) by (auto simp: packet_ok_def)
  let ?c = "ctl\<lparr>sc_largest_acked_packno := po_packno x, sc_largest_acked_sent_time := po_sent x\<rparr>"
  have "sc_inv ?c" by (rule core_inv [OF _ _ inv]) (simp_all add: core_def)
  moreover have "rounds_left ctl \<longrightarrow> rounds_left ?c" by (simp add: rounds_left_def)
  moreover have "shrinks ctl ?c" by (simp add: shrinks_def)
  ultimately show ?thesis using p f by (simp add: ack_one_def acked_leaves_def)
qed

section \<open>The loop\<close>

lemma gone_trans: "gone pns C ctl c1 \<Longrightarrow> gone pns D c1 ctl' \<Longrightarrow> gone pns (C \<union> D) ctl ctl'"
proof -
  assume a: "gone pns C ctl c1" "gone pns D c1 ctl'"
  have "touched_heap (without (sc_heap ctl) (C \<union> D)) (without (sc_heap c1) D)" unfolding touched_heap_def
  proof
    fix q
    have "rel_option touched (without (sc_heap ctl) C q) (sc_heap c1 q)" using a(1) by (simp add: gone_def touched_heap_def)
    then show "rel_option touched (without (sc_heap ctl) (C \<union> D) q) (without (sc_heap c1) D q)"
      by (auto simp: without_def split: if_splits)
  qed
  then have "touched_heap (without (sc_heap ctl) (C \<union> D)) (sc_heap ctl')" using a(2) by (auto simp: gone_def intro: touched_heap_trans)
  moreover have "sc_unacked_packets ctl' = (sc_unacked_packets ctl)(pns := filter (\<lambda>q. q \<notin> C \<union> D) (sc_unacked_packets ctl pns))"
    using a by (simp add: gone_def)
  ultimately show ?thesis by (simp add: gone_def)
qed

lemma gone_pn: "gone pns D ctl ctl' \<Longrightarrow> q \<notin> D \<Longrightarrow> pn ctl' q = pn ctl q"
  unfolding gone_def using pn_touched by blast

lemma gone_poison: "gone pns D ctl ctl' \<Longrightarrow> is_poison ctl' q \<Longrightarrow> is_poison ctl q"
proof -
  assume "gone pns D ctl ctl'" "is_poison ctl' q"
  then obtain y where t: "touched_heap (without (sc_heap ctl) D) (sc_heap ctl')" and y: "sc_heap ctl' q = Some y" "po_poison y"
    by (auto simp: gone_def is_poison_def split: option.splits)
  from touched_heapD2 [OF t y(1)] obtain x where "without (sc_heap ctl) D q = Some x" "touched x y" by blast
  then show "is_poison ctl q" using y(2) touched_members(7) [of x y] by (simp add: without_def is_poison_def split: if_splits)
qed

definition acked_chains :: "packno_range list \<Rightarrow> send_ctl \<Rightarrow> pid list \<Rightarrow> pid set" where
  "acked_chains rs ctl ps = (\<Union>q \<in> {q \<in> set ps. acked_no rs (pn ctl q)}. chain_of (sc_heap ctl) q)"

lemma acked_chains_step:
  assumes ch: "chains (sc_heap ctl)" and g: "gone pns C ctl c1" and dom: "set (p # ps) \<subseteq> dom (sc_heap ctl)"
    and C: "if acked_no rs (pn ctl p) then C = chain_of (sc_heap ctl) p else C = {}"
  shows "acked_chains rs ctl (p # ps) = C \<union> acked_chains rs c1 (filter (\<lambda>q. q \<notin> C) ps)"
proof -
  have cyc: "\<exists>ys. cyc (nx (sc_heap ctl)) q ys" if "q \<in> set (p # ps)" for q
    using that dom ch unfolding chains_def all_cyc_def dom_nx by blast
  have same: "chain_of (sc_heap c1) q = chain_of (sc_heap ctl) q" if "q \<in> set ps" "q \<notin> C" for q
  proof (cases "acked_no rs (pn ctl p)")
    case True
    obtain ys where ys: "cyc (nx (sc_heap ctl)) p ys" using cyc by auto
    have Ce: "C = set (p # ys)" using C True chain_of_cyc [OF ys] by simp
    have t: "touched_heap (without (sc_heap ctl) (set (p # ys))) (sc_heap c1)" using g Ce by (simp add: gone_def)
    have "without (sc_heap ctl) (set (p # ys)) q \<noteq> None" using that dom Ce by (auto simp: without_def)
    then have "q \<in> dom (sc_heap c1)" using touched_heap_None [OF t, of q] by auto
    then show ?thesis by (rule chain_of_other [OF ch ys t])
  next
    case False
    with C g have t: "touched_heap (sc_heap ctl) (sc_heap c1)" by (simp add: gone_def)
    have "nx (sc_heap c1) z = nx (sc_heap ctl) z" for z
      using t [unfolded touched_heap_def, rule_format, of z] by (cases "sc_heap ctl z"; cases "sc_heap c1 z") (auto simp: nx_def touched_members)
    then have "nx (sc_heap c1) = nx (sc_heap ctl)" by auto
    then show ?thesis by (simp add: chain_of_def)
  qed
  have inC: "chain_of (sc_heap ctl) q = C" if "q \<in> C" "q \<in> set (p # ps)" for q
  proof -
    have a: "C = chain_of (sc_heap ctl) p" using C that(1) by (auto split: if_splits)
    obtain ys where "cyc (nx (sc_heap ctl)) p ys" using cyc by auto
    from chain_of_member [OF this] that(1) a show ?thesis by auto
  qed
  have pn: "pn c1 q = pn ctl q" if "q \<notin> C" for q by (rule gone_pn [OF g that])
  have pC: "acked_no rs (pn ctl p) \<Longrightarrow> p \<in> C" using C cyc [of p] by (auto simp: chain_of_def)
  show ?thesis
  proof
    show "acked_chains rs ctl (p # ps) \<subseteq> C \<union> acked_chains rs c1 (filter (\<lambda>q. q \<notin> C) ps)"
    proof
      fix z assume "z \<in> acked_chains rs ctl (p # ps)"
      then obtain q where q: "q \<in> set (p # ps)" "acked_no rs (pn ctl q)" "z \<in> chain_of (sc_heap ctl) q" by (auto simp: acked_chains_def)
      show "z \<in> C \<union> acked_chains rs c1 (filter (\<lambda>q. q \<notin> C) ps)"
      proof (cases "q \<in> C")
        case True
        then show ?thesis using inC q by auto
      next
        case False
        with pC q have "q \<in> set ps" by auto
        then show ?thesis using False q same pn by (auto simp: acked_chains_def)
      qed
    qed
    show "C \<union> acked_chains rs c1 (filter (\<lambda>q. q \<notin> C) ps) \<subseteq> acked_chains rs ctl (p # ps)"
      using C same pn by (auto simp: acked_chains_def split: if_splits)
  qed
qed

lemma range_found:
  assumes ok: "ranges_ok rs" and n: "n \<le> pr_high (rs ! 0)" and i: "i < length rs" "\<And>j. i < j \<Longrightarrow> j < length rs \<Longrightarrow> pr_high (rs ! j) < n"
    and skip: "skip \<Longrightarrow> pr_low (rs ! 0) \<le> n"
  shows "\<exists>k < length rs. (if skip then Some i else dec_range rs i n) = Some k \<and> (\<forall>j. k < j \<longrightarrow> j < length rs \<longrightarrow> pr_high (rs ! j) < n)
    \<and> (skip \<or> pr_low (rs ! k) \<le> n \<longleftrightarrow> acked_no rs n)"
proof (cases skip)
  case True
  have "rs ! 0 \<in> set rs" using ok by (simp add: ranges_ok_def)
  then have "acked_no rs n" using skip [OF True] n by (auto simp: acked_no_def)
  then show ?thesis using True i by auto
next
  case False
  from dec_range_ok [OF n i(2)] obtain k where k: "k \<le> i" "dec_range rs i n = Some k" "n \<le> pr_high (rs ! k)"
    "\<forall>j. k < j \<longrightarrow> j < length rs \<longrightarrow> pr_high (rs ! j) < n" by blast
  have "k < length rs" using k(1) i(1) by simp
  with k range_hit [OF ok this k(3)] False show ?thesis by auto
qed

lemma ack_iteration:
  fixes acki
  defines "rs \<equiv> ai_ranges acki" and "pns \<equiv> ai_pns acki"
  assumes inv: "sc_inv ctl" and r: "rounds_left ctl" and al: "\<And>q. \<not> env_alloc_fails env q" and ok: "ranges_ok rs"
    and p: "p \<in> set (sc_unacked_packets ctl pns)" "pn ctl p \<le> largest_acked acki"
    and i: "i < length rs" "\<And>j. i < j \<Longrightarrow> j < length rs \<Longrightarrow> pr_high (rs ! j) < pn ctl p" and skip: "skip \<Longrightarrow> pr_low (rs ! 0) \<le> pn ctl p"
  shows "\<exists>c1 ok acc1 next1 k skip' C.
    got_ack_loop env acki prev p i skip acc ctl =
      (if \<not> ok then Some (c1, False, acc1) else case next1 of None \<Rightarrow> Some (c1, True, acc1)
       | Some q \<Rightarrow> do { y \<leftarrow> sc_heap c1 q; if po_packno y \<le> largest_acked acki then got_ack_loop env acki prev q k skip' acc1 c1 else Some (c1, True, acc1) })
    \<and> sc_inv c1 \<and> rounds_left c1 \<and> shrinks ctl c1
    \<and> (ok \<longrightarrow> gone pns C ctl c1 \<and> loss_step pns (tailq_next (sc_unacked_packets ctl pns) p) ctl c1 next1
         \<and> (if acked_no rs (pn ctl p) then C = chain_of (sc_heap ctl) p else C = {})
         \<and> rest (sc_unacked_packets c1 pns) next1 = filter (\<lambda>q. q \<notin> C) (rest (sc_unacked_packets ctl pns) (tailq_next (sc_unacked_packets ctl pns) p)))
    \<and> k < length rs \<and> (\<forall>j. k < j \<longrightarrow> j < length rs \<longrightarrow> pr_high (rs ! j) < pn ctl p) \<and> (skip' \<longrightarrow> pr_low (rs ! 0) \<le> pn ctl p)
    \<and> (ok \<or> acked_no rs (pn ctl p) \<and> is_poison ctl p)"
proof -
  from queue_member [OF inv p(1)] obtain x where
    x: "sc_heap ctl p = Some x" "po_unacked x" "packet_ok p x" "\<not> po_poison x \<longrightarrow> po_pns x = pns" by blast
  have px: "pn ctl p = po_packno x" by (simp add: pn_def x(1))
  let ?next = "tailq_next (sc_unacked_packets ctl pns) p"
  note n = next_shorter [OF viewD(4) [OF sc_invD(1) [OF inv], of pns] p(1)]
  from range_found [OF ok p(2) [unfolded largest_acked_def, folded rs_def] i skip] obtain k where
    k: "k < length rs" "(if skip then Some i else dec_range rs i (po_packno x)) = Some k"
    "\<forall>j. k < j \<longrightarrow> j < length rs \<longrightarrow> pr_high (rs ! j) < pn ctl p" "skip \<or> pr_low (rs ! k) \<le> po_packno x \<longleftrightarrow> acked_no rs (pn ctl p)"
    unfolding px by blast
  define hit where "hit \<longleftrightarrow> acked_no rs (pn ctl p)"
  define sk where "sk \<longleftrightarrow> skip \<or> hit \<and> k = 0"
  have sk: "sk \<longrightarrow> pr_low (rs ! 0) \<le> pn ctl p" using k(4) skip px by (auto simp: sk_def hit_def)
  have step: "\<exists>c1 ok acc1 next1 C. (if hit then ack_one env acki prev p ?next acc ctl else Some (ctl, True, acc, ?next)) = Some (c1, ok, acc1, next1)
      \<and> sc_inv c1 \<and> rounds_left c1 \<and> shrinks ctl c1 \<and> (ok \<longrightarrow> gone pns C ctl c1 \<and> loss_step pns ?next ctl c1 next1
         \<and> (if hit then C = chain_of (sc_heap ctl) p else C = {})
         \<and> rest (sc_unacked_packets c1 pns) next1 = filter (\<lambda>q. q \<notin> C) (rest (sc_unacked_packets ctl pns) ?next))
      \<and> (ok \<or> hit \<and> po_poison x)"
  proof (cases hit)
    case False
    have "gone pns {} ctl ctl" by (simp add: gone_def)
    then show ?thesis using False inv r loss_step_refl [OF inv r n(1)] by auto
  next
    case True
    show ?thesis
    proof (cases "po_poison x")
      case True
      from poison_acked [OF inv x(1) True, of env acki prev ?next acc] r True \<open>hit\<close> show ?thesis by auto
    next
      case False
      with x(4) have "po_pns x = pns" by simp
      from ack_one_ok [OF inv r al x(1,2) False this pns_def [THEN meta_eq_to_obj_eq, symmetric] n(1,2), of prev acc] obtain c1 acc1 next1 where
        "ack_one env acki prev p ?next acc ctl = Some (c1, True, acc1, next1)" "loss_step pns ?next ctl c1 next1"
        "gone pns (chain_of (sc_heap ctl) p) ctl c1"
        "rest (sc_unacked_packets c1 pns) next1 = filter (\<lambda>q. q \<notin> chain_of (sc_heap ctl) p) (rest (sc_unacked_packets ctl pns) ?next)" by blast
      with \<open>hit\<close> show ?thesis
        by (intro exI [of _ c1] exI [of _ True] exI [of _ acc1] exI [of _ next1] exI [of _ "chain_of (sc_heap ctl) p"]) (auto simp: loss_step_def)
    qed
  qed
  then obtain c1 fl acc1 next1 C where st: "(if hit then ack_one env acki prev p ?next acc ctl else Some (ctl, True, acc, ?next)) = Some (c1, fl, acc1, next1)"
    "sc_inv c1" "rounds_left c1" "shrinks ctl c1" "fl \<longrightarrow> gone pns C ctl c1 \<and> loss_step pns ?next ctl c1 next1
         \<and> (if hit then C = chain_of (sc_heap ctl) p else C = {})
         \<and> rest (sc_unacked_packets c1 pns) next1 = filter (\<lambda>q. q \<notin> C) (rest (sc_unacked_packets ctl pns) ?next)"
    "fl \<or> hit \<and> po_poison x" by blast
  have e: "got_ack_loop env acki prev p i skip acc ctl =
      (if \<not> fl then Some (c1, False, acc1) else case next1 of None \<Rightarrow> Some (c1, True, acc1)
       | Some q \<Rightarrow> do { y \<leftarrow> sc_heap c1 q; if po_packno y \<le> largest_acked acki then got_ack_loop env acki prev q k sk acc1 c1 else Some (c1, True, acc1) })"
    apply (subst got_ack_loop.simps)
    apply (simp only: x(1) bind.bind_lunit Let_def rs_def [symmetric] pns_def [symmetric] k(2) k(4) hit_def [symmetric] sk_def [symmetric] st(1) prod.case)
    done
  have "fl \<or> hit \<and> is_poison ctl p" using st(6) x(1) by (simp add: is_poison_def)
  then show ?thesis using e st(2-5) k(1,3) sk unfolding hit_def by blast
qed

lemma sorted_rest: "sorted (map f xs) \<Longrightarrow> q \<in> set xs \<Longrightarrow> z \<in> set (rest xs (Some q)) \<Longrightarrow> f q \<le> f z"
proof (induction xs)
  case (Cons y ys)
  then show ?case by (cases "y = q") (auto simp: rest_def)
qed simp

lemma not_acked_above: "ranges_ok (ai_ranges acki) \<Longrightarrow> n > largest_acked acki \<Longrightarrow> \<not> acked_no (ai_ranges acki) n"
proof
  assume a: "ranges_ok (ai_ranges acki)" "n > largest_acked acki" "acked_no (ai_ranges acki) n"
  then obtain j where j: "j < length (ai_ranges acki)" "n \<le> pr_high (ai_ranges acki ! j)" by (auto simp: acked_no_def in_set_conv_nth)
  show False
  proof (cases j)
    case 0
    then show ?thesis using a(2) j by (simp add: largest_acked_def)
  next
    case (Suc m)
    then have "pr_high (ai_ranges acki ! j) < pr_low (ai_ranges acki ! 0)" using a(1) j(1) by (auto simp: ranges_ok_def)
    moreover have "pr_low (ai_ranges acki ! 0) \<le> pr_high (ai_ranges acki ! 0)" using a(1) j(1) Suc by (simp add: ranges_ok_def)
    ultimately show ?thesis using a(2) j(2) by (simp add: largest_acked_def)
  qed
qed

lemma got_ack_loop_ok:
  fixes acki
  defines "rs \<equiv> ai_ranges acki" and "pns \<equiv> ai_pns acki"
  assumes "sc_inv ctl" "rounds_left ctl" and al: "\<And>q. \<not> env_alloc_fails env q" and ok: "ranges_ok rs"
    and "p \<in> set (sc_unacked_packets ctl pns)" "pn ctl p \<le> largest_acked acki" "i < length rs"
    "\<And>j. i < j \<Longrightarrow> j < length rs \<Longrightarrow> pr_high (rs ! j) < pn ctl p" "skip \<Longrightarrow> pr_low (rs ! 0) \<le> pn ctl p"
  shows "\<exists>ctl' fl acc'. got_ack_loop env acki prev p i skip acc ctl = Some (ctl', fl, acc') \<and> sc_inv ctl' \<and> rounds_left ctl' \<and> shrinks ctl ctl'
    \<and> (fl \<longrightarrow> gone pns (acked_chains rs ctl (rest (sc_unacked_packets ctl pns) (Some p))) ctl ctl')
    \<and> (fl \<or> (\<exists>z \<in> set (rest (sc_unacked_packets ctl pns) (Some p)). acked_no rs (pn ctl z) \<and> is_poison ctl z))"
  using assms(3,4,7-)
proof (induction "length (rest (sc_unacked_packets ctl pns) (Some p))" arbitrary: ctl p i skip acc rule: less_induct)
  case less
  note v = sc_invD(1) [OF less.prems(1)]
  let ?next = "tailq_next (sc_unacked_packets ctl pns) p"
  note d = viewD(4) [OF v, of pns]
  note n = next_shorter [OF d less.prems(3)]
  have rp: "rest (sc_unacked_packets ctl pns) (Some p) = p # rest (sc_unacked_packets ctl pns) ?next"
    using rest_Some [OF less.prems(3)] rest_tailq_next [OF d less.prems(3)] by simp
  have dom: "set (p # rest (sc_unacked_packets ctl pns) ?next) \<subseteq> dom (sc_heap ctl)"
    unfolding rp [symmetric] using set_rest viewD(5) [OF v] by fastforce
  obtain c1 fl acc1 next1 k sk C where it:
    "got_ack_loop env acki prev p i skip acc ctl =
      (if \<not> fl then Some (c1, False, acc1) else case next1 of None \<Rightarrow> Some (c1, True, acc1)
       | Some q \<Rightarrow> do { y \<leftarrow> sc_heap c1 q; if po_packno y \<le> largest_acked acki then got_ack_loop env acki prev q k sk acc1 c1 else Some (c1, True, acc1) })"
    "sc_inv c1" "rounds_left c1"
    "fl \<longrightarrow> gone pns C ctl c1 \<and> loss_step pns ?next ctl c1 next1
         \<and> (if acked_no rs (pn ctl p) then C = chain_of (sc_heap ctl) p else C = {})
         \<and> rest (sc_unacked_packets c1 pns) next1 = filter (\<lambda>q. q \<notin> C) (rest (sc_unacked_packets ctl pns) ?next)"
    "k < length rs" "\<forall>j. k < j \<longrightarrow> j < length rs \<longrightarrow> pr_high (rs ! j) < pn ctl p" "sk \<longrightarrow> pr_low (rs ! 0) \<le> pn ctl p" "shrinks ctl c1"
    "fl \<or> acked_no rs (pn ctl p) \<and> is_poison ctl p"
    using ack_iteration [of ctl env acki p i skip prev acc, folded rs_def pns_def, OF less.prems(1,2) al ok less.prems(3-5)] less.prems(6,7) by blast
  show ?case
  proof (cases fl)
    case False
    then show ?thesis using it by (intro exI [of _ c1] exI [of _ False] exI [of _ acc1]) (simp add: rp)
  next
    case True
    with it(4) have g: "gone pns C ctl c1" and ls: "loss_step pns ?next ctl c1 next1"
      and C: "if acked_no rs (pn ctl p) then C = chain_of (sc_heap ctl) p else C = {}"
      and rs1: "rest (sc_unacked_packets c1 pns) next1 = filter (\<lambda>q. q \<notin> C) (rest (sc_unacked_packets ctl pns) ?next)" by auto
    have u: "acked_chains rs ctl (rest (sc_unacked_packets ctl pns) (Some p)) = C \<union> acked_chains rs c1 (rest (sc_unacked_packets c1 pns) next1)"
      unfolding rp rs1 by (rule acked_chains_step [OF sc_invD(2) [OF less.prems(1)] g dom C])
    have stop: ?thesis if "acked_chains rs c1 (rest (sc_unacked_packets c1 pns) next1) = {}"
      "got_ack_loop env acki prev p i skip acc ctl = Some (c1, True, acc1)"
      using that u g it(2,3,8) by (intro exI [of _ c1] exI [of _ True] exI [of _ acc1]) simp
    show ?thesis
    proof (cases next1)
      case None
      then show ?thesis using stop it(1) True by (simp add: acked_chains_def)
    next
      case (Some q)
      from ls Some have qm: "q \<in> set (sc_unacked_packets c1 pns)" by (simp add: loss_step_def)
      from queue_member [OF it(2) qm] obtain y where y: "sc_heap c1 q = Some y" by blast
      have pq: "pn c1 q = po_packno y" by (simp add: pn_def y)
      show ?thesis
      proof (cases "po_packno y \<le> largest_acked acki")
        case False
        have "\<not> acked_no rs (pn c1 z)" if "z \<in> set (rest (sc_unacked_packets c1 pns) next1)" for z
        proof -
          have "pn c1 q \<le> pn c1 z"
            by (rule sorted_rest [of _ "sc_unacked_packets c1 pns"]) (use sc_invD(4) [OF it(2)] qm that Some in \<open>auto simp: queues_sorted_def\<close>)
          then show ?thesis unfolding rs_def using False pq by (intro not_acked_above [OF ok [unfolded rs_def]]) simp
        qed
        then have "acked_chains rs c1 (rest (sc_unacked_packets c1 pns) next1) = {}" by (auto simp: acked_chains_def)
        then show ?thesis using stop it(1) True Some y False by simp
      next
        case le: True
        have qr: "q \<in> set (rest (sc_unacked_packets c1 pns) next1)" using Some rest_Some [OF qm] by (metis list.set_intros(1))
        then have q0: "q \<notin> C" "q \<in> set (rest (sc_unacked_packets ctl pns) (Some p))" unfolding rs1 rp by auto
        have "pn ctl p \<le> pn ctl q"
          by (rule sorted_rest [of _ "sc_unacked_packets ctl pns"]) (use sc_invD(4) [OF less.prems(1)] less.prems(3) q0 in \<open>auto simp: queues_sorted_def\<close>)
        then have mono: "pn ctl p \<le> pn c1 q" using gone_pn [OF g q0(1)] by simp
        have "length (rest (sc_unacked_packets c1 pns) (Some q)) < length (rest (sc_unacked_packets ctl pns) (Some p))"
          using ls n(3) Some by (simp add: loss_step_def)
        note ih = less.hyps [OF this it(2,3) qm, of k sk acc1]
        have "pn c1 q \<le> largest_acked acki" using le pq by simp
        moreover have "pr_high (rs ! j) < pn c1 q" if "k < j" "j < length rs" for j using it(6) that mono by (meson order_less_le_trans)
        moreover have "pr_low (rs ! 0) \<le> pn c1 q" if sk using it(7) that mono by (meson order_trans)
        ultimately obtain ctl' fl' acc' where
          l: "got_ack_loop env acki prev q k sk acc1 c1 = Some (ctl', fl', acc')" "sc_inv ctl'" "rounds_left ctl'" "shrinks c1 ctl'"
          "fl' \<longrightarrow> gone pns (acked_chains rs c1 (rest (sc_unacked_packets c1 pns) (Some q))) c1 ctl'"
          "fl' \<or> (\<exists>z \<in> set (rest (sc_unacked_packets c1 pns) (Some q)). acked_no rs (pn c1 z) \<and> is_poison c1 z)" using ih it(5) by blast
        have po: "\<exists>z \<in> set (rest (sc_unacked_packets ctl pns) (Some p)). acked_no rs (pn ctl z) \<and> is_poison ctl z" if "\<not> fl'"
        proof -
          from l(6) that obtain z where z: "z \<in> set (rest (sc_unacked_packets c1 pns) next1)" "acked_no rs (pn c1 z)" "is_poison c1 z"
            unfolding Some by blast
          then have "z \<notin> C" "z \<in> set (rest (sc_unacked_packets ctl pns) (Some p))" unfolding rs1 rp by auto
          then show ?thesis using z(2,3) gone_pn [OF g] gone_poison [OF g] by auto
        qed
        have "got_ack_loop env acki prev p i skip acc ctl = Some (ctl', fl', acc')" using it(1) True Some y le l(1) by simp
        then show ?thesis using l(2-5) po gone_trans [OF g] shrinks_trans [OF it(8)] unfolding u Some by blast
      qed
    qed
  qed
qed

end
