(* ===== verification/Send_Steps.thy ===== *)
theory Send_Steps
  imports Send_Acks
begin

text \<open>
  The operations of the send controller as a whole: each returns, keeps the invariant and leaves the retransmission
  alarm set for every packet number space that has a packet whose loss has to be noticed.
\<close>

section \<open>The retransmission alarm\<close>

definition awaited :: "send_ctl \<Rightarrow> packnum_space \<Rightarrow> pid set" where
  "awaited ctl pns = {p. \<exists>x. sc_heap ctl p = Some x \<and> awaits_ack (sc_retx_frames ctl) x \<and> po_pns x = pns}"

definition armed :: "send_ctl \<Rightarrow> packnum_space \<Rightarrow> bool" where
  "armed ctl pns \<longleftrightarrow> (awaited ctl pns \<noteq> {} \<longrightarrow> sc_al_retx ctl pns \<noteq> None)"

lemma shrinks_awaited: "shrinks ctl ctl' \<Longrightarrow> awaited ctl' pns \<subseteq> awaited ctl pns"
  unfolding shrinks_def awaited_def by fastforce

lemma shrinks_armed: "shrinks ctl ctl' \<Longrightarrow> armed ctl pns \<Longrightarrow> armed ctl' pns"
  using shrinks_awaited [of ctl ctl' pns] unfolding armed_def by (auto simp: shrinks_def)

lemma first_unacked_retx:
  assumes "sc_inv ctl"
  shows "send_ctl_first_unacked_retx_packet ctl pns \<noteq> None \<longleftrightarrow> awaited ctl pns \<noteq> {}"
proof -
  have "send_ctl_first_unacked_retx_packet ctl pns \<noteq> None \<longleftrightarrow> (\<exists>p \<in> set (sc_unacked_packets ctl pns). retx_candidate ctl p)"
    by (auto simp: send_ctl_first_unacked_retx_packet_def find_None_iff)
  also have "\<dots> \<longleftrightarrow> awaited ctl pns \<noteq> {}"
    using viewD(5) [OF sc_invD(1) [OF assms]] by (auto simp: awaited_def retx_candidate_def awaits_ack_def q_pns_def split: option.splits) blast
  finally show ?thesis .
qed

lemma set_retx_alarm_deadline:
  "\<exists>d \<le> MAX_RTO_DELAY. sc_al_retx (set_retx_alarm ctl pns now) = (sc_al_retx ctl)(pns := Some (now + d))"
proof -
  define c where "c = (if get_retx_mode ctl = RETX_MODE_HANDSHAKE then ctl\<lparr>sc_n_hsk := sc_n_hsk ctl + 1\<rparr> else ctl)"
  obtain delay where "set_retx_alarm ctl pns now = c\<lparr>sc_al_retx := (sc_al_retx c)(pns := Some (now + (if delay > MAX_RTO_DELAY then MAX_RTO_DELAY else delay)))\<rparr>"
    unfolding set_retx_alarm_def Let_def c_def by blast
  moreover have "sc_al_retx c = sc_al_retx ctl" by (simp add: c_def)
  ultimately show ?thesis by (intro exI [of _ "if delay > MAX_RTO_DELAY then MAX_RTO_DELAY else delay"]) (simp add: not_less)
qed

lemma clear_alarm_inv: "sc_inv ctl \<Longrightarrow> sc_inv (ctl\<lparr>sc_al_retx := al\<rparr>)"
proof -
  assume inv: "sc_inv ctl"
  have "sc_view (sc_heap ctl) (ctl\<lparr>sc_al_retx := al\<rparr>)" by (rule view_cong [OF sc_invD(1) [OF inv]]) simp_all
  then show ?thesis using inv queues_sorted_same [of "ctl\<lparr>sc_al_retx := al\<rparr>" ctl] by (simp add: sc_inv_def art_ok_def)
qed

text \<open>Setting or clearing the alarm touches nothing else of the invariant.\<close>

lemma set_retx_alarm_frame:
  "sc_heap (set_retx_alarm ctl pns now) = sc_heap ctl" "sc_retx_frames (set_retx_alarm ctl pns now) = sc_retx_frames ctl"
  "sc_inv ctl \<Longrightarrow> sc_inv (set_retx_alarm ctl pns now)" "rounds_left ctl \<Longrightarrow> rounds_left (set_retx_alarm ctl pns now)"
  "sc_n_in_flight_all (set_retx_alarm ctl pns now) = sc_n_in_flight_all ctl"
proof -
  define c where "c = (if get_retx_mode ctl = RETX_MODE_HANDSHAKE then ctl\<lparr>sc_n_hsk := sc_n_hsk ctl + 1\<rparr> else ctl)"
  obtain al where e: "set_retx_alarm ctl pns now = c\<lparr>sc_al_retx := al\<rparr>"
    unfolding set_retx_alarm_def Let_def c_def by blast
  show "sc_heap (set_retx_alarm ctl pns now) = sc_heap ctl" "sc_retx_frames (set_retx_alarm ctl pns now) = sc_retx_frames ctl"
    "sc_n_in_flight_all (set_retx_alarm ctl pns now) = sc_n_in_flight_all ctl"
    by (simp_all add: e c_def)
  have c: "core (set_retx_alarm ctl pns now) = core (ctl\<lparr>sc_al_retx := al\<rparr>)" by (simp add: e c_def core_def)
  have i: "sc_inv (ctl\<lparr>sc_al_retx := al\<rparr>)" if "sc_inv ctl" by (rule clear_alarm_inv [OF that])
  show "sc_inv ctl \<Longrightarrow> sc_inv (set_retx_alarm ctl pns now)" by (rule core_inv [OF c _ i]) (auto simp: e c_def)
  show "rounds_left ctl \<Longrightarrow> rounds_left (set_retx_alarm ctl pns now)" by (simp add: rounds_left_def e c_def)
qed

section \<open>Acknowledgements\<close>

text \<open>Changes that matter neither to the invariant nor to the alarm.\<close>

definition alike :: "send_ctl \<Rightarrow> send_ctl \<Rightarrow> bool" where
  "alike ctl c \<longleftrightarrow> touched_heap (sc_heap ctl) (sc_heap c) \<and> core (c\<lparr>sc_heap := sc_heap ctl\<rparr>) = core ctl \<and> sc_fresh c = sc_fresh ctl"

lemma alike_ok:
  assumes "alike ctl c"
  shows "sc_inv ctl \<Longrightarrow> sc_inv c" "rounds_left ctl \<Longrightarrow> rounds_left c" "shrinks ctl c"
proof -
  let ?c = "c\<lparr>sc_heap := sc_heap ctl\<rparr>"
  from assms have t: "touched_heap (sc_heap ctl) (sc_heap c)" and co: "core ?c = core ctl" "sc_fresh c = sc_fresh ctl" by (auto simp: alike_def)
  show "rounds_left ctl \<Longrightarrow> rounds_left c" using touched_rounds [of ctl "{}" c] t by simp
  have "sc_al_retx c = sc_al_retx ctl" "sc_retx_frames c = sc_retx_frames ctl" using co by (simp_all add: core_def)
  then show "shrinks ctl c" using shrinks_touched [of ctl "{}" c] t by simp
  assume inv: "sc_inv ctl"
  have i: "sc_inv ?c" by (rule core_inv [OF co(1) _ inv]) (simp add: co)
  have "sc_view (sc_heap ctl) c" by (rule view_cong [OF sc_invD(1) [OF i, simplified]]) simp_all
  then have "sc_view (sc_heap c) c" by (rule touched_view [OF _ t])
  moreover have "chains (sc_heap c)" by (rule touched_chains [OF sc_invD(2) [OF inv] t])
  moreover have "art_ok c" using sc_invD(3) [OF i] by (simp add: art_ok_def)
  moreover have "queues_sorted c"
    by (rule queues_sorted_cong [OF sc_invD(4) [OF i]]) (use sc_invD(4) [OF i] pn_touched [of ?c "{}" c] t in \<open>simp add: queues_sorted_def\<close>)
  ultimately show "sc_inv c" by (simp add: sc_inv_def)
qed

lemma alike_refl [simp]: "alike c c"
  by (simp add: alike_def core_def)

lemma alike_trans: "alike a b \<Longrightarrow> alike b c \<Longrightarrow> alike a c"
  by (auto simp: alike_def core_def intro: touched_heap_trans)

lemma alike_members [simp]:
  "alike c (c\<lparr>sc_largest_ack2ed := a\<rparr>)" "alike c (c\<lparr>sc_was_quiet := b\<rparr>)" "alike c (c\<lparr>sc_1rtt_acked := b\<rparr>)"
  "alike c (c\<lparr>sc_ecn_total_acked := e\<rparr>)" "alike c (c\<lparr>sc_ecn_ce_cnt := e\<rparr>)" "alike c (send_ctl_loss_event c)"
  "alike c (c\<lparr>sc_n_stop_waiting := n\<rparr>)" "alike c (lsquic_send_ctl_disable_ecn c)" "alike c (c\<lparr>sc_ack_recv := f\<rparr>)"
  "alike c (c\<lparr>sc_rt_count := n, sc_cur_rt_end := m\<rparr>)" "alike c (take_rtt_sample c t d)"
  "alike c (c\<lparr>sc_n_consec_rtos := n, sc_n_hsk := n', sc_n_tlp := n''\<rparr>)" "alike c (lsquic_send_ctl_begin_optack_detection env c)"
  "alike c (c\<lparr>sc_has_poison := b\<rparr>)" "alike c (c\<lparr>sc_last_sent_time := t\<rparr>)" "alike c (c\<lparr>sc_last_sent := m\<rparr>)"
proof -
  show "alike c (lsquic_send_ctl_disable_ecn c)"
    unfolding alike_def using disable_ecn_touches(1) [of c] by (simp add: core_def lsquic_send_ctl_disable_ecn_def)
qed (simp_all add: alike_def core_def send_ctl_loss_event_def take_rtt_sample_def Let_def lsquic_send_ctl_begin_optack_detection_def)

lemma renew_alarm_ok:
  assumes inv: "sc_inv ctl" and r: "rounds_left ctl"
    and c: "ctl' = (if send_ctl_first_unacked_retx_packet ctl pns \<noteq> None then set_retx_alarm ctl pns now else ctl\<lparr>sc_al_retx := (sc_al_retx ctl)(pns := None)\<rparr>)"
  shows "sc_inv ctl'" "rounds_left ctl'" "armed ctl' pns" "\<And>q. q \<noteq> pns \<Longrightarrow> armed ctl q \<Longrightarrow> armed ctl' q"
    "\<And>t. sc_al_retx ctl' pns = Some t \<Longrightarrow> \<exists>d \<le> MAX_RTO_DELAY. t = now + d"
    "sc_retx_frames ctl' = sc_retx_frames ctl"
proof -
  show "sc_retx_frames ctl' = sc_retx_frames ctl" by (simp add: c set_retx_alarm_frame)
  show "sc_inv ctl'" using inv by (auto simp: c set_retx_alarm_frame clear_alarm_inv)
  show "rounds_left ctl'" using r by (auto simp: c set_retx_alarm_frame(4)) (simp add: rounds_left_def)
  obtain d where d: "d \<le> MAX_RTO_DELAY" "sc_al_retx (set_retx_alarm ctl pns now) = (sc_al_retx ctl)(pns := Some (now + d))"
    using set_retx_alarm_deadline by blast
  show "armed ctl' pns" using first_unacked_retx [OF inv, of pns] by (auto simp: c armed_def awaited_def d set_retx_alarm_frame)
  show "\<And>q. q \<noteq> pns \<Longrightarrow> armed ctl q \<Longrightarrow> armed ctl' q" by (auto simp: c armed_def awaited_def d set_retx_alarm_frame)
  show "\<And>t. sc_al_retx ctl' pns = Some t \<Longrightarrow> \<exists>d \<le> MAX_RTO_DELAY. t = now + d" using d by (auto simp: c split: if_splits)
qed

lemma after_acks_ok:
  assumes inv: "sc_inv ctl" and r: "rounds_left ctl" and al: "\<And>q. \<not> env_alloc_fails env q" and pns: "ai_pns acki = pns"
  shows "\<exists>ctl'. after_acks env acki now acc ctl = Some ctl' \<and> sc_inv ctl' \<and> rounds_left ctl' \<and> armed ctl' pns
    \<and> (\<forall>q. q \<noteq> pns \<longrightarrow> armed ctl q \<longrightarrow> armed ctl' q) \<and> (\<forall>t. sc_al_retx ctl' pns = Some t \<longrightarrow> (\<exists>d \<le> MAX_RTO_DELAY. t = now + d))
    \<and> (\<forall>q. awaited ctl' q \<subseteq> awaited ctl q) \<and> sc_retx_frames ctl' = sc_retx_frames ctl"
proof -
  from detect_losses_ok [OF inv r al] obtain c1 b where
    c1: "send_ctl_detect_losses env ctl pns = Some (c1, b)" "sc_inv c1" "rounds_left c1" "shrinks ctl c1" by blast
  define c2 where "c2 = (if send_ctl_first_unacked_retx_packet c1 pns \<noteq> None then set_retx_alarm c1 pns now else c1\<lparr>sc_al_retx := (sc_al_retx c1)(pns := None)\<rparr>)"
  note a = renew_alarm_ok [OF c1(2,3) c2_def]
  define c3 where "c3 = (if sc_nstp c2 \<and> aa_ack2ed acc > sc_largest_ack2ed c2 pns
                then c2\<lparr>sc_largest_ack2ed := (sc_largest_ack2ed c2)(pns := aa_ack2ed acc)\<rparr> else c2)"
  define c4 where "c4 = (if sc_n_in_flight_retx c3 = 0 then c3\<lparr>sc_was_quiet := True\<rparr> else c3)"
  define c5 where "c5 = (if aa_one_rtt acc \<noteq> 0 then c4\<lparr>sc_1rtt_acked := True\<rparr> else c4)"
  have "alike c2 c3" "alike c3 c4" "alike c4 c5" by (simp_all add: c3_def c4_def c5_def)
  then have al5: "alike c2 c5" by (blast intro: alike_trans)
  have e: "\<exists>ctl'. after_acks env acki now acc ctl = Some ctl' \<and> alike c2 ctl'"
  proof (cases "ai_ecn acki")
    case None
    then have "after_acks env acki now acc ctl = Some c5"
      unfolding after_acks_def pns Let_def c1(1) bind.bind_lunit prod.case c2_def [symmetric] c3_def [symmetric] c4_def [symmetric] c5_def [symmetric] by simp
    then show ?thesis using al5 by blast
  next
    case (Some e)
    obtain ect1 ect0 ce where ee: "e = (ect1, ect0, ce)" by (cases e)
    define c6 where "c6 = c5\<lparr>sc_ecn_total_acked := (sc_ecn_total_acked c5)(pns := sc_ecn_total_acked c5 pns + ucast (aa_ecn_total acc)),
                          sc_ecn_ce_cnt := (sc_ecn_ce_cnt c5)(pns := sc_ecn_ce_cnt c5 pns + ucast (aa_ecn_ce acc))\<rparr>"
    define c7 where "c7 = (if ect0 + ect1 + ce > sc_ecn_total_acked c6 pns then c6\<lparr>sc_ecn_total_acked := (sc_ecn_total_acked c6)(pns := ect0 + ect1 + ce)\<rparr> else c6)"
    define c8 where "c8 = c7\<lparr>sc_ecn_ce_cnt := (sc_ecn_ce_cnt c7)(pns := ce)\<rparr>"
    have "alike c5 c6" unfolding c6_def by (rule alike_trans [OF alike_members(4)]) (rule alike_members(5))
    moreover have "alike c6 c7" "alike c7 c8" "alike c8 (send_ctl_loss_event c8)" "alike c6 (lsquic_send_ctl_disable_ecn c6)"
      by (simp_all add: c7_def c8_def)
    ultimately have al: "alike c2 c6" "alike c2 c7" "alike c2 c8" "alike c2 (send_ctl_loss_event c8)" "alike c2 (lsquic_send_ctl_disable_ecn c6)"
      using al5 by (blast intro: alike_trans)+
    have "after_acks env acki now acc ctl =
        (if sc_ecn c5 = 0 then Some c5
         else if ect0 + ect1 + ce \<ge> sc_ecn_total_acked c6 pns
         then Some (if ce > sc_ecn_ce_cnt c7 pns then if b then c8 else send_ctl_loss_event c8 else c7)
         else Some (lsquic_send_ctl_disable_ecn c6))"
      unfolding after_acks_def pns Let_def c1(1) bind.bind_lunit prod.case c2_def [symmetric] c3_def [symmetric] c4_def [symmetric] c5_def [symmetric]
        Some ee option.case c6_def [symmetric] c7_def [symmetric] c8_def [symmetric] ..
    then show ?thesis using al al5 by auto
  qed
  then obtain ctl' where c: "after_acks env acki now acc ctl = Some ctl'" "alike c2 ctl'" by blast
  note k = alike_ok [OF c(2)]
  have "sc_al_retx ctl' = sc_al_retx c2" using k(3) by (simp add: shrinks_def)
  moreover have "sc_retx_frames ctl' = sc_retx_frames ctl" using k(3) a(6) c1(4) by (simp add: shrinks_def)
  moreover have "awaited c2 q = awaited c1 q" for q by (simp add: c2_def awaited_def set_retx_alarm_frame)
  then have "awaited ctl' q \<subseteq> awaited ctl q" for q using shrinks_awaited [OF c1(4)] shrinks_awaited [OF k(3)] by blast
  ultimately show ?thesis using c(1) k a shrinks_armed [OF c1(4)] shrinks_armed [OF k(3)] by auto
qed

text \<open>The poisoned packet counts for nothing, so that it can be taken out by hand.\<close>

lemma reschedule_poison_ok:
  assumes inv: "sc_inv ctl" and r: "rounds_left ctl"
  shows "sc_inv (send_ctl_reschedule_poison env ctl) \<and> rounds_left (send_ctl_reschedule_poison env ctl)
    \<and> shrinks ctl (send_ctl_reschedule_poison env ctl)"
proof (cases "find (is_poison ctl) (sc_unacked_packets ctl PNS_APP)")
  case None
  then show ?thesis using inv r by (simp add: send_ctl_reschedule_poison_def)
next
  case (Some p)
  then have "p \<in> set (sc_unacked_packets ctl PNS_APP)" "is_poison ctl p" by (auto simp: find_Some_iff)
  then obtain x where p: "sc_heap ctl p = Some x" "po_poison x" by (auto simp: is_poison_def split: option.splits)
  define c where "c = ctl\<lparr>sc_unacked_packets := (sc_unacked_packets ctl)(PNS_APP := remove1 p (sc_unacked_packets ctl PNS_APP)), sc_heap := (sc_heap ctl)(p := None)\<rparr>"
  have ok: "packet_ok p x" by (rule viewD(3) [OF sc_invD(1) [OF inv] p(1)])
  then have x: "po_unacked x" "\<not> po_sched x" "\<not> po_lost x" "po_frame_types x = 0" "po_loss_chain x = p" using p(2) by (auto simp: packet_ok_def)
  have out: "p \<notin> set (sc_scheduled_packets ctl)" "p \<notin> set (sc_lost_packets ctl)"
    using viewD(7,9) [OF sc_invD(1) [OF inv], of p] x p(1) by auto
  have "sc_view ((sc_heap ctl)(p := None)) c"
    by (rule view_gone [OF sc_invD(1) [OF inv] p(1)]) (use x p(2) out in \<open>simp_all add: c_def weights has_frames_def q_pns_def remove1_idem\<close>)
  moreover have w: "sc_heap c = without (sc_heap ctl) {p}" by (auto simp: c_def without_def)
  moreover have "cyc (nx (sc_heap ctl)) p []" using p(1) x by (simp add: cyc_def nx_Some)
  then have "chains (sc_heap c)" using chains_without [OF sc_invD(2) [OF inv], of p "[]"] by (simp add: w)
  moreover have "art_ok c" using sc_invD(3) [OF inv] by (simp add: art_ok_def c_def)
  moreover have t: "touched_heap (without (sc_heap ctl) {p}) (sc_heap c)" by (simp add: w)
  have "queues_sorted c"
  proof (rule queues_sorted_cong [OF sc_invD(4) [OF inv]], intro exI conjI)
    fix pns
    show "sorted (map (pn ctl) (sc_unacked_packets c pns))"
      using sc_invD(4) [OF inv] sorted_map_remove1 [of "pn ctl" "sc_unacked_packets ctl PNS_APP" p] by (auto simp: c_def queues_sorted_def)
    show "\<forall>q \<in> set (sc_unacked_packets c pns). pn c q = pn ctl q"
    proof
      fix q assume "q \<in> set (sc_unacked_packets c pns)"
      then have "q \<noteq> p" using viewD(5) [OF calculation(1), of p pns] by auto
      then show "pn c q = pn ctl q" using pn_touched [OF t, of q] by simp
    qed
  qed simp
  moreover have hc: "(sc_heap ctl)(p := None) = sc_heap c" by (simp add: c_def)
  ultimately have i: "sc_inv c" by (simp add: sc_inv_def)
  have e: "send_ctl_reschedule_poison env ctl = (lsquic_send_ctl_begin_optack_detection env c)\<lparr>sc_has_poison := False\<rparr>"
    by (simp add: send_ctl_reschedule_poison_def Some set_unacked_def c_def)
  have a: "alike c (send_ctl_reschedule_poison env ctl)" unfolding e by (rule alike_trans [OF alike_members(13)]) (rule alike_members(14))
  have "shrinks ctl c" by (rule shrinks_touched [OF t]) (simp_all add: c_def)
  then show ?thesis using alike_ok [OF a] i touched_rounds [OF r t] shrinks_trans by blast
qed

lemma finish_got_ack_ok:
  assumes "sc_inv ctl" "rounds_left ctl"
  shows "sc_inv (finish_got_ack env acki n ctl)" "rounds_left (finish_got_ack env acki n ctl)" "shrinks ctl (finish_got_ack env acki n ctl)"
proof -
  define c where "c = (if \<not> sc_nstp ctl \<and> \<not> sc_ietf ctl
                 then ctl\<lparr>sc_n_stop_waiting := (if n > smallest_acked acki then sc_n_stop_waiting ctl + 1 else 0)\<rparr> else ctl)"
  have "alike ctl c" by (simp add: c_def)
  note k = alike_ok [OF this]
  have "finish_got_ack env acki n ctl = (if sc_gap c < smallest_acked acki then send_ctl_reschedule_poison env c else c)"
    by (simp add: finish_got_ack_def Let_def c_def)
  moreover note p = reschedule_poison_ok [OF k(1) [OF assms(1)] k(2) [OF assms(2)], of env]
  ultimately show "sc_inv (finish_got_ack env acki n ctl)" "rounds_left (finish_got_ack env acki n ctl)" "shrinks ctl (finish_got_ack env acki n ctl)"
    using k(1) [OF assms(1)] k(2) [OF assms(2)] k(3) p shrinks_trans [OF k(3)] by simp_all
qed

lemma rest_first: "q \<noteq> [] \<Longrightarrow> rest q (Some (hd q)) = q"
  by (cases q) (simp_all add: rest_def)

lemma ack_loop_ok:
  fixes acki
  defines "pns \<equiv> ai_pns acki" and "rs \<equiv> ai_ranges acki"
  assumes inv: "sc_inv ctl" and r: "rounds_left ctl" and al: "\<And>q. \<not> env_alloc_fails env q" and ok: "ranges_ok rs"
    and p: "sc_unacked_packets ctl pns = p # ps" "pn ctl p \<le> largest_acked acki"
  shows "\<exists>ctl' fl acc'. got_ack_loop env acki prev p (length rs - 1) False acc ctl = Some (ctl', fl, acc') \<and> sc_inv ctl' \<and> rounds_left ctl'
    \<and> shrinks ctl ctl' \<and> (fl \<longrightarrow> gone pns (acked_chains rs ctl (sc_unacked_packets ctl pns)) ctl ctl')
    \<and> (fl \<or> (\<exists>z \<in> set (sc_unacked_packets ctl pns). acked_no rs (pn ctl z) \<and> is_poison ctl z))"
proof -
  have "p \<in> set (sc_unacked_packets ctl pns)" "length rs - 1 < length rs" using p ok by (simp_all add: ranges_ok_def)
  then have "\<exists>ctl' fl acc'. got_ack_loop env acki prev p (length rs - 1) False acc ctl = Some (ctl', fl, acc') \<and> sc_inv ctl' \<and> rounds_left ctl' \<and> shrinks ctl ctl'
    \<and> (fl \<longrightarrow> gone pns (acked_chains rs ctl (rest (sc_unacked_packets ctl pns) (Some p))) ctl ctl')
    \<and> (fl \<or> (\<exists>z \<in> set (rest (sc_unacked_packets ctl pns) (Some p)). acked_no rs (pn ctl z) \<and> is_poison ctl z))"
    using inv r al ok p(2) unfolding pns_def rs_def by (intro got_ack_loop_ok) simp_all
  then show ?thesis using rest_first [of "sc_unacked_packets ctl pns"] p(1) by simp
qed

lemma nothing_acked:
  assumes "queues_sorted ctl" "ranges_ok rs" "sc_unacked_packets ctl pns = p # ps" "pr_high (rs ! 0) < pn ctl p"
  shows "acked_chains rs ctl (sc_unacked_packets ctl pns) = {}"
proof -
  have "pr_high (rs ! 0) < pn ctl q" if "q \<in> set (p # ps)" for q
  proof -
    have "sorted (map (pn ctl) (p # ps))" using assms(1,3) unfolding queues_sorted_def by metis
    then show ?thesis using that assms(4) by (auto intro: less_le_trans)
  qed
  moreover have "pr_high r \<le> pr_high (rs ! 0)" if "r \<in> set rs" for r
  proof -
    from that obtain j where j: "j < length rs" "r = rs ! j" by (auto simp: in_set_conv_nth)
    show ?thesis
    proof (cases "j = 0")
      case False
      then have "pr_high (rs ! j) < pr_low (rs ! 0)" "pr_low (rs ! 0) \<le> pr_high (rs ! 0)" using assms(2) j by (auto simp: ranges_ok_def)
      then show ?thesis using j by (meson less_imp_le order_trans)
    qed (simp add: j)
  qed
  ultimately have "\<not> acked_no rs (pn ctl q)" if "q \<in> set (p # ps)" for q
    using that unfolding acked_no_def by (meson leD le_less_trans)
  then show ?thesis using assms(3) unfolding acked_chains_def by auto
qed

text \<open>The first part of the handler, up to the label \<^verbatim>\<open>detect_losses\<close>.\<close>

lemma acked_part_ok:
  fixes acki
  defines "pns \<equiv> ai_pns acki" and "rs \<equiv> ai_ranges acki"
  assumes inv: "sc_inv ctl" and r: "rounds_left ctl" and al: "\<And>q. \<not> env_alloc_fails env q" and ok: "ranges_ok rs"
    and p: "sc_unacked_packets ctl pns = p # ps" "sc_heap ctl p = Some x"
  shows "\<exists>ctl' fl acc'. (if po_packno x > largest_acked acki then Some (ctl, True, acc)
              else do {
                let ctl = (if largest_acked acki > sc_cur_rt_end ctl
                           then ctl\<lparr>sc_rt_count := sc_rt_count ctl + 1, sc_cur_rt_end := sc_last_sent ctl\<rparr> else ctl);
                (ctl, ok, acc) \<leftarrow> got_ack_loop env acki (sc_largest_acked_packno ctl) p (length rs - 1) False acc ctl;
                Some (if ok \<and> aa_do_rtt acc
                      then (take_rtt_sample ctl t (ai_lack_delta acki))\<lparr>sc_n_consec_rtos := 0, sc_n_hsk := 0, sc_n_tlp := 0\<rparr>
                      else ctl, ok, acc)
              }) = Some (ctl', fl, acc') \<and> sc_inv ctl' \<and> rounds_left ctl' \<and> shrinks ctl ctl'
    \<and> (fl \<longrightarrow> awaited ctl' pns \<inter> acked_chains rs ctl (sc_unacked_packets ctl pns) = {})"
proof (cases "po_packno x > largest_acked acki")
  case True
  then have "pr_high (rs ! 0) < pn ctl p" using p(2) by (simp add: largest_acked_def rs_def pn_def)
  then have "acked_chains rs ctl (sc_unacked_packets ctl pns) = {}" by (rule nothing_acked [OF sc_invD(4) [OF inv] ok p(1)])
  then show ?thesis using True inv r by (intro exI [of _ ctl] exI [of _ True] exI [of _ acc]) simp
next
  case False
  define c where "c = (if largest_acked acki > sc_cur_rt_end ctl
                           then ctl\<lparr>sc_rt_count := sc_rt_count ctl + 1, sc_cur_rt_end := sc_last_sent ctl\<rparr> else ctl)"
  have h: "sc_heap c = sc_heap ctl" "sc_unacked_packets c = sc_unacked_packets ctl" by (simp_all add: c_def)
  have "alike ctl c" by (simp add: c_def)
  note k = alike_ok [OF this]
  have pc: "sc_unacked_packets c pns = p # ps" "pn c p \<le> largest_acked acki" using p False by (simp_all add: h pn_def not_less)
  have "pn c = pn ctl" by (rule ext) (simp add: pn_def h)
  then have ac: "acked_chains rs c qs = acked_chains rs ctl qs" for qs by (simp add: acked_chains_def h)
  from ack_loop_ok [OF k(1) [OF inv] k(2) [OF r] al, of acki p ps "sc_largest_acked_packno c" acc, folded pns_def rs_def] ok pc
  obtain c1 fl acc1 where c1: "got_ack_loop env acki (sc_largest_acked_packno c) p (length rs - 1) False acc c = Some (c1, fl, acc1)"
    "sc_inv c1" "rounds_left c1" "shrinks c c1" "fl \<longrightarrow> gone pns (acked_chains rs ctl (sc_unacked_packets ctl pns)) c c1"
    by (auto simp: ac h)
  define c2 where "c2 = (if fl \<and> aa_do_rtt acc1
                      then (take_rtt_sample c1 t (ai_lack_delta acki))\<lparr>sc_n_consec_rtos := 0, sc_n_hsk := 0, sc_n_tlp := 0\<rparr> else c1)"
  have "alike c1 ((take_rtt_sample c1 t (ai_lack_delta acki))\<lparr>sc_n_consec_rtos := 0, sc_n_hsk := 0, sc_n_tlp := 0\<rparr>)"
    by (rule alike_trans [OF alike_members(11)]) (rule alike_members(12))
  then have "alike c1 c2" by (simp add: c2_def)
  note k2 = alike_ok [OF this]
  have "awaited c2 pns \<inter> acked_chains rs ctl (sc_unacked_packets ctl pns) = {}" if fl
  proof -
    let ?D = "acked_chains rs ctl (sc_unacked_packets ctl pns)"
    have "sc_heap c1 q = None" if "q \<in> ?D" for q
    proof (rule ccontr)
      assume "sc_heap c1 q \<noteq> None"
      then obtain y where "sc_heap c1 q = Some y" by auto
      with c1(5) \<open>fl\<close> obtain z where "without (sc_heap c) ?D q = Some z" unfolding gone_def by (meson touched_heapD2)
      then show False using that by (simp add: without_def)
    qed
    then have "awaited c1 pns \<inter> ?D = {}" by (auto simp: awaited_def)
    then show ?thesis using shrinks_awaited [OF k2(3)] by blast
  qed
  moreover have "shrinks ctl c2" using k(3) c1(4) k2(3) shrinks_trans by blast
  ultimately show ?thesis using False c1(1-3) k2(1,2) unfolding Let_def c_def [symmetric] by (simp add: c2_def)
qed

lemma armed_empty:
  assumes "sc_inv ctl" "sc_unacked_packets ctl pns = []"
  shows "armed ctl pns"
proof -
  have "p \<notin> awaited ctl pns" for p
    using viewD(5) [OF sc_invD(1) [OF assms(1)], of p pns] assms(2) by (auto simp: awaited_def awaits_ack_def q_pns_def)
  then show ?thesis by (auto simp: armed_def)
qed

text \<open>What an acknowledgement comes to: the handler returns, the invariant holds, the alarms stay set where they have to be,
  and unless the acknowledgement is refused nothing that it covers awaits an acknowledgement any more.\<close>

definition ack_handled :: "ack_info \<Rightarrow> send_ctl \<Rightarrow> (send_ctl \<times> int) option \<Rightarrow> bool" where
  "ack_handled acki ctl r \<longleftrightarrow> (\<exists>ctl' res. r = Some (ctl', res) \<and> sc_inv ctl' \<and> rounds_left ctl'
     \<and> (\<forall>q. armed ctl q \<longrightarrow> armed ctl' q) \<and> (\<forall>q. awaited ctl' q \<subseteq> awaited ctl q) \<and> sc_retx_frames ctl' = sc_retx_frames ctl
     \<and> (res = 0 \<longrightarrow> armed ctl' (ai_pns acki)
          \<and> awaited ctl' (ai_pns acki) \<inter> acked_chains (ai_ranges acki) ctl (sc_unacked_packets ctl (ai_pns acki)) = {}))"

lemma ack_handledI:
  "r = Some (ctl', res) \<Longrightarrow> sc_inv ctl' \<Longrightarrow> rounds_left ctl' \<Longrightarrow> shrinks ctl ctl' \<Longrightarrow>
   (res = 0 \<Longrightarrow> armed ctl' (ai_pns acki) \<and> awaited ctl' (ai_pns acki) \<inter> acked_chains (ai_ranges acki) ctl (sc_unacked_packets ctl (ai_pns acki)) = {}) \<Longrightarrow>
   ack_handled acki ctl r"
  unfolding ack_handled_def using shrinks_armed shrinks_awaited by (auto simp: shrinks_def)

lemma got_ack_parts:
  fixes acki
  defines "pns \<equiv> ai_pns acki" and "rs \<equiv> ai_ranges acki"
  assumes inv: "sc_inv ctl" and r: "rounds_left ctl" and c: "shrinks ctl c2" "sc_inv c2" "rounds_left c2" and al: "\<And>q. \<not> env_alloc_fails env q"
    and fl: "fl \<longrightarrow> awaited c2 pns \<inter> acked_chains rs ctl (sc_unacked_packets ctl pns) = {}"
  shows "ack_handled acki ctl (if \<not> fl then Some (c2, - 1)
           else do { ctl \<leftarrow> after_acks env acki now acc c2; Some (finish_got_ack env acki n ctl, 0) })"
proof (cases fl)
  case False
  then show ?thesis using c by (intro ack_handledI [of _ c2 "- 1"]) simp_all
next
  case True
  from after_acks_ok [OF c(2,3) al, of acki pns now acc] obtain c3 where c3: "after_acks env acki now acc c2 = Some c3" "sc_inv c3" "rounds_left c3"
    "armed c3 pns" "\<forall>q. q \<noteq> pns \<longrightarrow> armed c2 q \<longrightarrow> armed c3 q" "\<forall>q. awaited c3 q \<subseteq> awaited c2 q"
    "sc_retx_frames c3 = sc_retx_frames c2" by (auto simp: pns_def)
  define c4 where "c4 = finish_got_ack env acki n c3"
  note k4 = finish_got_ack_ok [OF c3(2,3), of env acki n, folded c4_def]
  have "armed c4 q" if "armed ctl q" for q
    using shrinks_armed [OF c(1) that] c3(4,5) shrinks_armed [OF k4(3)] by (cases "q = pns") auto
  have a4: "awaited c4 q \<subseteq> awaited c2 q" for q using shrinks_awaited [OF k4(3)] c3(6) by blast
  have "awaited c2 pns \<inter> acked_chains rs ctl (sc_unacked_packets ctl pns) = {}" using fl True by simp
  with a4 have "\<forall>q. awaited c4 q \<subseteq> awaited ctl q" "awaited c4 pns \<inter> acked_chains rs ctl (sc_unacked_packets ctl pns) = {}"
    using shrinks_awaited [OF c(1)] by blast+
  moreover have "sc_retx_frames c4 = sc_retx_frames ctl" using k4(3) c3(7) c(1) by (simp add: shrinks_def)
  ultimately show ?thesis unfolding ack_handled_def pns_def [symmetric] rs_def [symmetric]
    using True c3(1) k4 shrinks_armed [OF k4(3) c3(4)] \<open>\<And>q. armed ctl q \<Longrightarrow> armed c4 q\<close>
    by (intro exI [of _ c4] exI [of _ 0]) (simp add: c4_def)
qed

lemma got_ack_empty:
  fixes acki
  assumes inv: "sc_inv ctl" and r: "rounds_left ctl" and e: "sc_unacked_packets ctl (ai_pns acki) = []"
    and le: "\<not> largest_acked acki > sc_last_sent ctl"
  shows "ack_handled acki ctl (lsquic_send_ctl_got_ack env ctl acki t now)"
proof -
  define c2 where "c2 = ctl\<lparr>sc_ack_recv := (sc_ack_recv ctl)(ai_pns acki := True), sc_was_quiet := True\<rparr>"
  have "alike ctl c2" unfolding c2_def by (rule alike_trans [OF alike_members(9)]) (rule alike_members(2))
  note k = alike_ok [OF this]
  define c3 where "c3 = finish_got_ack env acki (sc_last_sent ctl + 1) c2"
  note k3 = finish_got_ack_ok [OF k(1) [OF inv] k(2) [OF r], of env acki "sc_last_sent ctl + 1", folded c3_def]
  have s: "shrinks ctl c3" by (rule shrinks_trans [OF k(3) k3(3)])
  have "lsquic_send_ctl_got_ack env ctl acki t now = Some (c3, 0)"
    using le e by (simp add: lsquic_send_ctl_got_ack_def Let_def first_pid_def c2_def c3_def)
  then show ?thesis using k3(1,2) s shrinks_armed [OF s armed_empty [OF inv e]] e
    by (intro ack_handledI [of _ c3 0]) (simp_all add: acked_chains_def)
qed

lemma got_ack_some:
  fixes acki
  defines "pns \<equiv> ai_pns acki" and "rs \<equiv> ai_ranges acki"
  assumes inv: "sc_inv ctl" and r: "rounds_left ctl" and al: "\<And>q. \<not> env_alloc_fails env q" and ok: "ranges_ok rs"
    and q: "sc_unacked_packets ctl pns = p # ps" and le: "\<not> largest_acked acki > sc_last_sent ctl"
  shows "ack_handled acki ctl (lsquic_send_ctl_got_ack env ctl acki t now)"
proof -
  define c1 where "c1 = ctl\<lparr>sc_ack_recv := (sc_ack_recv ctl)(pns := True), sc_was_quiet := False\<rparr>"
  have "alike ctl c1" unfolding c1_def by (rule alike_trans [OF alike_members(9)]) (rule alike_members(2))
  note k = alike_ok [OF this]
  have h: "sc_heap c1 = sc_heap ctl" "sc_unacked_packets c1 = sc_unacked_packets ctl" by (simp_all add: c1_def)
  have "p \<in> set (sc_unacked_packets ctl pns)" using q by simp
  then obtain x where x: "sc_heap ctl p = Some x" using viewD(5) [OF sc_invD(1) [OF inv]] by blast
  let ?acc = "\<lparr>aa_do_rtt = False, aa_ecn_total = 0, aa_ecn_ce = 0, aa_one_rtt = 0, aa_ack2ed = 0\<rparr>"
  have "pn c1 = pn ctl" by (rule ext) (simp add: pn_def h)
  then have ac: "acked_chains rs c1 qs = acked_chains rs ctl qs" for qs by (simp add: acked_chains_def h)
  have q1: "sc_unacked_packets c1 pns = p # ps" "sc_heap c1 p = Some x" using q x by (simp_all add: h)
  note part = acked_part_ok [where env = env and acki = acki and acc = ?acc and t = t, folded pns_def rs_def, OF k(1) [OF inv] k(2) [OF r] al ok q1]
  from part obtain c2 fl acc where c2: "(if po_packno x > largest_acked acki then Some (c1, True, ?acc)
              else do {
                let ctl = (if largest_acked acki > sc_cur_rt_end c1
                           then c1\<lparr>sc_rt_count := sc_rt_count c1 + 1, sc_cur_rt_end := sc_last_sent c1\<rparr> else c1);
                (ctl, ok, acc) \<leftarrow> got_ack_loop env acki (sc_largest_acked_packno ctl) p (length rs - 1) False ?acc ctl;
                Some (if ok \<and> aa_do_rtt acc
                      then (take_rtt_sample ctl t (ai_lack_delta acki))\<lparr>sc_n_consec_rtos := 0, sc_n_hsk := 0, sc_n_tlp := 0\<rparr>
                      else ctl, ok, acc)
              }) = Some (c2, fl, acc)" (is "?part = _") "sc_inv c2" "rounds_left c2" "shrinks c1 c2"
    "fl \<longrightarrow> awaited c2 pns \<inter> acked_chains rs ctl (sc_unacked_packets ctl pns) = {}" unfolding ac h by blast
  have "lsquic_send_ctl_got_ack env ctl acki t now = do { (ctl, ok, acc) \<leftarrow> ?part; if \<not> ok then Some (ctl, - 1)
     else do { ctl \<leftarrow> after_acks env acki now acc ctl; Some (finish_got_ack env acki (po_packno x) ctl, 0) } }"
    unfolding lsquic_send_ctl_got_ack_def Let_def pns_def [symmetric] rs_def [symmetric] first_pid_def
    using le q x by (simp add: c1_def)
  also have "\<dots> = (if \<not> fl then Some (c2, - 1)
     else do { ctl \<leftarrow> after_acks env acki now acc c2; Some (finish_got_ack env acki (po_packno x) ctl, 0) })" unfolding c2(1) by simp
  finally have e: "lsquic_send_ctl_got_ack env ctl acki t now = \<dots>" .
  show ?thesis unfolding e by (rule got_ack_parts [OF inv r shrinks_trans [OF k(3) c2(4)] c2(2,3) al c2(5) [unfolded pns_def rs_def]])
qed

lemma got_ack_total:
  fixes acki
  assumes inv: "sc_inv ctl" and r: "rounds_left ctl" and al: "\<And>q. \<not> env_alloc_fails env q" and ok: "ranges_ok (ai_ranges acki)"
  shows "ack_handled acki ctl (lsquic_send_ctl_got_ack env ctl acki t now)"
proof (cases "largest_acked acki > sc_last_sent ctl")
  case True
  define c where "c = ctl\<lparr>sc_ack_recv := (sc_ack_recv ctl)(ai_pns acki := True)\<rparr>"
  have "alike ctl c" by (simp add: c_def)
  note k = alike_ok [OF this]
  have "lsquic_send_ctl_got_ack env ctl acki t now = Some (c, - 1)" using True by (simp add: lsquic_send_ctl_got_ack_def Let_def c_def)
  then show ?thesis using k inv r by (intro ack_handledI [of _ c "- 1"]) simp_all
next
  case False
  then show ?thesis using got_ack_empty [OF inv r] got_ack_some [OF inv r al ok] by (cases "sc_unacked_packets ctl (ai_pns acki)") blast+
qed

section \<open>Timeouts\<close>

lemma alarm_off:
  "sc_inv ctl \<Longrightarrow> sc_inv (ctl\<lparr>sc_al_retx := al\<rparr>)" "rounds_left ctl \<Longrightarrow> rounds_left (ctl\<lparr>sc_al_retx := al\<rparr>)"
  "awaited (ctl\<lparr>sc_al_retx := al\<rparr>) q = awaited ctl q"
  "q \<noteq> pns \<Longrightarrow> armed (ctl\<lparr>sc_al_retx := (sc_al_retx ctl)(pns := a)\<rparr>) q = armed ctl q"
  by (simp_all add: clear_alarm_inv rounds_left_def awaited_def armed_def)

lemma timer_members [simp]:
  "alike c (c\<lparr>sc_n_tlp := n\<rparr>)" "alike c (c\<lparr>sc_last_rto_time := t, sc_n_consec_rtos := n, sc_next_limit := m\<rparr>)"
  by (simp_all add: alike_def core_def)

lemma alarm_mode_ok:
  assumes inv: "sc_inv ctl" and r: "rounds_left ctl" and al: "\<And>q. \<not> env_alloc_fails env q"
  shows "\<exists>ctl'. (case get_retx_mode ctl of
         RETX_MODE_HANDSHAKE \<Rightarrow> send_ctl_expire env ctl pns EXFI_HSK
       | RETX_MODE_LOSS \<Rightarrow> do { (ctl, _) \<leftarrow> send_ctl_detect_losses env ctl pns; Some ctl }
       | RETX_MODE_TLP \<Rightarrow> send_ctl_expire env (ctl\<lparr>sc_n_tlp := sc_n_tlp ctl + 1\<rparr>) pns EXFI_LAST
       | RETX_MODE_RTO \<Rightarrow> send_ctl_expire env (ctl\<lparr>sc_last_rto_time := now, sc_n_consec_rtos := sc_n_consec_rtos ctl + 1, sc_next_limit := 2\<rparr>)
                            pns EXFI_ALL) = Some ctl' \<and> sc_inv ctl' \<and> rounds_left ctl' \<and> shrinks ctl ctl'"
proof -
  have x: "\<exists>ctl'. send_ctl_expire env c pns f = Some ctl' \<and> sc_inv ctl' \<and> rounds_left ctl' \<and> shrinks ctl ctl'" if "alike ctl c" for c f
    using expire_ok [OF alike_ok(1) [OF that inv] alike_ok(2) [OF that r], of env pns f] shrinks_trans [OF alike_ok(3) [OF that]] by blast
  show ?thesis
  proof (cases "get_retx_mode ctl")
    case RETX_MODE_LOSS
    then show ?thesis using detect_losses_ok [OF inv r al, of pns] by auto
  qed (simp_all add: x)
qed

text \<open>After the alarm has rung it is set again if anything is left whose loss has to be noticed.\<close>

definition alarm_handled :: "packnum_space \<Rightarrow> qtime \<Rightarrow> send_ctl \<Rightarrow> send_ctl option \<Rightarrow> bool" where
  "alarm_handled pns now ctl r \<longleftrightarrow> (\<exists>ctl'. r = Some ctl' \<and> sc_inv ctl' \<and> rounds_left ctl' \<and> (\<forall>q. awaited ctl' q \<subseteq> awaited ctl q)
     \<and> sc_retx_frames ctl' = sc_retx_frames ctl \<and> armed ctl' pns \<and> (\<forall>q. armed ctl q \<longrightarrow> armed ctl' q) \<and> (\<forall>t. sc_al_retx ctl' pns = Some t \<longrightarrow> (\<exists>d \<le> MAX_RTO_DELAY. t = now + d)))"

lemma retx_alarm_rings_ok:
  assumes inv: "sc_inv ctl" and r: "rounds_left ctl" and al: "\<And>q. \<not> env_alloc_fails env q"
  shows "alarm_handled pns now ctl (retx_alarm_rings env ctl pns now)"
proof -
  define c where "c = ctl\<lparr>sc_al_retx := (sc_al_retx ctl)(pns := None)\<rparr>"
  from alarm_mode_ok [where ctl = c and now = now and pns = pns and env = env] inv r al obtain c1 where
    c1: "(case get_retx_mode c of
         RETX_MODE_HANDSHAKE \<Rightarrow> send_ctl_expire env c pns EXFI_HSK
       | RETX_MODE_LOSS \<Rightarrow> do { (ctl, _) \<leftarrow> send_ctl_detect_losses env c pns; Some ctl }
       | RETX_MODE_TLP \<Rightarrow> send_ctl_expire env (c\<lparr>sc_n_tlp := sc_n_tlp c + 1\<rparr>) pns EXFI_LAST
       | RETX_MODE_RTO \<Rightarrow> send_ctl_expire env (c\<lparr>sc_last_rto_time := now, sc_n_consec_rtos := sc_n_consec_rtos c + 1, sc_next_limit := 2\<rparr>)
                            pns EXFI_ALL) = Some c1" "sc_inv c1" "rounds_left c1" "shrinks c c1"
    unfolding c_def using alarm_off(1,2) by blast
  define c2 where "c2 = (if send_ctl_first_unacked_retx_packet c1 pns \<noteq> None then set_retx_alarm c1 pns now else c1\<lparr>sc_al_retx := (sc_al_retx c1)(pns := None)\<rparr>)"
  note a = renew_alarm_ok [OF c1(2,3) c2_def]
  have "sc_al_retx c1 pns = None" using c1(4) by (simp add: shrinks_def c_def)
  then have "c1\<lparr>sc_al_retx := (sc_al_retx c1)(pns := None)\<rparr> = c1" by (simp add: fun_upd_idem)
  then have e: "retx_alarm_rings env ctl pns now = Some c2"
    unfolding retx_alarm_rings_def Let_def c_def [symmetric] c1(1) by (simp add: c2_def)
  have "awaited c2 q = awaited c1 q" for q by (simp add: c2_def awaited_def set_retx_alarm_frame)
  then have w: "awaited c2 q \<subseteq> awaited ctl q" for q using shrinks_awaited [OF c1(4)] by (simp add: c_def alarm_off(3))
  have "armed c2 q" if "armed ctl q" for q
  proof (cases "q = pns")
    case False
    then have "armed c q" using that alarm_off(4) by (simp add: c_def)
    then show ?thesis using a(4) [OF False] shrinks_armed [OF c1(4)] by blast
  qed (simp add: a(3))
  moreover have "sc_retx_frames c2 = sc_retx_frames ctl" using a(6) c1(4) by (simp add: shrinks_def c_def)
  ultimately show ?thesis unfolding alarm_handled_def e using a w by blast
qed

lemma expire_space_ok:
  fixes c pns
  defines "c0 \<equiv> c\<lparr>sc_al_retx := (sc_al_retx c)(pns := None)\<rparr>"
  assumes i: "sc_inv c" "rounds_left c"
  shows "\<exists>c'. send_ctl_expire env c0 pns EXFI_ALL = Some c' \<and> sc_inv c' \<and> rounds_left c' \<and> (\<forall>q. awaited c' q \<subseteq> awaited c q)
    \<and> awaited c' pns = {} \<and> (\<forall>q. armed c q \<longrightarrow> armed c' q) \<and> sc_retx_frames c' = sc_retx_frames c"
proof -
  have "sc_inv c0" "rounds_left c0" using i by (simp_all add: c0_def alarm_off)
  from expire_ok [OF this, of env pns EXFI_ALL] obtain c' where
    c': "send_ctl_expire env c0 pns EXFI_ALL = Some c'" "sc_inv c'" "rounds_left c'" "shrinks c0 c'"
    "\<And>p y. sc_heap c' p = Some y \<Longrightarrow> awaits_ack (sc_retx_frames c0) y \<Longrightarrow> po_pns y \<noteq> pns" by blast
  have rf: "sc_retx_frames c' = sc_retx_frames c0" using c'(4) by (simp add: shrinks_def)
  with c'(5) have n: "awaited c' pns = {}" by (auto simp: awaited_def)
  then have "armed c' q" if "armed c q" for q
    using that alarm_off(4) [of q pns c None] shrinks_armed [OF c'(4), of q] by (cases "q = pns") (auto simp: c0_def armed_def)
  moreover have "awaited c' q \<subseteq> awaited c q" for q using shrinks_awaited [OF c'(4), of q] by (simp add: c0_def alarm_off)
  moreover have "sc_retx_frames c' = sc_retx_frames c" using rf by (simp add: c0_def)
  ultimately show ?thesis using c'(1-3) n by blast
qed

lemma expire_all_ok:
  assumes "sc_inv ctl" "rounds_left ctl"
  shows "\<exists>ctl'. lsquic_send_ctl_expire_all env ctl = Some ctl' \<and> sc_inv ctl' \<and> rounds_left ctl' \<and> (\<forall>q. awaited ctl' q \<subseteq> awaited ctl q)
    \<and> (\<forall>q. q = PNS_APP \<or> sc_ietf ctl \<longrightarrow> awaited ctl' q = {}) \<and> (\<forall>q. armed ctl q \<longrightarrow> armed ctl' q)
    \<and> sc_retx_frames ctl' = sc_retx_frames ctl"
proof (cases "sc_ietf ctl")
  case False
  from expire_space_ok [OF assms, of env PNS_APP] show ?thesis
    using False unfolding lsquic_send_ctl_expire_all_def Let_def by auto
next
  case True
  from expire_space_ok [OF assms, of env PNS_INIT] obtain c1 where
    c1: "send_ctl_expire env (ctl\<lparr>sc_al_retx := (sc_al_retx ctl)(PNS_INIT := None)\<rparr>) PNS_INIT EXFI_ALL = Some c1" "sc_inv c1" "rounds_left c1"
      "\<forall>q. awaited c1 q \<subseteq> awaited ctl q" "awaited c1 PNS_INIT = {}" "\<forall>q. armed ctl q \<longrightarrow> armed c1 q" "sc_retx_frames c1 = sc_retx_frames ctl" by blast
  from expire_space_ok [OF c1(2,3), of env PNS_HSK] obtain c2 where
    c2: "send_ctl_expire env (c1\<lparr>sc_al_retx := (sc_al_retx c1)(PNS_HSK := None)\<rparr>) PNS_HSK EXFI_ALL = Some c2" "sc_inv c2" "rounds_left c2"
      "\<forall>q. awaited c2 q \<subseteq> awaited c1 q" "awaited c2 PNS_HSK = {}" "\<forall>q. armed c1 q \<longrightarrow> armed c2 q" "sc_retx_frames c2 = sc_retx_frames c1" by blast
  from expire_space_ok [OF c2(2,3), of env PNS_APP] obtain c3 where
    c3: "send_ctl_expire env (c2\<lparr>sc_al_retx := (sc_al_retx c2)(PNS_APP := None)\<rparr>) PNS_APP EXFI_ALL = Some c3" "sc_inv c3" "rounds_left c3"
      "\<forall>q. awaited c3 q \<subseteq> awaited c2 q" "awaited c3 PNS_APP = {}" "\<forall>q. armed c2 q \<longrightarrow> armed c3 q" "sc_retx_frames c3 = sc_retx_frames c2" by blast
  have "lsquic_send_ctl_expire_all env ctl = Some c3"
    unfolding lsquic_send_ctl_expire_all_def Let_def using True c1(1) c2(1) c3(1) by simp
  moreover have "awaited c3 q = {}" for q using c1(5) c2(4,5) c3(4,5) by (cases q) blast+
  moreover have "awaited c3 q \<subseteq> awaited ctl q" for q using c1(4) c2(4) c3(4) by blast
  ultimately show ?thesis using c3(2,3) c1(6,7) c2(6,7) c3(6,7) by auto
qed

section \<open>Sending\<close>

text \<open>A packet that is in no queue, such as one that has just been created or taken from the scheduled queue.\<close>

definition unqueued :: "sc_packet \<Rightarrow> bool" where
  "unqueued x \<longleftrightarrow> \<not> po_sched x \<and> \<not> po_unacked x \<and> \<not> po_lost x"

lemma unqueued_ok: "packet_ok p x \<Longrightarrow> unqueued x \<Longrightarrow> \<not> po_loss_rec x \<and> \<not> po_poison x"
  by (auto simp: packet_ok_def unqueued_def)

lemma view_detached:
  assumes v: "sc_view h ctl" and p: "h p = Some x" "unqueued x"
  shows "sc_view (h(p := None)) ctl"
proof (rule view_gone [OF v p(1)])
  have "p \<notin> set (sc_unacked_packets ctl pns)" "p \<notin> set (sc_scheduled_packets ctl)" "p \<notin> set (sc_lost_packets ctl)" for pns
    using viewD(5,7,9) [OF v, of p] p by (auto simp: unqueued_def)
  then show "sc_unacked_packets ctl = (sc_unacked_packets ctl)(q_pns x := remove1 p (sc_unacked_packets ctl (q_pns x)))"
    "sc_scheduled_packets ctl = remove1 p (sc_scheduled_packets ctl)" "sc_lost_packets ctl = remove1 p (sc_lost_packets ctl)"
    by (simp_all add: remove1_idem)
qed (use p in \<open>simp_all add: weights unqueued_def\<close>)

text \<open>The packet numbers are drawn from one sequence for all packet number spaces.\<close>

definition next_no :: "send_ctl \<Rightarrow> packno \<Rightarrow> bool" where
  "next_no ctl n \<longleftrightarrow> (\<forall>p x. sc_heap ctl p = Some x \<longrightarrow> po_unacked x \<longrightarrow> po_packno x < n)"

lemma sorted_append_last: "sorted (map f xs) \<Longrightarrow> (\<And>x. x \<in> set xs \<Longrightarrow> f x \<le> f y) \<Longrightarrow> sorted (map f (xs @ [y]))"
  by (simp add: sorted_append)

lemma unacked_append_ok:
  assumes inv: "sc_inv ctl" and r: "rounds_left ctl" and p: "sc_heap ctl p = Some x" "unqueued x" "po_retrans_times x < 19"
    and n: "next_no ctl (po_packno x)"
  shows "\<exists>ctl'. send_ctl_unacked_append ctl p = Some ctl' \<and> sc_inv ctl' \<and> rounds_left ctl'
    \<and> sc_heap ctl' = (sc_heap ctl)(p \<mapsto> x\<lparr>po_unacked := True\<rparr>) \<and> sc_al_retx ctl' = sc_al_retx ctl \<and> sc_retx_frames ctl' = sc_retx_frames ctl
    \<and> sc_n_in_flight_all ctl' = sc_n_in_flight_all ctl + 1"
proof -
  have v: "sc_view (sc_heap ctl) ctl" by (rule sc_invD(1) [OF inv])
  have ok: "packet_ok p x" by (rule viewD(3) [OF v p(1)])
  note nl = unqueued_ok [OF ok p(2)]
  let ?pns = "po_pns x" and ?y = "x\<lparr>po_unacked := True\<rparr>"
  define h where "h = (sc_heap ctl)(p \<mapsto> ?y)"
  define u where "u = (sc_unacked_packets ctl)(?pns := sc_unacked_packets ctl ?pns @ [p])"
  define c where "c = ctl\<lparr>sc_unacked_packets := u, sc_heap := h,
      sc_bytes_unacked_all := sc_bytes_unacked_all ctl + packet_out_sent_sz x, sc_n_in_flight_all := sc_n_in_flight_all ctl + 1\<rparr>"
  define c' where "c' = (if has_frames x (sc_retx_frames ctl)
     then c\<lparr>sc_bytes_unacked_retx := sc_bytes_unacked_retx c + po_total_sz x, sc_n_in_flight_retx := sc_n_in_flight_retx c + 1\<rparr> else c)"
  have m: "sc_heap c' = h" "sc_unacked_packets c' = u" "sc_scheduled_packets c' = sc_scheduled_packets ctl" "sc_lost_packets c' = sc_lost_packets ctl"
    "sc_fresh c' = sc_fresh ctl" "sc_retx_frames c' = sc_retx_frames ctl" "sc_n_in_flight_all c' = sc_n_in_flight_all ctl + 1"
    "sc_bytes_unacked_all c' = sc_bytes_unacked_all ctl + packet_out_sent_sz x" "sc_n_scheduled c' = sc_n_scheduled ctl"
    "sc_n_in_flight_retx c' = sc_n_in_flight_retx ctl + of_bool (has_frames x (sc_retx_frames ctl))"
    "sc_bytes_scheduled c' = sc_bytes_scheduled ctl" "sc_lost_packet_number c' = sc_lost_packet_number ctl"
    "art_ok c' = art_ok ctl" "sc_al_retx c' = sc_al_retx ctl"
    by (simp_all add: c_def c'_def art_ok_def)
  have e: "send_ctl_unacked_append ctl p = Some c'"
    by (simp add: send_ctl_unacked_append_def p(1) upd_packet_def set_unacked_def h_def u_def c_def c'_def)
  note d = view_detached [OF v p(1,2)]
  have out: "p \<notin> set (sc_unacked_packets ctl pns)" for pns using viewD(5) [OF d, of p pns] by simp
  have "packet_ok p ?y" using ok p(2) nl by (simp add: packet_ok_def unqueued_def)
  moreover have "p < sc_fresh ctl" using viewD(2) [OF v] p(1) by auto
  ultimately have "sc_view (((sc_heap ctl)(p := None))(p \<mapsto> ?y)) c'"
    by (intro view_comes [OF d]) (use viewD(4,6,8) [OF v] p(2) nl out in \<open>auto simp: weights q_pns_def unqueued_def u_def m packet_out_sent_sz_def has_frames_def\<close>)
  then have "sc_view (sc_heap c') c'" by (simp add: h_def m)
  moreover have "chains (sc_heap c')" using chains_upd [OF sc_invD(2) [OF inv] p(1), of ?y] by (simp add: h_def m)
  moreover have "art_ok c'" using sc_invD(3) [OF inv] by (simp add: m)
  moreover have "queues_sorted c'"
  proof (rule queues_sorted_cong [OF sc_invD(4) [OF inv]], intro exI conjI)
    fix pns
    have s: "sorted (map (pn ctl) (sc_unacked_packets ctl pns))" using sc_invD(4) [OF inv] by (simp add: queues_sorted_def)
    have "pn ctl q \<le> pn ctl p" if "q \<in> set (sc_unacked_packets ctl pns)" for q
      using viewD(5) [OF v, of q pns] that n p(1) by (auto simp: next_no_def pn_def intro: less_imp_le)
    with s show "sorted (map (pn ctl) (sc_unacked_packets c' pns))" by (auto simp: u_def m sorted_append)
    show "\<forall>q \<in> set (sc_unacked_packets c' pns). pn c' q = pn ctl q" by (auto simp: pn_def h_def m p(1))
  qed simp
  ultimately have "sc_inv c'" by (simp add: sc_inv_def)
  moreover have "rounds_left c'" using r p(3) by (auto simp: rounds_left_def h_def m split: if_splits)
  ultimately show ?thesis using e by (intro exI [of _ c']) (simp add: h_def m)
qed

lemma chains_fresh:
  assumes "chains h" "h r = None" "po_loss_chain x = r"
  shows "chains (h(r \<mapsto> x))"
proof -
  have "nx (h(r \<mapsto> x)) = (nx h)(r \<mapsto> r)" using assms(3) by (auto simp: nx_def)
  then have "all_cyc (nx (h(r \<mapsto> x)))" using all_cyc_new [of "nx h" r] assms by (simp add: chains_def nx_def)
  moreover have "po_loss_chain y \<noteq> r" if "h p = Some y" for p y
  proof
    assume "po_loss_chain y = r"
    with that have n: "nx h p = Some r" by (simp add: nx_Some)
    then obtain ys where ys: "cyc (nx h) p ys" using assms(1) unfolding chains_def all_cyc_def by blast
    have "r \<in> set (p # ys)" by (rule cyc_closed [OF ys _ n]) simp
    moreover have "set (p # ys) \<subseteq> dom (nx h)" using ys links_dom [of "nx h" p ys p] by (simp add: cyc_def)
    ultimately have "r \<in> dom (nx h)" by (rule subsetD [rotated])
    then show False using assms(2) by (simp add: nx_def domIff)
  qed
  ultimately show ?thesis using assms by (auto simp: chains_def split: if_splits)
qed

lemma next_no_member:
  assumes "sc_inv ctl" "next_no ctl (n + 1)" "n < n + 1" "q \<in> set (sc_unacked_packets ctl pns)"
  shows "pn ctl q \<le> n"
proof -
  from viewD(5) [OF sc_invD(1) [OF assms(1)], of q pns] assms(4) obtain y where "sc_heap ctl q = Some y" "po_unacked y" by blast
  then have "pn ctl q < n + 1" using assms(2) by (auto simp: next_no_def pn_def)
  then show ?thesis using assms(3) by (simp add: word_less_nat_alt word_le_nat_alt unat_word_ariths)
qed

text \<open>Nothing that awaits an acknowledgement is added, and the packet about to be sent is left alone.\<close>

definition poison_added :: "send_ctl \<Rightarrow> send_ctl \<Rightarrow> bool" where
  "poison_added ctl c \<longleftrightarrow> sc_inv c \<and> rounds_left c \<and> shrinks ctl c \<and> (\<forall>p x. sc_heap ctl p = Some x \<longrightarrow> sc_heap c p = Some x)
     \<and> (\<forall>p x. sc_heap c p = Some x \<longrightarrow> sc_heap ctl p = Some x \<or> po_packno x = sc_gap ctl) \<and> sc_n_in_flight_all c = sc_n_in_flight_all ctl"

lemma add_poison_ok:
  assumes inv: "sc_inv ctl" and r: "rounds_left ctl" and g: "next_no ctl (sc_gap ctl + 1)" "sc_gap ctl < sc_gap ctl + 1"
  shows "poison_added ctl (fst (send_ctl_add_poison env ctl))"
proof (cases "env_alloc_fails env (sc_fresh ctl)")
  case True
  define c where "c = ctl\<lparr>sc_fresh := sc_fresh ctl + 1\<rparr>"
  have "sc_inv c" by (rule core_inv [OF _ _ inv]) (simp_all add: core_def c_def)
  moreover have "fst (send_ctl_add_poison env ctl) = c" using True by (simp add: send_ctl_add_poison_def malo_get_def c_def)
  ultimately show ?thesis using r by (simp add: poison_added_def rounds_left_def shrinks_def c_def)
next
  case False
  have v: "sc_view (sc_heap ctl) ctl" by (rule sc_invD(1) [OF inv])
  let ?r = "sc_fresh ctl" and ?u = "sc_unacked_packets ctl PNS_APP @ [sc_fresh ctl]"
  define x where "x = zero_packet\<lparr>po_unacked := True, po_poison := True, po_packno := sc_gap ctl, po_loss_chain := ?r\<rparr>"
  define h where "h = (sc_heap ctl)(?r \<mapsto> x)"
  have x: "packet_ok ?r x" "po_unacked x" "po_poison x" "\<not> po_sched x" "\<not> po_lost x" "po_frame_types x = 0" "po_loss_chain x = ?r" "po_packno x = sc_gap ctl"
    "po_retrans_times x = 0" by (simp_all add: x_def zero_packet_def packet_ok_def)
  define c where "c = ctl\<lparr>sc_fresh := ?r + 1, sc_heap := h, sc_has_poison := True, sc_unacked_packets := (sc_unacked_packets ctl)(PNS_APP := ?u)\<rparr>"
  have e: "fst (send_ctl_add_poison env ctl) = c"
    using False by (simp add: send_ctl_add_poison_def malo_get_def set_unacked_def c_def h_def x_def)
  have new: "sc_heap ctl ?r = None" using viewD(2) [OF v] by (auto simp: dom_def)
  then have out: "?r \<notin> set (sc_unacked_packets ctl pns)" for pns using viewD(5) [OF v, of ?r pns] by simp
  have "sc_view h c" unfolding h_def
    by (rule view_comes [OF v new x(1)]) (use viewD(4,6,8) [OF v] out x in \<open>auto simp: c_def weights q_pns_def has_frames_def\<close>)
  moreover have "chains h" unfolding h_def by (rule chains_fresh [OF sc_invD(2) [OF inv] new x(7)])
  moreover have "art_ok c" using sc_invD(3) [OF inv] by (simp add: art_ok_def c_def)
  moreover have pn: "pn c q = (if q = ?r then sc_gap ctl else pn ctl q)" for q by (simp add: pn_def c_def h_def x)
  have "queues_sorted c" unfolding queues_sorted_def
  proof
    fix pns
    have "sorted (map (pn ctl) (sc_unacked_packets ctl pns))" using sc_invD(4) [OF inv] by (simp add: queues_sorted_def)
    moreover have "map (pn c) (sc_unacked_packets ctl pns) = map (pn ctl) (sc_unacked_packets ctl pns)"
      by (rule map_cong [OF refl]) (use out in \<open>auto simp: pn\<close>)
    ultimately have s: "sorted (map (pn c) (sc_unacked_packets ctl pns))" by (rule back_subst [of sorted, OF _ sym])
    have "pn c q \<le> pn c ?r" if "q \<in> set (sc_unacked_packets ctl pns)" for q
      using next_no_member [OF inv g that] by (simp add: pn)
    with s show "sorted (map (pn c) (sc_unacked_packets c pns))" by (auto simp: c_def sorted_append)
  qed
  ultimately have "sc_inv c" by (simp add: sc_inv_def c_def)
  moreover have "rounds_left c" using r x by (auto simp: rounds_left_def c_def h_def)
  moreover have "shrinks ctl c" using x(3) by (auto simp: shrinks_def c_def h_def awaits_ack_def split: if_splits)
  ultimately show ?thesis using new x(8) unfolding poison_added_def e by (auto simp: c_def h_def)
qed

lemma poison_hist_ok:
  assumes inv: "sc_inv ctl" and r: "rounds_left ctl" and n: "next_no ctl n" and g: "sc_gap ctl < sc_gap ctl + 1"
  shows "poison_added ctl (fst (send_ctl_update_poison_hist env ctl n)) \<and> next_no (fst (send_ctl_update_poison_hist env ctl n)) n"
proof (cases "n = sc_gap ctl + 1")
  case False
  then show ?thesis using assms by (simp add: send_ctl_update_poison_hist_def poison_added_def)
next
  case True
  define c where "c = ctl\<lparr>sc_last_sent := lsquic_senhist_add (sc_last_sent ctl) (sc_gap ctl)\<rparr>"
  have a: "alike ctl c" by (simp add: c_def)
  note k = alike_ok [OF a]
  have h: "sc_heap c = sc_heap ctl" "sc_gap c = sc_gap ctl" "sc_n_in_flight_all c = sc_n_in_flight_all ctl" by (simp_all add: c_def)
  have "poison_added c (fst (send_ctl_add_poison env c))"
    by (rule add_poison_ok [OF k(1) [OF inv] k(2) [OF r]]) (use n g True in \<open>simp_all add: h next_no_def\<close>)
  then have pa: "poison_added ctl (fst (send_ctl_add_poison env c))"
    unfolding poison_added_def h using shrinks_trans [OF k(3)] by blast
  moreover have "next_no (fst (send_ctl_add_poison env c)) n"
    using pa n g True unfolding poison_added_def next_no_def by metis
  ultimately show ?thesis using True by (simp add: send_ctl_update_poison_hist_def c_def)
qed

lemma armed_after_sending:
  assumes "armed ctl q" "sc_retx_frames ctl' = sc_retx_frames ctl" "sc_heap ctl' = (sc_heap ctl)(p \<mapsto> y)" "sc_al_retx ctl' q = sc_al_retx ctl q"
    "awaits_ack (sc_retx_frames ctl) y \<Longrightarrow> po_pns y \<noteq> q \<or> sc_al_retx ctl' q \<noteq> None"
  shows "armed ctl' q"
proof (cases "sc_al_retx ctl' q")
  case None
  then have "awaited ctl q = {}" using assms(1,4) by (simp add: armed_def)
  then have "awaited ctl' q = {}" using None assms(2,3,5) by (auto simp: awaited_def split: if_splits)
  then show ?thesis by (simp add: armed_def)
qed (simp add: armed_def)

text \<open>The packet is in its unacked queue; the alarm is set unless it is already.\<close>

lemma alarm_after_sending:
  assumes c: "sc_inv c" "rounds_left c" "sc_heap c = (sc_heap ctl)(p \<mapsto> x\<lparr>po_unacked := True\<rparr>)" "sc_al_retx c = sc_al_retx ctl" "sc_retx_frames c = sc_retx_frames ctl"
    and c': "c' = (if has_frames x (sc_retx_frames c) then
           let ctl = (if sc_al_retx c (po_pns x) = None then set_retx_alarm c (po_pns x) (po_sent x) else c)
           in if sc_n_in_flight_retx ctl = 1 then ctl\<lparr>sc_was_quiet := True\<rparr> else ctl
         else c)"
  shows "sc_inv c'" "rounds_left c'" "sc_heap c' = sc_heap c" "sc_n_in_flight_all c' = sc_n_in_flight_all c" "\<And>q. armed ctl q \<Longrightarrow> armed c' q"
    "sc_retx_frames c' = sc_retx_frames c"
proof -
  define b where "b \<longleftrightarrow> has_frames x (sc_retx_frames c) \<and> sc_al_retx c (po_pns x) = None"
  define c4 where "c4 = (if b then set_retx_alarm c (po_pns x) (po_sent x) else c)"
  have e: "c' = (if has_frames x (sc_retx_frames c) \<and> sc_n_in_flight_retx c4 = 1 then c4\<lparr>sc_was_quiet := True\<rparr> else c4)"
    by (simp add: c' b_def c4_def)
  have a: "alike c4 c'" by (simp add: e)
  note k = alike_ok [OF a]
  have i4: "sc_inv c4" "rounds_left c4" using c(1,2) by (simp_all add: c4_def set_retx_alarm_frame)
  then show "sc_inv c'" "rounds_left c'" using k by simp_all
  have h4: "sc_heap c4 = (sc_heap ctl)(p \<mapsto> x\<lparr>po_unacked := True\<rparr>)" "sc_retx_frames c4 = sc_retx_frames ctl"
    using c(3,5) by (simp_all add: c4_def set_retx_alarm_frame)
  show "sc_heap c' = sc_heap c" "sc_n_in_flight_all c' = sc_n_in_flight_all c" "sc_retx_frames c' = sc_retx_frames c" by (simp_all add: e c4_def set_retx_alarm_frame)
  obtain d where d: "sc_al_retx (set_retx_alarm c (po_pns x) (po_sent x)) = (sc_al_retx c)(po_pns x := Some (po_sent x + d))"
    using set_retx_alarm_deadline [of c "po_pns x" "po_sent x"] by blast
  then have t: "sc_al_retx c4 = (if b then (sc_al_retx ctl)(po_pns x := Some (po_sent x + d)) else sc_al_retx ctl)" by (simp add: c4_def c(4))
  fix q assume q: "armed ctl q"
  have "armed c4 q"
  proof (cases "b \<and> q = po_pns x")
    case True
    then show ?thesis by (simp add: armed_def t)
  next
    case False
    then show ?thesis
      by (intro armed_after_sending [OF q h4(2,1)]) (use c(4,5) in \<open>auto simp: t awaits_ack_def has_frames_def b_def\<close>)
  qed
  then show "armed c' q" by (rule shrinks_armed [OF k(3)])
qed

lemma sent_packet_ok:
  assumes inv: "sc_inv ctl" and r: "rounds_left ctl" and p: "sc_heap ctl p = Some x" "unqueued x" "po_retrans_times x < 19"
    and n: "next_no ctl (po_packno x)" and g: "sc_gap ctl < sc_gap ctl + 1"
  shows "\<exists>ctl' res. lsquic_send_ctl_sent_packet env ctl p = Some (ctl', res) \<and> sc_inv ctl' \<and> rounds_left ctl'
    \<and> (\<forall>q. armed ctl q \<longrightarrow> armed ctl' q)
    \<and> (res = 0 \<longrightarrow> sc_heap ctl' p = Some (x\<lparr>po_unacked := True\<rparr>) \<and> sc_n_in_flight_all ctl' = sc_n_in_flight_all ctl + 1)
    \<and> sc_retx_frames ctl' = sc_retx_frames ctl"
proof -
  define c0 where "c0 = ctl\<lparr>sc_last_sent_time := po_sent x\<rparr>"
  have "alike ctl c0" by (simp add: c0_def)
  note k = alike_ok [OF this]
  obtain c1 ok where c1: "send_ctl_update_poison_hist env c0 (po_packno x) = (c1, ok)" by fastforce
  have "poison_added c0 c1 \<and> next_no c1 (po_packno x)"
    using poison_hist_ok [OF k(1) [OF inv] k(2) [OF r], of "po_packno x" env] n g c1 by (simp add: c0_def next_no_def)
  then have pa: "sc_inv c1" "rounds_left c1" "shrinks c0 c1" "sc_heap c1 p = Some x" "sc_n_in_flight_all c1 = sc_n_in_flight_all ctl"
    and n1: "next_no c1 (po_packno x)" using p(1) by (simp_all add: poison_added_def c0_def)
  have s1: "shrinks ctl c1" by (rule shrinks_trans [OF k(3) pa(3)])
  show ?thesis
  proof (cases ok)
    case False
    then have "lsquic_send_ctl_sent_packet env ctl p = Some (c1, - 1)" using p(1) c1 by (simp add: lsquic_send_ctl_sent_packet_def c0_def)
    moreover have "sc_retx_frames c1 = sc_retx_frames ctl" using s1 by (simp add: shrinks_def)
    ultimately show ?thesis using pa shrinks_armed [OF s1] by simp
  next
    case True
    define c2 where "c2 = c1\<lparr>sc_last_sent := lsquic_senhist_add (sc_last_sent c1) (po_packno x)\<rparr>"
    have "alike c1 c2" by (simp add: c2_def)
    note k2 = alike_ok [OF this]
    have "sc_heap c2 p = Some x" "next_no c2 (po_packno x)" using pa(4) n1 by (simp_all add: c2_def next_no_def)
    from unacked_append_ok [OF k2(1) [OF pa(1)] k2(2) [OF pa(2)] this(1) p(2,3) this(2)] obtain c3 where
      c3: "send_ctl_unacked_append c2 p = Some c3" "sc_inv c3" "rounds_left c3" "sc_heap c3 = (sc_heap c2)(p \<mapsto> x\<lparr>po_unacked := True\<rparr>)"
      "sc_al_retx c3 = sc_al_retx c2" "sc_retx_frames c3 = sc_retx_frames c2" "sc_n_in_flight_all c3 = sc_n_in_flight_all c2 + 1" by blast
    define c5 where "c5 = (if has_frames x (sc_retx_frames c3) then
           let ctl = (if sc_al_retx c3 (po_pns x) = None then set_retx_alarm c3 (po_pns x) (po_sent x) else c3)
           in if sc_n_in_flight_retx ctl = 1 then ctl\<lparr>sc_was_quiet := True\<rparr> else ctl
         else c3)"
    have e: "lsquic_send_ctl_sent_packet env ctl p = Some (c5, 0)"
      unfolding lsquic_send_ctl_sent_packet_def Let_def c0_def [symmetric]
      using p(1) c1 True c3(1) by (simp add: c0_def [symmetric] c2_def [symmetric] c5_def Let_def)
    note k5 = alarm_after_sending [OF c3(2-6) c5_def]
    have "armed c5 q" if "armed ctl q" for q
      by (rule k5(5) [OF shrinks_armed [OF k2(3) shrinks_armed [OF s1 that]]])
    moreover have "sc_heap c5 p = Some (x\<lparr>po_unacked := True\<rparr>)" by (simp add: k5(3) c3(4))
    moreover have "sc_n_in_flight_all c5 = sc_n_in_flight_all ctl + 1" using c3(7) pa(5) by (simp add: k5(4) c2_def)
    moreover have "sc_retx_frames c5 = sc_retx_frames ctl" using k5(6) c3(6) s1 by (simp add: c2_def shrinks_def)
    ultimately show ?thesis using e k5(1,2) by (intro exI [of _ c5] exI [of _ 0]) simp
  qed
qed

section \<open>The scheduled queue\<close>

text \<open>Changes of one packet that is in no unacked queue: what its new state has to satisfy.\<close>

lemma aside_ok:
  assumes inv: "sc_inv ctl" and p: "sc_heap ctl p = Some x" "\<not> po_unacked x"
    and y: "sc_heap ctl' = (sc_heap ctl)(p \<mapsto> y)" "\<not> po_unacked y" "po_loss_chain y = po_loss_chain x" "po_pns y = po_pns x"
    and v: "sc_view (sc_heap ctl') ctl'" and k: "sc_unacked_packets ctl' = sc_unacked_packets ctl" "sc_al_retx ctl' = sc_al_retx ctl"
      "sc_retx_frames ctl' = sc_retx_frames ctl" "art_ok ctl' = art_ok ctl"
  shows "sc_inv ctl'" "rounds_left ctl \<Longrightarrow> rounds_left ctl'" "shrinks ctl ctl'"
proof -
  have "chains (sc_heap ctl')" unfolding y(1) by (rule chains_upd [OF sc_invD(2) [OF inv] p(1) y(3,4)])
  moreover have "queues_sorted ctl'"
  proof (rule queues_sorted_cong [OF sc_invD(4) [OF inv]], intro exI conjI)
    fix pns
    show "sorted (map (pn ctl) (sc_unacked_packets ctl' pns))" using sc_invD(4) [OF inv] by (simp add: queues_sorted_def k)
    have "p \<notin> set (sc_unacked_packets ctl pns)" using viewD(5) [OF sc_invD(1) [OF inv], of p pns] p by auto
    then show "\<forall>q \<in> set (sc_unacked_packets ctl' pns). pn ctl' q = pn ctl q" by (auto simp: k pn_def y(1))
  qed simp
  ultimately show "sc_inv ctl'" using v k(4) sc_invD(3) [OF inv] by (simp add: sc_inv_def)
  show "rounds_left ctl \<Longrightarrow> rounds_left ctl'" using y(2) by (auto simp: rounds_left_def y(1) split: if_splits)
  show "shrinks ctl ctl'" using y(2) k by (auto simp: shrinks_def y(1) awaits_ack_def split: if_splits)
qed

lemma sched_Xpend_ok:
  assumes inv: "sc_inv ctl" and p: "sc_heap ctl p = Some x" "unqueued x"
    and q: "distinct q" "set q = insert p (set (sc_scheduled_packets ctl))"
  shows "\<exists>ctl'. send_ctl_sched_Xpend_common (ctl\<lparr>sc_scheduled_packets := q\<rparr>) p = Some ctl' \<and> sc_inv ctl' \<and> (rounds_left ctl \<longrightarrow> rounds_left ctl')
    \<and> shrinks ctl ctl' \<and> sc_heap ctl' = (sc_heap ctl)(p \<mapsto> x\<lparr>po_sched := True\<rparr>)"
proof -
  have v: "sc_view (sc_heap ctl) ctl" by (rule sc_invD(1) [OF inv])
  have ok: "packet_ok p x" by (rule viewD(3) [OF v p(1)])
  let ?y = "x\<lparr>po_sched := True\<rparr>"
  define h where "h = (sc_heap ctl)(p \<mapsto> ?y)"
  define c where "c = ctl\<lparr>sc_scheduled_packets := q, sc_heap := h, sc_n_scheduled := sc_n_scheduled ctl + 1, sc_bytes_scheduled := sc_bytes_scheduled ctl + po_total_sz x\<rparr>"
  have e: "send_ctl_sched_Xpend_common (ctl\<lparr>sc_scheduled_packets := q\<rparr>) p = Some c"
    by (simp add: send_ctl_sched_Xpend_common_def p(1) upd_packet_def h_def c_def)
  note d = view_detached [OF v p]
  have "packet_ok p ?y" using ok p(2) unqueued_ok [OF ok p(2)] by (simp add: packet_ok_def unqueued_def)
  moreover have "p < sc_fresh ctl" using viewD(2) [OF v] p(1) by auto
  ultimately have "sc_view (((sc_heap ctl)(p := None))(p \<mapsto> ?y)) c"
    by (intro view_comes [OF d]) (use viewD(4,8) [OF v] q p(2) in \<open>auto simp: weights unqueued_def c_def\<close>)
  then have w: "sc_view (sc_heap c) c" by (simp add: c_def h_def)
  have "\<not> po_unacked x" using p(2) by (simp add: unqueued_def)
  from aside_ok [OF inv p(1) this, where ctl' = c and y = ?y] this w have "sc_inv c" "rounds_left ctl \<longrightarrow> rounds_left c" "shrinks ctl c"
    by (simp_all add: c_def h_def art_ok_def)
  then show ?thesis using e by (simp add: c_def h_def)
qed

lemma scheduled_one_ok:
  assumes inv: "sc_inv ctl" and p: "sc_heap ctl p = Some x" "unqueued x"
  shows "\<exists>ctl'. lsquic_send_ctl_scheduled_one ctl p = Some ctl' \<and> sc_inv ctl' \<and> (rounds_left ctl \<longrightarrow> rounds_left ctl') \<and> shrinks ctl ctl'
    \<and> sc_heap ctl' = (sc_heap ctl)(p \<mapsto> x\<lparr>po_sched := True\<rparr>)"
proof -
  have "p \<notin> set (sc_scheduled_packets ctl)" using viewD(7) [OF sc_invD(1) [OF inv], of p] p by (auto simp: unqueued_def)
  then show ?thesis using sched_Xpend_ok [OF inv p, of "sc_scheduled_packets ctl @ [p]"] viewD(6) [OF sc_invD(1) [OF inv]]
    by (simp add: lsquic_send_ctl_scheduled_one_def send_ctl_sched_append_def)
qed

lemma sched_remove_ok:
  assumes inv: "sc_inv ctl" and p: "sc_heap ctl p = Some x" "po_sched x"
  shows "\<exists>ctl'. send_ctl_sched_remove ctl p = Some ctl' \<and> sc_inv ctl' \<and> (rounds_left ctl \<longrightarrow> rounds_left ctl') \<and> shrinks ctl ctl'
    \<and> sc_heap ctl' = (sc_heap ctl)(p \<mapsto> x\<lparr>po_sched := False\<rparr>)"
proof -
  have v: "sc_view (sc_heap ctl) ctl" by (rule sc_invD(1) [OF inv])
  have ok: "packet_ok p x" by (rule viewD(3) [OF v p(1)])
  then have f: "\<not> po_unacked x" "\<not> po_lost x" using p(2) by (auto simp: packet_ok_def)
  let ?y = "x\<lparr>po_sched := False\<rparr>" and ?q = "remove1 p (sc_scheduled_packets ctl)"
  define h where "h = (sc_heap ctl)(p \<mapsto> ?y)"
  define c where "c = ctl\<lparr>sc_scheduled_packets := ?q, sc_heap := h, sc_n_scheduled := sc_n_scheduled ctl - 1, sc_bytes_scheduled := sc_bytes_scheduled ctl - po_total_sz x\<rparr>"
  have e: "send_ctl_sched_remove ctl p = Some c"
    by (simp add: send_ctl_sched_remove_def p(1) upd_packet_def h_def c_def)
  have out: "p \<notin> set (sc_unacked_packets ctl pns)" "p \<notin> set (sc_lost_packets ctl)" for pns
    using viewD(5,9) [OF v, of p] p(1) f by auto
  have d: "sc_view ((sc_heap ctl)(p := None)) c"
    by (rule view_gone [OF v p(1)]) (use out p(2) f in \<open>simp_all add: c_def weights remove1_idem\<close>)
  have "packet_ok p ?y" using ok by (simp add: packet_ok_def)
  moreover have "p < sc_fresh ctl" using viewD(2) [OF v] p(1) by auto
  ultimately have "sc_view (((sc_heap ctl)(p := None))(p \<mapsto> ?y)) c"
    by (intro view_comes [OF d]) (use viewD(4,6,8) [OF d] f in \<open>auto simp: weights c_def\<close>)
  then have w: "sc_view (sc_heap c) c" by (simp add: c_def h_def)
  from aside_ok [OF inv p(1) f(1), where ctl' = c and y = ?y] f w have "sc_inv c" "rounds_left ctl \<longrightarrow> rounds_left c" "shrinks ctl c"
    by (simp_all add: c_def h_def art_ok_def)
  then show ?thesis using e by (simp add: c_def h_def)
qed

section \<open>Duplicates\<close>

text \<open>Streams are data that the sender repeats, so that each duplicate replaces the packet it is made from.\<close>

lemma art_due_packet:
  assumes "packet_ok p x" "po_unacked x" "art_due env x"
  shows "\<not> po_poison x" "\<not> po_mtu_probe x" "\<not> po_loss_rec x" "po_fake_loss_rec x = 1"
proof -
  have "po_fake_loss_rec x \<noteq> 0" "po_fake_loss_rec x \<le> 1" using assms(1,3) by (auto simp: art_due_def packet_ok_def)
  then show "po_fake_loss_rec x = 1" by (metis le_less word_less_1)
qed (use assms in \<open>auto simp: art_due_def packet_ok_def\<close>)

lemma retransmittable_stream: "FT_STREAM AND fts = FT_STREAM \<Longrightarrow> has_frames x FT_STREAM \<Longrightarrow> has_frames x fts"
proof -
  assume e: "FT_STREAM AND fts = FT_STREAM" and f: "has_frames x FT_STREAM"
  have "po_frame_types x AND FT_STREAM = (po_frame_types x AND fts) AND FT_STREAM"
    by (subst e [symmetric]) (simp add: ac_simps)
  then show "has_frames x fts" using f by (auto simp: has_frames_def)
qed

lemma art_schedule_loop_ok:
  assumes "sc_inv ctl" "rounds_left ctl" "points_into (sc_unacked_packets ctl pns) cur" "FT_STREAM AND sc_retx_frames ctl = FT_STREAM"
    and al: "\<And>q. \<not> env_alloc_fails env q"
  shows "\<exists>ctl'. art_schedule_loop env pns cur ctl = Some ctl' \<and> sc_inv ctl' \<and> rounds_left ctl' \<and> shrinks ctl ctl'
    \<and> sc_n_in_flight_all ctl' = sc_n_in_flight_all ctl"
  using assms(1-4)
proof (induction "length (rest (sc_unacked_packets ctl pns) cur)" arbitrary: ctl cur rule: less_induct)
  case less
  show ?case
  proof (cases cur)
    case None
    then show ?thesis using less.prems by (simp add: art_schedule_loop.simps)
  next
    case (Some p)
    with less.prems(3) have pm: "p \<in> set (sc_unacked_packets ctl pns)" by simp
    from queue_member [OF less.prems(1) pm] obtain x where
      x: "sc_heap ctl p = Some x" "po_unacked x" "packet_ok p x" "\<not> po_poison x \<longrightarrow> po_pns x = pns" by blast
    let ?next = "tailq_next (sc_unacked_packets ctl pns) p" and ?c = "ctl\<lparr>sc_all_retrans_packet_num := sc_all_retrans_packet_num ctl + 1\<rparr>"
    note n = next_shorter [OF viewD(4) [OF sc_invD(1) [OF less.prems(1)], of pns] pm]
    let ?step = "if art_due env x then do { (ctl, _, next) \<leftarrow> send_ctl_handle_regular_lost_packet env ?c p ?next; Some (ctl, next) } else Some (ctl, ?next)"
    have "\<exists>c nx. ?step = Some (c, nx) \<and> loss_step pns ?next ctl c nx \<and> sc_n_in_flight_all c = sc_n_in_flight_all ctl"
    proof (cases "art_due env x")
      case True
      note d = art_due_packet [OF x(3,2) True]
      have co: "core ?c = core ctl" by (simp add: core_def)
      have i: "sc_inv ?c" "rounds_left ?c" using core_inv [OF co _ less.prems(1)] core_rounds [OF co less.prems(2)] by simp_all
      have "has_frames x (sc_retx_frames ?c)" using True less.prems(4) retransmittable_stream by (simp add: art_due_def)
      with handle_regular_ok [OF i, of p x pns ?next env] x d n al obtain c rec nx where
        c: "send_ctl_handle_regular_lost_packet env ?c p ?next = Some (c, rec, nx)" "loss_step pns ?next ?c c nx"
          "sc_n_in_flight_all c = sc_n_in_flight_all ctl" by auto
      have "loss_step pns ?next ctl c nx" using c(2) by (simp add: loss_step_def shrinks_def)
      then show ?thesis using True c(1,3) by simp
    next
      case False
      with loss_step_refl [OF less.prems(1,2) n(1)] show ?thesis by simp
    qed
    then obtain c nx where c: "?step = Some (c, nx)" and ls: "loss_step pns ?next ctl c nx" and inf: "sc_n_in_flight_all c = sc_n_in_flight_all ctl" by blast
    have sh: "shrinks ctl c" and f: "sc_retx_frames c = sc_retx_frames ctl" using ls by (auto simp: loss_step_def shrinks_def)
    have "length (rest (sc_unacked_packets c pns) nx) < length (rest (sc_unacked_packets ctl pns) cur)"
      using ls n(3) Some by (simp add: loss_step_def)
    with less.hyps ls less.prems(4) f obtain ctl' where l: "art_schedule_loop env pns nx c = Some ctl'" "sc_inv ctl'" "rounds_left ctl'" "shrinks c ctl'"
      "sc_n_in_flight_all ctl' = sc_n_in_flight_all c" unfolding loss_step_def by metis
    have "art_schedule_loop env pns cur ctl = Some ctl'"
      by (subst art_schedule_loop.simps) (simp only: Some option.case x(1) bind.bind_lunit Let_def c prod.case l(1))
    then show ?thesis using l shrinks_trans [OF sh l(4)] inf by simp
  qed
qed

lemma art_schedule_ok:
  assumes "sc_inv ctl" "rounds_left ctl" "FT_STREAM AND sc_retx_frames ctl = FT_STREAM" "\<And>q. \<not> env_alloc_fails env q"
  shows "\<exists>ctl'. art_schedule env ctl = Some ctl' \<and> sc_inv ctl' \<and> rounds_left ctl' \<and> shrinks ctl ctl'
    \<and> sc_n_in_flight_all ctl' = sc_n_in_flight_all ctl \<and> sc_al_art ctl' \<noteq> None"
proof -
  note l = art_schedule_loop_ok [OF _ _ first_points _ assms(4)]
  from l [OF assms(1,2,3), of PNS_INIT] obtain c1 where c1: "art_schedule_loop env PNS_INIT (first_pid (sc_unacked_packets ctl PNS_INIT)) ctl = Some c1"
    "sc_inv c1" "rounds_left c1" "shrinks ctl c1" "sc_n_in_flight_all c1 = sc_n_in_flight_all ctl" by blast
  have f1: "FT_STREAM AND sc_retx_frames c1 = FT_STREAM" using c1(4) assms(3) by (simp add: shrinks_def)
  from l [OF c1(2,3) f1, of PNS_HSK] obtain c2 where c2: "art_schedule_loop env PNS_HSK (first_pid (sc_unacked_packets c1 PNS_HSK)) c1 = Some c2"
    "sc_inv c2" "rounds_left c2" "shrinks c1 c2" "sc_n_in_flight_all c2 = sc_n_in_flight_all c1" by blast
  have f2: "FT_STREAM AND sc_retx_frames c2 = FT_STREAM" using c2(4) f1 by (simp add: shrinks_def)
  from l [OF c2(2,3) f2, of PNS_APP] obtain c3 where c3: "art_schedule_loop env PNS_APP (first_pid (sc_unacked_packets c2 PNS_APP)) c2 = Some c3"
    "sc_inv c3" "rounds_left c3" "shrinks c2 c3" "sc_n_in_flight_all c3 = sc_n_in_flight_all c2" by blast
  define c4 where "c4 = (if sc_al_art c3 = None then c3\<lparr>sc_al_art := Some (env_now env + 30)\<rparr> else c3)"
  have a: "alike c3 c4" by (simp add: c4_def alike_def core_def)
  note k = alike_ok [OF a]
  have "art_schedule env ctl = Some c4" by (simp add: art_schedule_def c1(1) c2(1) c3(1) c4_def)
  moreover have "shrinks ctl c4" using c1(4) c2(4) c3(4) k(3) shrinks_trans by blast
  moreover have "sc_n_in_flight_all c4 = sc_n_in_flight_all ctl" "sc_al_art c4 \<noteq> None" using c1(5) c2(5) c3(5) by (simp_all add: c4_def)
  ultimately show ?thesis using k(1) [OF c3(2)] k(2) [OF c3(3)] by blast
qed

end
