(* ===== verification/Send_Resend.thy ===== *)
theory Send_Resend
  imports Send_Steps
begin

text \<open>
  Retransmission: the lost packets go back to the scheduled queue.  Dropping the frames of streams that were reset is a
  parameter; what is asked of it is that it changes nothing but the contents and the size of the packet.
\<close>

section \<open>Changing a packet that is not in flight\<close>

lemma changed_aside_ok:
  assumes inv: "sc_inv ctl" and p: "sc_heap ctl p = Some x" "\<not> po_unacked x" and ok: "packet_ok p y"
    and y: "po_unacked y = po_unacked x" "po_sched y = po_sched x" "po_lost y = po_lost x" "po_poison y = po_poison x"
      "po_loss_chain y = po_loss_chain x" "po_pns y = po_pns x" "po_sched x \<longrightarrow> po_total_sz y = po_total_sz x"
    and c: "core c = core (ctl\<lparr>sc_heap := (sc_heap ctl)(p \<mapsto> y)\<rparr>)" "sc_fresh c = sc_fresh ctl"
  shows "sc_inv c" "rounds_left ctl \<Longrightarrow> rounds_left c" "shrinks ctl c"
proof -
  let ?c = "ctl\<lparr>sc_heap := (sc_heap ctl)(p \<mapsto> y)\<rparr>"
  have "sc_view ((sc_heap ctl)(p \<mapsto> y)) ctl"
    by (rule view_changed [OF sc_invD(1) [OF inv] p(1) ok]) (use y p(2) in \<open>auto simp: weights q_pns_def\<close>)
  then have v: "sc_view (sc_heap ?c) ?c" by (rule view_cong [THEN back_subst [of "\<lambda>h. sc_view h ?c"]]) simp_all
  note k = aside_ok [OF inv p, where ctl' = ?c and y = y]
  have i: "sc_inv ?c" and r: "rounds_left ctl \<Longrightarrow> rounds_left ?c" and s: "shrinks ctl ?c"
    using k v y p(2) by (simp_all add: art_ok_def)
  show "sc_inv c" by (rule core_inv [OF c(1) _ i]) (simp add: c(2))
  show "rounds_left ctl \<Longrightarrow> rounds_left c" using core_rounds [OF c(1) r] .
  have "sc_heap c = sc_heap ?c" "sc_al_retx c = sc_al_retx ?c" "sc_retx_frames c = sc_retx_frames ?c" using c(1) by (simp_all add: core_def)
  then show "shrinks ctl c" using s by (simp add: shrinks_def)
qed

section \<open>The lost queue\<close>

lemma pop_lost_ok:
  assumes inv: "sc_inv ctl" and p: "sc_heap ctl p = Some x" "po_lost x"
  shows "\<exists>ctl'. pop_lost_packet ctl p = Some ctl' \<and> sc_inv ctl' \<and> (rounds_left ctl \<longrightarrow> rounds_left ctl') \<and> shrinks ctl ctl'
    \<and> sc_heap ctl' = (sc_heap ctl)(p \<mapsto> x\<lparr>po_lost := False, po_retx := True\<rparr>) \<and> sc_lost_packets ctl' = remove1 p (sc_lost_packets ctl)"
proof -
  have v: "sc_view (sc_heap ctl) ctl" by (rule sc_invD(1) [OF inv])
  have ok: "packet_ok p x" by (rule viewD(3) [OF v p(1)])
  then have f: "\<not> po_unacked x" "\<not> po_sched x" using p(2) by (auto simp: packet_ok_def)
  let ?y = "x\<lparr>po_lost := False, po_retx := True\<rparr>"
  define h where "h = (sc_heap ctl)(p \<mapsto> ?y)"
  define c where "c = ctl\<lparr>sc_lost_packets := remove1 p (sc_lost_packets ctl), sc_lost_packet_number := sc_lost_packet_number ctl - 1, sc_heap := h\<rparr>"
  have e: "pop_lost_packet ctl p = Some c" by (simp add: pop_lost_packet_def upd_packet_def p(1) h_def c_def)
  have out: "p \<notin> set (sc_unacked_packets ctl pns)" "p \<notin> set (sc_scheduled_packets ctl)" for pns
    using viewD(5,7) [OF v, of p] p(1) f by auto
  have d: "sc_view ((sc_heap ctl)(p := None)) c"
    by (rule view_gone [OF v p(1)]) (use out p(2) f in \<open>simp_all add: c_def weights remove1_idem\<close>)
  have "packet_ok p ?y" using ok by (simp add: packet_ok_def)
  moreover have "p < sc_fresh ctl" using viewD(2) [OF v] p(1) by auto
  ultimately have "sc_view (((sc_heap ctl)(p := None))(p \<mapsto> ?y)) c"
    by (intro view_comes [OF d]) (use viewD(4,6,8) [OF d] f in \<open>auto simp: weights c_def\<close>)
  then have w: "sc_view (sc_heap c) c" by (simp add: c_def h_def)
  from aside_ok [OF inv p(1) f(1), where ctl' = c and y = ?y] f w have "sc_inv c" "rounds_left ctl \<longrightarrow> rounds_left c" "shrinks ctl c"
    by (simp_all add: c_def h_def art_ok_def)
  then show ?thesis using e by (simp add: c_def h_def)
qed

section \<open>Eliding and resending\<close>

text \<open>What is asked of the parameter: only the frames and the sizes change, and the packet does not grow.\<close>

definition elides :: "(sc_packet \<Rightarrow> sc_packet) \<Rightarrow> bool" where
  "elides f \<longleftrightarrow> (\<forall>x. \<exists>ft ts ds. f x = x\<lparr>po_frame_types := ft, po_total_sz := ts, po_data_sz := ds\<rparr> \<and> ts \<le> po_total_sz x)"

text \<open>A packet that keeps data to send however often frames are dropped from it, and that fits the path.\<close>

definition sendable :: "sc_env \<Rightarrow> sc_packet \<Rightarrow> bool" where
  "sendable env x \<longleftrightarrow> po_total_sz x \<le> env_pack_size env \<and> ucast (po_regen_sz x) \<le> po_total_sz x \<and> po_regen_sz x < po_data_sz x"

definition resendable :: "sc_env \<Rightarrow> sc_packet \<Rightarrow> bool" where
  "resendable env x \<longleftrightarrow> (\<forall>n. sendable env ((env_elide env ^^ n) x))"

lemma resendable_elide: "resendable env x \<Longrightarrow> resendable env (env_elide env x)"
  unfolding resendable_def by (metis funpow_swap1 funpow_simps_right(2) o_apply)

lemma resendableD: "resendable env x \<Longrightarrow> sendable env x"
  unfolding resendable_def by (drule spec [of _ 0]) simp

text \<open>All lost packets are of that kind.\<close>

definition lost_resendable :: "sc_env \<Rightarrow> send_ctl \<Rightarrow> bool" where
  "lost_resendable env ctl \<longleftrightarrow> (\<forall>p x. sc_heap ctl p = Some x \<longrightarrow> po_lost x \<longrightarrow> resendable env x)"

lemma elide_one_ok:
  assumes inv: "sc_inv ctl" and el: "elides (env_elide env)" and p: "sc_heap ctl p = Some x" "po_lost x" and r: "lost_resendable env ctl"
    and b: "b \<longrightarrow> has_frames x FT_STREAM \<and> \<not> po_mini x"
  shows "\<exists>c y. (if b then upd_packet p (env_elide env) ctl else Some ctl) = Some c \<and> sc_inv c \<and> (rounds_left ctl \<longrightarrow> rounds_left c) \<and> shrinks ctl c
    \<and> sc_heap c p = Some y \<and> po_lost y \<and> lost_resendable env c \<and> (b \<longrightarrow> y = env_elide env x) \<and> sc_lost_packets c = sc_lost_packets ctl
    \<and> (\<forall>q z. sc_heap c q = Some z \<longrightarrow> po_lost z \<longrightarrow> (\<exists>w. sc_heap ctl q = Some w \<and> po_lost w))"
proof (cases b)
  case False
  then show ?thesis using inv p r by auto
next
  case True
  obtain ft ts ds where y: "env_elide env x = x\<lparr>po_frame_types := ft, po_total_sz := ts, po_data_sz := ds\<rparr>" "ts \<le> po_total_sz x"
    using el unfolding elides_def by blast
  have ok: "packet_ok p x" by (rule viewD(3) [OF sc_invD(1) [OF inv] p(1)])
  then have f: "\<not> po_unacked x" "\<not> po_sched x" "\<not> po_poison x" using p(2) by (auto simp: packet_ok_def)
  define c where "c = ctl\<lparr>sc_heap := (sc_heap ctl)(p \<mapsto> env_elide env x)\<rparr>"
  have "packet_ok p (env_elide env x)" using ok f y(2) by (auto simp: packet_ok_def y(1) intro: le_less_trans)
  from changed_aside_ok [OF inv p(1) f(1) this, where c = c] f
  have "sc_inv c" "rounds_left ctl \<longrightarrow> rounds_left c" "shrinks ctl c" by (simp_all add: c_def y(1))
  moreover have "lost_resendable env c" using r resendable_elide p unfolding lost_resendable_def c_def by simp
  moreover have "upd_packet p (env_elide env) ctl = Some c" by (simp add: upd_packet_def p(1) c_def)
  ultimately show ?thesis using True p by (intro exI [of _ c] exI [of _ "env_elide env x"]) (simp add: c_def y(1))
qed

text \<open>What the search of the lost queue delivers.\<close>

definition next_lost_found :: "sc_env \<Rightarrow> send_ctl \<Rightarrow> send_ctl \<Rightarrow> pid option \<Rightarrow> bool" where
  "next_lost_found env ctl c res \<longleftrightarrow> sc_inv c \<and> (rounds_left ctl \<longrightarrow> rounds_left c) \<and> shrinks ctl c \<and> lost_resendable env c
     \<and> (case res of None \<Rightarrow> sc_lost_packets c = sc_lost_packets ctl
        | Some p \<Rightarrow> p \<in> set (sc_lost_packets ctl) \<and> sc_lost_packets c = remove1 p (sc_lost_packets ctl)
            \<and> (\<exists>x. sc_heap c p = Some x \<and> unqueued x \<and> ucast (po_regen_sz x) \<le> po_total_sz x))"

lemma next_lost_loop_ok:
  assumes "sc_inv ctl" "elides (env_elide env)" "lost_resendable env ctl" "set ps \<subseteq> set (sc_lost_packets ctl)"
  shows "\<exists>c res. next_lost_loop env ctl ps = Some (c, res) \<and> next_lost_found env ctl c res"
  using assms
proof (induction ps arbitrary: ctl)
  case Nil
  then show ?case by (simp add: next_lost_found_def)
next
  case (Cons p ps)
  note inv = Cons.prems(1) and el = Cons.prems(2)
  have "p \<in> set (sc_lost_packets ctl)" using Cons.prems(4) by simp
  then obtain x where x: "sc_heap ctl p = Some x" "po_lost x" using viewD(9) [OF sc_invD(1) [OF inv]] by blast
  define b where "b \<longleftrightarrow> has_frames x FT_STREAM \<and> \<not> po_mini x"
  from elide_one_ok [OF inv el x Cons.prems(3), of b] obtain c y where
    c: "(if b then upd_packet p (env_elide env) ctl else Some ctl) = Some c" "sc_inv c" "rounds_left ctl \<longrightarrow> rounds_left c" "shrinks ctl c"
      "sc_heap c p = Some y" "po_lost y" "lost_resendable env c" "b \<longrightarrow> y = env_elide env x" "sc_lost_packets c = sc_lost_packets ctl"
    unfolding b_def by blast
  have ry: "resendable env y" using c(5-7) by (auto simp: lost_resendable_def)
  then have d: "po_total_sz y \<le> env_pack_size env" "ucast (po_regen_sz y) \<le> po_total_sz y" "po_regen_sz y < po_data_sz y"
    using resendableD by (auto simp: sendable_def)
  have nd: "\<not> (b \<and> po_regen_sz y \<ge> po_data_sz y)" using d(3) by (simp add: not_le)
  have e: "next_lost_loop env ctl (p # ps) =
     (if \<not> (po_fake_loss_rec y \<noteq> 0 \<and> po_retrans_packet_number y > 0) \<and> \<not> env_can_send env c then next_lost_loop env c ps
      else do { ctl \<leftarrow> pop_lost_packet c p; Some (ctl, Some p) })"
    unfolding next_lost_loop.simps x(1) bind.bind_lunit Let_def b_def [symmetric] c(1) c(5) 
    using d(1) nd by (simp only: if_False if_True simp_thms)
  show ?case
  proof (cases "\<not> (po_fake_loss_rec y \<noteq> 0 \<and> po_retrans_packet_number y > 0) \<and> \<not> env_can_send env c")
    case True
    have "set ps \<subseteq> set (sc_lost_packets c)" using Cons.prems(4) c(9) by simp
    from Cons.IH [OF c(2) el c(7) this] obtain c' res where "next_lost_loop env c ps = Some (c', res)" "next_lost_found env c c' res" by blast
    moreover from this(2) have "next_lost_found env ctl c' res" using c(3,4,9) shrinks_trans [OF c(4)]
      unfolding next_lost_found_def by (cases res) simp_all
    ultimately show ?thesis using True unfolding e by auto
  next
    case False
    from pop_lost_ok [OF c(2,5,6)] obtain c' where
      c': "pop_lost_packet c p = Some c'" "sc_inv c'" "rounds_left c \<longrightarrow> rounds_left c'" "shrinks c c'"
        "sc_heap c' = (sc_heap c)(p \<mapsto> y\<lparr>po_lost := False, po_retx := True\<rparr>)" "sc_lost_packets c' = remove1 p (sc_lost_packets c)" by blast
    have "packet_ok p y" by (rule viewD(3) [OF sc_invD(1) [OF c(2)] c(5)])
    then have "unqueued (y\<lparr>po_lost := False, po_retx := True\<rparr>)" using c(6) by (auto simp: packet_ok_def unqueued_def)
    moreover have "lost_resendable env c'" using c(7) by (auto simp: lost_resendable_def c'(5) split: if_splits)
    moreover have "p \<in> set (sc_lost_packets ctl)" using Cons.prems(4) by simp
    ultimately have "next_lost_found env ctl c' (Some p)"
      using c'(2-4,6) c(3,9) shrinks_trans [OF c(4) c'(4)] d(2) unfolding next_lost_found_def by (simp add: c'(5))
    moreover have "next_lost_loop env ctl (p # ps) = Some (c', Some p)" using False c'(1) unfolding e by auto
    ultimately show ?thesis by blast
  qed
qed

section \<open>Rescheduling\<close>

lemma chop_le: "ucast r \<le> (t :: u32) \<Longrightarrow> t - ucast (r :: u16) \<le> t"
  by (simp add: word_sub_le)

lemma update_for_resending_ok:
  assumes inv: "sc_inv ctl" and p: "sc_heap ctl p = Some x" "unqueued x" "ucast (po_regen_sz x) \<le> po_total_sz x"
  shows "\<exists>c y. update_for_resending ctl p = Some c \<and> sc_inv c \<and> (rounds_left ctl \<longrightarrow> rounds_left c) \<and> shrinks ctl c
    \<and> sc_heap c = (sc_heap ctl)(p \<mapsto> y) \<and> unqueued y \<and> sc_lost_packets c = sc_lost_packets ctl
    \<and> po_packno y = snd (send_ctl_next_packno ctl) \<and> po_frame_types y AND BQUIC_FRAME_REGEN_MASK = 0"
proof -
  define n where "n = snd (send_ctl_next_packno ctl)"
  define y0 where "y0 = x\<lparr>po_has_sent_sz := False, po_frame_types := po_frame_types x AND NOT BQUIC_FRAME_REGEN_MASK, po_packno := n, po_ecn := sc_ecn ctl\<rparr>"
  define y where "y = (if po_regen_sz x \<noteq> 0 then lsquic_packet_out_chop_regen y0 else y0)"
  define c where "c = ctl\<lparr>sc_cur_packno := n, sc_heap := (sc_heap ctl)(p \<mapsto> y)\<rparr>"
  have u: "\<not> po_unacked x" "\<not> po_sched x" "\<not> po_lost x" using p(2) by (simp_all add: unqueued_def)
  have e: "update_for_resending ctl p = Some c"
    using p(1) u by (simp add: update_for_resending_def send_ctl_next_packno_def Let_def upd_packet_def n_def c_def y_def y0_def)
  have ok: "packet_ok p x" by (rule viewD(3) [OF sc_invD(1) [OF inv] p(1)])
  have "po_total_sz y \<le> po_total_sz x" using chop_le [OF p(3)] by (simp add: y_def y0_def lsquic_packet_out_chop_regen_def)
  then have "packet_ok p y" using ok u unqueued_ok [OF ok p(2)]
    by (auto simp: packet_ok_def y_def y0_def lsquic_packet_out_chop_regen_def intro: le_less_trans)
  from changed_aside_ok [OF inv p(1) u(1) this, where c = c] u
  have "sc_inv c" "rounds_left ctl \<longrightarrow> rounds_left c" "shrinks ctl c"
    by (simp_all add: c_def y_def y0_def lsquic_packet_out_chop_regen_def core_def)
  moreover have "po_frame_types y AND BQUIC_FRAME_REGEN_MASK = 0"
    by (simp add: y_def y0_def lsquic_packet_out_chop_regen_def and.assoc)
  moreover have "unqueued y" "po_packno y = n" using u by (simp_all add: y_def y0_def lsquic_packet_out_chop_regen_def unqueued_def)
  ultimately show ?thesis using e by (intro exI [of _ c] exI [of _ y]) (simp add: c_def n_def)
qed

lemma reschedule_one_ok:
  assumes inv: "sc_inv ctl" and p: "sc_heap ctl p = Some x" "unqueued x" "ucast (po_regen_sz x) \<le> po_total_sz x"
  shows "\<exists>c y. reschedule_one env ctl p = Some c \<and> sc_inv c \<and> (rounds_left ctl \<longrightarrow> rounds_left c) \<and> shrinks ctl c
    \<and> sc_heap c = (sc_heap ctl)(p \<mapsto> y) \<and> po_sched y \<and> \<not> po_lost y \<and> sc_lost_packets c = sc_lost_packets ctl"
proof -
  from update_for_resending_ok [OF inv p] obtain c1 y where
    c1: "update_for_resending ctl p = Some c1" "sc_inv c1" "rounds_left ctl \<longrightarrow> rounds_left c1" "shrinks ctl c1"
      "sc_heap c1 = (sc_heap ctl)(p \<mapsto> y)" "unqueued y" "sc_lost_packets c1 = sc_lost_packets ctl" by blast
  define o' where "o' = (if po_retrans_no x \<noteq> 0 then po_retrans_no x else po_packno x)"
  let ?y = "y\<lparr>po_retrans_no := o'\<rparr>"
  define c2 where "c2 = c1\<lparr>sc_heap := (sc_heap c1)(p \<mapsto> ?y)\<rparr>"
  have py: "sc_heap c1 p = Some y" by (simp add: c1(5))
  have u: "\<not> po_unacked y" using c1(6) by (simp add: unqueued_def)
  have "packet_ok p ?y" using viewD(3) [OF sc_invD(1) [OF c1(2)] py] by (simp add: packet_ok_def)
  from changed_aside_ok [OF c1(2) py u this, where c = c2]
  have i2: "sc_inv c2" "rounds_left c1 \<longrightarrow> rounds_left c2" "shrinks c1 c2" by (simp_all add: c2_def)
  have "sc_heap c2 p = Some ?y" "unqueued ?y" using c1(6) by (simp_all add: c2_def unqueued_def)
  from scheduled_one_ok [OF i2(1) this] obtain c3 where
    c3: "lsquic_send_ctl_scheduled_one c2 p = Some c3" "sc_inv c3" "rounds_left c2 \<longrightarrow> rounds_left c3" "shrinks c2 c3"
      "sc_heap c3 = (sc_heap c2)(p \<mapsto> ?y\<lparr>po_sched := True\<rparr>)" by blast
  define c4 where "c4 = (if sc_art_flag c3 \<noteq> 0 \<and> po_frame_types y \<noteq> FT_PADDING \<and> has_frames y FT_STREAM \<and> sc_al_art c3 = None
           then c3\<lparr>sc_al_art := Some (env_now env + 1)\<rparr> else c3)"
  have a: "alike c3 c4" by (simp add: c4_def alike_def core_def)
  note k = alike_ok [OF a]
  have e: "reschedule_one env ctl p = Some c4"
    by (simp add: reschedule_one_def p(1) Let_def c1(1) upd_packet_def py o'_def [symmetric] c2_def [symmetric] c3(1,5) c4_def has_frames_def)
  have "sc_lost_packets c3 = sc_lost_packets c2"
    using c3(1) by (auto simp: lsquic_send_ctl_scheduled_one_def send_ctl_sched_append_def send_ctl_sched_Xpend_common_def upd_packet_def c2_def py split: option.splits)
  then have l: "sc_lost_packets c4 = sc_lost_packets ctl" using c1(7) by (simp add: c4_def c2_def)
  have h: "sc_heap c4 = (sc_heap ctl)(p \<mapsto> ?y\<lparr>po_sched := True\<rparr>)" by (simp add: c4_def c3(5) c2_def c1(5))
  have "shrinks ctl c4" using c1(4) i2(3) c3(4) k(3) shrinks_trans by blast
  then show ?thesis using e h l k(1) [OF c3(2)] k(2) c1(3,6) i2(2) c3(3)
    by (intro exI [of _ c4] exI [of _ "?y\<lparr>po_sched := True\<rparr>"]) (simp add: unqueued_def)
qed

lemma reschedule_packets_ok:
  assumes "sc_inv ctl" "rounds_left ctl" "elides (env_elide env)" "lost_resendable env ctl"
  shows "\<exists>c n. lsquic_send_ctl_reschedule_packets env ctl = Some (c, n) \<and> sc_inv c \<and> rounds_left c \<and> shrinks ctl c
    \<and> n + length (sc_lost_packets c) = length (sc_lost_packets ctl)"
  using assms
proof (induction "length (sc_lost_packets ctl)" arbitrary: ctl rule: less_induct)
  case less
  from next_lost_loop_ok [OF less.prems(1,3,4) order_refl] obtain c1 res where
    c1: "send_ctl_next_lost env ctl = Some (c1, res)" "next_lost_found env ctl c1 res" unfolding send_ctl_next_lost_def by blast
  show ?case
  proof (cases res)
    case None
    then have "lsquic_send_ctl_reschedule_packets env ctl = Some (c1, 0)" by (subst lsquic_send_ctl_reschedule_packets.simps) (simp add: c1(1))
    then show ?thesis using c1(2) None less.prems(2) by (simp add: next_lost_found_def)
  next
    case (Some p)
    then obtain x where f: "sc_inv c1" "rounds_left c1" "shrinks ctl c1" "lost_resendable env c1" "p \<in> set (sc_lost_packets ctl)"
      "sc_lost_packets c1 = remove1 p (sc_lost_packets ctl)" "sc_heap c1 p = Some x" "unqueued x" "ucast (po_regen_sz x) \<le> po_total_sz x"
      using c1(2) less.prems(2) by (auto simp: next_lost_found_def)
    from reschedule_one_ok [OF f(1,7-9), of env] obtain c2 y where
      c2: "reschedule_one env c1 p = Some c2" "sc_inv c2" "rounds_left c2" "shrinks c1 c2" "sc_heap c2 = (sc_heap c1)(p \<mapsto> y)"
        "\<not> po_lost y" "sc_lost_packets c2 = sc_lost_packets c1" using f(2) by blast
    have lr: "lost_resendable env c2" using f(4) c2(6) by (auto simp: lost_resendable_def c2(5) split: if_splits)
    have len: "Suc (length (sc_lost_packets c2)) = length (sc_lost_packets ctl)"
      using f(5) length_pos_if_in_set [OF f(5)] by (simp add: c2(7) f(6) length_remove1)
    then have "length (sc_lost_packets c2) < length (sc_lost_packets ctl)" by simp
    from less.hyps [OF this c2(2,3) less.prems(3) lr] obtain c n where
      c: "lsquic_send_ctl_reschedule_packets env c2 = Some (c, n)" "sc_inv c" "rounds_left c" "shrinks c2 c"
        "n + length (sc_lost_packets c) = length (sc_lost_packets c2)" by blast
    have "lsquic_send_ctl_reschedule_packets env ctl = Some (c, n + 1)"
      by (subst lsquic_send_ctl_reschedule_packets.simps) (simp add: c1(1) Some c2(1) c(1))
    moreover have "shrinks ctl c" using f(3) c2(4) c(4) shrinks_trans by blast
    ultimately show ?thesis using c(2,3,5) len by simp
  qed
qed

end
