(* ===== verification/Send_Reach.thy ===== *)
theory Send_Reach
  imports Send_Resend
begin

text \<open>
  The life of the packets of a connection: a packet is created, written, scheduled, taken to be sent, sent, acknowledged
  or lost and sent again.  The operations of the send controller are the steps of a transition system, and what is
  proved of each of them holds in every state that can be reached from the initial one.
\<close>

section \<open>Creating and writing packets\<close>

definition IQUIC_FRAME_RETX_MASK :: u32 where
  "IQUIC_FRAME_RETX_MASK = ft_bits [QUIC_FRAME_STREAM, QUIC_FRAME_ACK, QUIC_FRAME_PADDING, QUIC_FRAME_RST_STREAM, QUIC_FRAME_CONNECTION_CLOSE,
      QUIC_FRAME_BLOCKED, QUIC_FRAME_PING, QUIC_FRAME_MAX_DATA, QUIC_FRAME_MAX_STREAM_DATA, QUIC_FRAME_MAX_STREAMS, QUIC_FRAME_STREAM_BLOCKED,
      QUIC_FRAME_STREAMS_BLOCKED, QUIC_FRAME_NEW_CONNECTION_ID, QUIC_FRAME_STOP_SENDING, QUIC_FRAME_PATH_CHALLENGE, QUIC_FRAME_PATH_RESPONSE,
      QUIC_FRAME_RETIRE_CONNECTION_ID, QUIC_FRAME_NEW_TOKEN, QUIC_FRAME_HANDSHAKE_DONE, QUIC_FRAME_ACK_FREQUENCY, QUIC_FRAME_TIMESTAMP,
      QUIC_FRAME_CRYPTO]
     AND NOT (ft_bits [QUIC_FRAME_PADDING, QUIC_FRAME_PATH_RESPONSE, QUIC_FRAME_PATH_CHALLENGE, QUIC_FRAME_ACK, QUIC_FRAME_TIMESTAMP])"

definition GQUIC_FRAME_RETRANSMITTABLE_MASK :: u32 where
  "GQUIC_FRAME_RETRANSMITTABLE_MASK = ft_bits [QUIC_FRAME_STREAM, QUIC_FRAME_RST_STREAM, QUIC_FRAME_GOAWAY, QUIC_FRAME_WINDOW_UPDATE,
     QUIC_FRAME_BLOCKED, QUIC_FRAME_CONNECTION_CLOSE, QUIC_FRAME_CRYPTO, QUIC_FRAME_PING]"

text \<open>The frames that \<^verbatim>\<open>lsquic_send_ctl_init\<close> chooses.\<close>

definition retx_frames :: "bool \<Rightarrow> u32" where
  "retx_frames ietf = (if ietf then IQUIC_FRAME_RETX_MASK else GQUIC_FRAME_RETRANSMITTABLE_MASK)"

text \<open>
  \<^verbatim>\<open>lsquic_packet_out_new\<close>: the size of the header is given by the version of the protocol, the size of the
  tag by the cipher.  The result is the packet and the room for frames in it.
\<close>

definition lsquic_packet_out_new :: "u16 \<Rightarrow> u16 \<Rightarrow> u16 \<Rightarrow> (sc_packet \<times> nat) option" where
  "lsquic_packet_out_new header_size tag_len max_size =
     (if unat header_size + unat tag_len \<ge> unat max_size then None
      else Some (zero_packet\<lparr>po_total_sz := ucast header_size + ucast tag_len\<rparr>, unat max_size - unat header_size - unat tag_len))"

text \<open>
  \<open>token\<close> is the length of the token of the controller.  If it leaves no room in the packet the code returns without
  freeing the packet, to which nothing refers any more.
\<close>

definition send_ctl_allocate_packet ::
  "sc_env \<Rightarrow> send_ctl \<Rightarrow> u16 \<times> u16 \<times> u16 \<Rightarrow> nat \<Rightarrow> packnum_space \<Rightarrow> nat option \<Rightarrow> send_ctl \<times> pid option" where
  "send_ctl_allocate_packet env ctl sizes need_at_least pns token =
     (case sizes of (header_size, tag_len, max_size) \<Rightarrow>
      case lsquic_packet_out_new header_size tag_len max_size of
        None \<Rightarrow> (ctl, None)
      | Some (x, avail) \<Rightarrow>
         (case malo_get env ctl of
            (None, ctl) \<Rightarrow> (ctl, None)
          | (Some p, ctl) \<Rightarrow>
              if need_at_least \<noteq> 0 \<and> avail < need_at_least then (ctl, None)
              else if pns = PNS_INIT \<and> (case token of None \<Rightarrow> False | Some len \<Rightarrow> \<not> avail > len) then (ctl, None)
              else (ctl\<lparr>sc_heap := (sc_heap ctl)(p \<mapsto> x\<lparr>po_pns := pns, po_initial := (pns = PNS_INIT), po_ecn := sc_ecn ctl, po_loss_chain := p\<rparr>)\<rparr>,
                    Some p)))"

definition lsquic_send_ctl_new_packet_out ::
  "sc_env \<Rightarrow> send_ctl \<Rightarrow> u16 \<times> u16 \<times> u16 \<Rightarrow> nat \<Rightarrow> packnum_space \<Rightarrow> nat option \<Rightarrow> (send_ctl \<times> pid option) option" where
  "lsquic_send_ctl_new_packet_out env ctl sizes need_at_least pns token =
     (case send_ctl_allocate_packet env ctl sizes need_at_least pns token of
        (ctl, None) \<Rightarrow> Some (ctl, None)
      | (ctl, Some p) \<Rightarrow> do {
          let (ctl, packno) = send_ctl_next_packno ctl;
          ctl \<leftarrow> upd_packet p (\<lambda>x. x\<lparr>po_packno := packno\<rparr>) ctl;
          Some (ctl, Some p)
        })"

text \<open>The macro that accounts for what has been written to a packet.\<close>

definition lsquic_send_ctl_incr_pack_sz :: "send_ctl \<Rightarrow> pid \<Rightarrow> u16 \<Rightarrow> send_ctl option" where
  "lsquic_send_ctl_incr_pack_sz ctl p delta = do {
     x \<leftarrow> sc_heap ctl p;
     ctl \<leftarrow> upd_packet p (\<lambda>x. x\<lparr>po_data_sz := po_data_sz x + delta, po_total_sz := po_total_sz x + ucast delta\<rparr>) ctl;
     Some (if po_sched x then ctl\<lparr>sc_bytes_scheduled := sc_bytes_scheduled ctl + ucast delta\<rparr> else ctl)
   }"

lemma stream_retx: "FT_STREAM AND retx_frames ietf = FT_STREAM"
  by (cases ietf) (simp_all add: retx_frames_def FT_STREAM_def IQUIC_FRAME_RETX_MASK_def GQUIC_FRAME_RETRANSMITTABLE_MASK_def ft_bits_def quic_ft_bit_def)

lemma new_packet_ok:
  assumes inv: "sc_inv ctl" and r: "rounds_left ctl"
  shows "\<exists>c res. lsquic_send_ctl_new_packet_out env ctl sizes need pns token = Some (c, res) \<and> sc_inv c \<and> rounds_left c \<and> shrinks ctl c
    \<and> (\<forall>p. res = Some p \<longrightarrow> (\<exists>x. sc_heap c p = Some x \<and> unqueued x \<and> po_pns x = pns \<and> po_packno x = snd (send_ctl_next_packno ctl)))"
proof -
  obtain hs tl ms where sz: "sizes = (hs, tl, ms)" by (cases sizes)
  define c0 where "c0 = ctl\<lparr>sc_fresh := sc_fresh ctl + 1\<rparr>"
  have i0: "sc_inv c0" by (rule core_inv [OF _ _ inv]) (simp_all add: core_def c0_def)
  have r0: "rounds_left c0" "shrinks ctl c0" using r by (simp_all add: rounds_left_def c0_def shrinks_def)
  obtain c res where a: "send_ctl_allocate_packet env ctl sizes need pns token = (c, res)" by fastforce
  show ?thesis
  proof (cases res)
    case None
    then have "c = ctl \<or> c = c0"
      using a by (auto simp: send_ctl_allocate_packet_def sz malo_get_def c0_def split: option.splits if_splits)
    then show ?thesis using None a inv r i0 r0 by (auto simp: lsquic_send_ctl_new_packet_out_def)
  next
    case (Some p)
    then obtain x av where x: "lsquic_packet_out_new hs tl ms = Some (x, av)" "p = sc_fresh ctl"
      "c = c0\<lparr>sc_heap := (sc_heap ctl)(p \<mapsto> x\<lparr>po_pns := pns, po_initial := (pns = PNS_INIT), po_ecn := sc_ecn ctl, po_loss_chain := p\<rparr>)\<rparr>"
      using a by (auto simp: send_ctl_allocate_packet_def sz malo_get_def c0_def split: option.splits if_splits)
    define n where "n = snd (send_ctl_next_packno ctl)"
    define y where "y = x\<lparr>po_pns := pns, po_initial := (pns = PNS_INIT), po_ecn := sc_ecn ctl, po_loss_chain := p, po_packno := n\<rparr>"
    define c1 where "c1 = ctl\<lparr>sc_fresh := sc_fresh ctl + 1, sc_heap := (sc_heap ctl)(p \<mapsto> y), sc_cur_packno := n\<rparr>"
    have e: "lsquic_send_ctl_new_packet_out env ctl sizes need pns token = Some (c1, Some p)"
      by (simp add: lsquic_send_ctl_new_packet_out_def a Some send_ctl_next_packno_def Let_def upd_packet_def x(3) c0_def c1_def y_def n_def)
    have xs: "x = zero_packet\<lparr>po_total_sz := ucast hs + ucast tl\<rparr>" "unat hs + unat tl < unat ms"
      using x(1) by (auto simp: lsquic_packet_out_new_def split: if_splits)
    have "unat (ucast hs + ucast tl :: u32) < 65536"
    proof -
      have "unat ms < 65536" using unsigned_less [of ms] by simp
      then show ?thesis using xs(2) by (simp add: unat_word_ariths unsigned_ucast_eq take_bit_nat_eq_self)
    qed
    then have ok: "packet_ok p y" by (simp add: packet_ok_def y_def xs(1) zero_packet_def word_less_nat_alt)
    have yq: "unqueued y" "po_pns y = pns" "po_packno y = n" "po_loss_chain y = p" by (simp_all add: y_def xs(1) zero_packet_def unqueued_def)
    have v: "sc_view (sc_heap ctl) ctl" by (rule sc_invD(1) [OF inv])
    have new: "sc_heap ctl p = None" using viewD(2) [OF v] by (auto simp: x(2) dom_def)
    have "sc_view ((sc_heap ctl)(p \<mapsto> y)) c1"
      by (rule view_comes [OF v new ok]) (use viewD(4,6,8) [OF v] yq in \<open>auto simp: c1_def x(2) weights unqueued_def\<close>)
    moreover have "chains ((sc_heap ctl)(p \<mapsto> y))" by (rule chains_fresh [OF sc_invD(2) [OF inv] new yq(4)])
    moreover have "art_ok c1" using sc_invD(3) [OF inv] by (simp add: art_ok_def c1_def)
    moreover have "queues_sorted c1"
    proof (rule queues_sorted_cong [OF sc_invD(4) [OF inv]], intro exI conjI)
      fix q
      show "sorted (map (pn ctl) (sc_unacked_packets c1 q))" using sc_invD(4) [OF inv] by (simp add: queues_sorted_def c1_def)
      have "p \<notin> set (sc_unacked_packets ctl q)" using viewD(5) [OF v, of p q] new by auto
      then show "\<forall>z \<in> set (sc_unacked_packets c1 q). pn c1 z = pn ctl z" by (auto simp: c1_def pn_def)
    qed simp
    ultimately have "sc_inv c1" by (simp add: sc_inv_def c1_def)
    moreover have "rounds_left c1" using r yq(1) by (auto simp: rounds_left_def c1_def unqueued_def split: if_splits)
    moreover have "shrinks ctl c1" using yq(1) by (auto simp: shrinks_def c1_def unqueued_def awaits_ack_def split: if_splits)
    ultimately show ?thesis using e yq by (intro exI [of _ c1] exI [of _ "Some p"]) (simp add: c1_def n_def)
  qed
qed

text \<open>A packet that is being filled: it is scheduled already or in no queue yet.\<close>

definition in_hand :: "sc_packet \<Rightarrow> bool" where
  "in_hand x \<longleftrightarrow> \<not> po_unacked x \<and> \<not> po_lost x"

lemma incr_pack_sz_ok:
  assumes inv: "sc_inv ctl" and p: "sc_heap ctl p = Some x" "in_hand x" and sz: "unat (po_total_sz x) + unat delta < 65536"
  shows "\<exists>c. lsquic_send_ctl_incr_pack_sz ctl p delta = Some c \<and> sc_inv c \<and> (rounds_left ctl \<longrightarrow> rounds_left c) \<and> shrinks ctl c"
proof -
  have v: "sc_view (sc_heap ctl) ctl" by (rule sc_invD(1) [OF inv])
  have ok: "packet_ok p x" by (rule viewD(3) [OF v p(1)])
  have u: "\<not> po_unacked x" "\<not> po_lost x" using p(2) by (simp_all add: in_hand_def)
  define y where "y = x\<lparr>po_data_sz := po_data_sz x + delta, po_total_sz := po_total_sz x + ucast delta\<rparr>"
  define h where "h = (sc_heap ctl)(p \<mapsto> y)"
  define c where "c = (if po_sched x then ctl\<lparr>sc_heap := h, sc_bytes_scheduled := sc_bytes_scheduled ctl + ucast delta\<rparr> else ctl\<lparr>sc_heap := h\<rparr>)"
  have e: "lsquic_send_ctl_incr_pack_sz ctl p delta = Some c"
    by (simp add: lsquic_send_ctl_incr_pack_sz_def p(1) upd_packet_def c_def h_def y_def)
  have "unat (po_total_sz x + ucast delta) < 65536"
    using sz by (simp add: unat_word_ariths unsigned_ucast_eq take_bit_nat_eq_self)
  then have oky: "packet_ok p y" using ok by (simp add: packet_ok_def y_def word_less_nat_alt)
  have "sc_view h c"
  proof (cases "po_sched x")
    case False
    then have "sc_view h ctl" unfolding h_def by - (rule view_changed [OF v p(1) oky], use u in \<open>simp_all add: y_def weights q_pns_def\<close>)
    then show ?thesis using False by - (rule view_cong [of h ctl], simp_all add: c_def)
  next
    case True
    define cm where "cm = ctl\<lparr>sc_scheduled_packets := remove1 p (sc_scheduled_packets ctl), sc_n_scheduled := sc_n_scheduled ctl - 1,
      sc_bytes_scheduled := sc_bytes_scheduled ctl - po_total_sz x\<rparr>"
    have out: "p \<notin> set (sc_unacked_packets ctl pns)" "p \<notin> set (sc_lost_packets ctl)" "p \<in> set (sc_scheduled_packets ctl)" for pns
      using viewD(5,7,9) [OF v, of p] p(1) u True by auto
    have d: "sc_view ((sc_heap ctl)(p := None)) cm"
      by (rule view_gone [OF v p(1)]) (use out True u in \<open>simp_all add: cm_def weights remove1_idem\<close>)
    have "p < sc_fresh ctl" using viewD(2) [OF v] p(1) by auto
    then have "sc_view (((sc_heap ctl)(p := None))(p \<mapsto> y)) c"
      by (intro view_comes [OF d _ oky]) (use viewD(4,6,8) [OF v] out True u in \<open>auto simp: c_def cm_def y_def weights\<close>)
    then show ?thesis by (simp add: h_def)
  qed
  moreover have hc: "sc_heap c = h" by (simp add: c_def)
  ultimately have w: "sc_view (sc_heap c) c" by (simp only:)
  have k: "sc_heap c = (sc_heap ctl)(p \<mapsto> y)" "\<not> po_unacked y" "po_loss_chain y = po_loss_chain x" "po_pns y = po_pns x"
    "sc_unacked_packets c = sc_unacked_packets ctl" "sc_al_retx c = sc_al_retx ctl" "sc_retx_frames c = sc_retx_frames ctl" "art_ok c = art_ok ctl"
    using u by (simp_all add: hc h_def) (simp_all add: c_def y_def art_ok_def)
  note a = aside_ok [OF inv p(1) u(1) k(1-4) w k(5-8)]
  show ?thesis using e a by blast
qed

text \<open>The members that the writers of frames and the engine set in such a packet.\<close>

definition edited :: "sc_packet \<Rightarrow> sc_packet \<Rightarrow> bool" where
  "edited x y \<longleftrightarrow> y = x\<lparr>po_has_sent_sz := po_has_sent_sz y, po_sent_sz := po_sent_sz y, po_sent := po_sent y, po_frame_types := po_frame_types y,
     po_regen_sz := po_regen_sz y, po_ack2ed := po_ack2ed y, po_forw := po_forw y, po_mini := po_mini y, po_expected_sent := po_expected_sent y\<rparr>"

lemma edited_ok:
  assumes inv: "sc_inv ctl" and p: "sc_heap ctl p = Some x" "in_hand x" and e: "edited x y"
  shows "sc_inv (ctl\<lparr>sc_heap := (sc_heap ctl)(p \<mapsto> y)\<rparr>)" "rounds_left ctl \<Longrightarrow> rounds_left (ctl\<lparr>sc_heap := (sc_heap ctl)(p \<mapsto> y)\<rparr>)"
    "shrinks ctl (ctl\<lparr>sc_heap := (sc_heap ctl)(p \<mapsto> y)\<rparr>)"
proof -
  have y: "po_unacked y = po_unacked x" "po_sched y = po_sched x" "po_lost y = po_lost x" "po_poison y = po_poison x"
      "po_loss_chain y = po_loss_chain x" "po_pns y = po_pns x" "po_total_sz y = po_total_sz x" "po_loss_rec y = po_loss_rec x"
      "po_mtu_probe y = po_mtu_probe x" "po_fake_loss_rec y = po_fake_loss_rec x"
    using arg_cong [OF e [unfolded edited_def], of po_unacked] arg_cong [OF e [unfolded edited_def], of po_sched]
      arg_cong [OF e [unfolded edited_def], of po_lost] arg_cong [OF e [unfolded edited_def], of po_poison]
      arg_cong [OF e [unfolded edited_def], of po_loss_chain] arg_cong [OF e [unfolded edited_def], of po_pns]
      arg_cong [OF e [unfolded edited_def], of po_total_sz] arg_cong [OF e [unfolded edited_def], of po_loss_rec]
      arg_cong [OF e [unfolded edited_def], of po_mtu_probe] arg_cong [OF e [unfolded edited_def], of po_fake_loss_rec] by simp_all
  have ok: "packet_ok p x" by (rule viewD(3) [OF sc_invD(1) [OF inv] p(1)])
  have u: "\<not> po_unacked x" using p(2) by (simp add: in_hand_def)
  have "packet_ok p y" using ok u by (auto simp: packet_ok_def y)
  note k = changed_aside_ok [OF inv p(1) u this y(1-6) _ refl]
  show "sc_inv (ctl\<lparr>sc_heap := (sc_heap ctl)(p \<mapsto> y)\<rparr>)" by (rule k(1)) (simp_all add: y)
  show "rounds_left ctl \<Longrightarrow> rounds_left (ctl\<lparr>sc_heap := (sc_heap ctl)(p \<mapsto> y)\<rparr>)" by (rule k(2)) (simp_all add: y)
  show "shrinks ctl (ctl\<lparr>sc_heap := (sc_heap ctl)(p \<mapsto> y)\<rparr>)" by (rule k(3)) (simp_all add: y)
qed

section \<open>The transition system\<close>

inductive sc_step :: "send_ctl \<Rightarrow> send_ctl \<Rightarrow> bool" where
  created: "lsquic_send_ctl_new_packet_out env ctl sizes need pns token = Some (ctl', res) \<Longrightarrow> sc_step ctl ctl'"
| written: "sc_heap ctl p = Some x \<Longrightarrow> in_hand x \<Longrightarrow> unat (po_total_sz x) + unat delta < 65536 \<Longrightarrow>
    lsquic_send_ctl_incr_pack_sz ctl p delta = Some ctl' \<Longrightarrow> sc_step ctl ctl'"
| marked: "sc_heap ctl p = Some x \<Longrightarrow> in_hand x \<Longrightarrow> edited x y \<Longrightarrow> sc_step ctl (ctl\<lparr>sc_heap := (sc_heap ctl)(p \<mapsto> y)\<rparr>)"
| scheduled: "sc_heap ctl p = Some x \<Longrightarrow> unqueued x \<Longrightarrow> lsquic_send_ctl_scheduled_one ctl p = Some ctl' \<Longrightarrow> sc_step ctl ctl'"
| taken: "sc_heap ctl p = Some x \<Longrightarrow> po_sched x \<Longrightarrow> send_ctl_sched_remove ctl p = Some ctl' \<Longrightarrow> sc_step ctl ctl'"
| sent: "sc_heap ctl p = Some x \<Longrightarrow> unqueued x \<Longrightarrow> po_retrans_times x < 19 \<Longrightarrow> next_no ctl (po_packno x) \<Longrightarrow> sc_gap ctl < sc_gap ctl + 1 \<Longrightarrow>
    lsquic_send_ctl_sent_packet env ctl p = Some (ctl', res) \<Longrightarrow> sc_step ctl ctl'"
| acked: "\<forall>q. \<not> env_alloc_fails env q \<Longrightarrow> ranges_ok (ai_ranges acki) \<Longrightarrow> lsquic_send_ctl_got_ack env ctl acki t now = Some (ctl', res) \<Longrightarrow> sc_step ctl ctl'"
| alarm: "\<forall>q. \<not> env_alloc_fails env q \<Longrightarrow> retx_alarm_rings env ctl pns now = Some ctl' \<Longrightarrow> sc_step ctl ctl'"
| expired: "lsquic_send_ctl_expire_all env ctl = Some ctl' \<Longrightarrow> sc_step ctl ctl'"
| duplicated: "\<forall>q. \<not> env_alloc_fails env q \<Longrightarrow> art_schedule env ctl = Some ctl' \<Longrightarrow> sc_step ctl ctl'"
| rescheduled: "elides (env_elide env) \<Longrightarrow> lost_resendable env ctl \<Longrightarrow> lsquic_send_ctl_reschedule_packets env ctl = Some (ctl', n) \<Longrightarrow> sc_step ctl ctl'"

inductive sc_reachable :: "send_ctl \<Rightarrow> bool" where
  start: "sc_reachable (lsquic_send_ctl_init ietf nstp ecn (retx_frames ietf))"
| step: "sc_reachable ctl \<Longrightarrow> sc_step ctl ctl' \<Longrightarrow> sc_reachable ctl'"

definition reach_inv :: "send_ctl \<Rightarrow> bool" where
  "reach_inv ctl \<longleftrightarrow> sc_inv ctl \<and> rounds_left ctl \<and> (\<forall>q. armed ctl q) \<and> FT_STREAM AND sc_retx_frames ctl = FT_STREAM"

lemma reach_inv_shrinks: "reach_inv ctl \<Longrightarrow> sc_inv c \<Longrightarrow> rounds_left c \<Longrightarrow> shrinks ctl c \<Longrightarrow> reach_inv c"
  unfolding reach_inv_def using shrinks_armed [of ctl c] by (auto simp: shrinks_def)

lemma reach_inv_init: "reach_inv (lsquic_send_ctl_init ietf nstp ecn (retx_frames ietf))"
proof -
  let ?c = "lsquic_send_ctl_init ietf nstp ecn (retx_frames ietf)"
  have h: "sc_heap ?c = (\<lambda>_. None)" "sc_retx_frames ?c = retx_frames ietf" by (simp_all add: lsquic_send_ctl_init_def)
  have "sc_view (sc_heap ?c) ?c" by (simp add: sc_view_def lsquic_send_ctl_init_def hsum_def)
  moreover have "chains (sc_heap ?c)" by (simp add: chains_def all_cyc_def dom_nx h)
  moreover have "art_ok ?c" "queues_sorted ?c"
    by (simp_all add: art_ok_def queues_sorted_def lsquic_send_ctl_init_def)
  ultimately have "sc_inv ?c" by (simp add: sc_inv_def)
  moreover have "rounds_left ?c" "\<forall>q. armed ?c q" by (simp_all add: rounds_left_def armed_def awaited_def h)
  ultimately show ?thesis using stream_retx by (simp add: reach_inv_def h)
qed

lemma reach_inv_step: "sc_step ctl ctl' \<Longrightarrow> reach_inv ctl \<Longrightarrow> reach_inv ctl'"
proof (induction rule: sc_step.induct)
  case (created env ctl sizes need pns token ctl' res)
  then show ?case using new_packet_ok [of ctl env sizes need pns token] reach_inv_shrinks [of ctl] by (auto simp: reach_inv_def)
next
  case (written ctl p x delta ctl')
  then show ?case using incr_pack_sz_ok [of ctl p x delta] reach_inv_shrinks [of ctl] by (auto simp: reach_inv_def)
next
  case (marked ctl p x y)
  then show ?case using edited_ok [of ctl p x y] reach_inv_shrinks [of ctl] by (auto simp: reach_inv_def)
next
  case (scheduled ctl p x ctl')
  then show ?case using scheduled_one_ok [of ctl p x] reach_inv_shrinks [of ctl] by (auto simp: reach_inv_def)
next
  case (taken ctl p x ctl')
  then show ?case using sched_remove_ok [of ctl p x] reach_inv_shrinks [of ctl] by (auto simp: reach_inv_def)
next
  case (sent ctl p x env ctl' res)
  then show ?case using sent_packet_ok [of ctl p x env] by (auto simp: reach_inv_def)
next
  case (acked env acki ctl t now ctl' res)
  then show ?case using got_ack_total [of ctl env acki t now] by (auto simp: reach_inv_def ack_handled_def)
next
  case (alarm env ctl pns now ctl')
  then show ?case using retx_alarm_rings_ok [of ctl env pns now] by (auto simp: reach_inv_def alarm_handled_def)
next
  case (expired env ctl ctl')
  then show ?case using expire_all_ok [of ctl env] by (auto simp: reach_inv_def)
next
  case (duplicated env ctl ctl')
  then show ?case using art_schedule_ok [of ctl env] reach_inv_shrinks [of ctl] by (auto simp: reach_inv_def)
next
  case (rescheduled env ctl ctl' n)
  then show ?case using reschedule_packets_ok [of ctl env] reach_inv_shrinks [of ctl] by (auto simp: reach_inv_def)
qed

lemma reachable_inv: "sc_reachable ctl \<Longrightarrow> reach_inv ctl"
  by (induction rule: sc_reachable.induct) (auto intro: reach_inv_init reach_inv_step)

end
