(* ===== verification/Art_Rate.thy ===== *)
theory Art_Rate
  imports Send_Loss
begin

text \<open>
  The number of duplicates per round (\<^verbatim>\<open>art_duplicate_number\<close> and \<^verbatim>\<open>art_replica_loss_rate\<close> of
  \<^verbatim>\<open>lsquic_art_feedback.c\<close>).  As long as the rate of lost duplicates stays the same, the number comes to rest where
  between one and two duplicates are expected to arrive.
\<close>

declare of_nat_unat [simp del]

section \<open>The rate\<close>

lemma rate_bounds:
  assumes "art_ok ctl"
  shows "0 \<le> art_replica_loss_rate ctl" "art_replica_loss_rate ctl \<le> 1"
    "art_replica_loss_rate ctl < 1 \<Longrightarrow> 1 / 10 \<le> 1 - art_replica_loss_rate ctl"
proof -
  define n where "n = length (sc_feedback_window ctl)"
  define k where "k = length (filter (\<lambda>v. v = 1) (sc_feedback_window ctl))"
  have n: "n \<le> 10" and s: "sc_feedback_window_size ctl = of_nat n" using assms by (auto simp: art_ok_def n_def)
  have k: "k \<le> n" by (simp add: k_def n_def)
  have u: "unat (sc_feedback_window_size ctl) = n" using n by (simp add: s unsigned_of_nat take_bit_nat_eq_self)
  then have z: "sc_feedback_window_size ctl = 0 \<longleftrightarrow> n = 0" by (simp add: unat_eq_0 [symmetric])
  have e: "art_replica_loss_rate ctl = of_nat k / of_nat n" unfolding art_replica_loss_rate_def z u k_def [symmetric] by simp
  show "0 \<le> art_replica_loss_rate ctl" by (simp add: e)
  show "art_replica_loss_rate ctl \<le> 1" using k by (cases "n = 0") (simp_all add: e divide_le_eq_1)
  assume l: "art_replica_loss_rate ctl < 1"
  show "1 / 10 \<le> 1 - art_replica_loss_rate ctl"
  proof (cases "n = 0")
    case False
    with l have "k < n" by (simp add: e)
    then have "of_nat k + 1 \<le> (of_nat n :: rat)" by (metis Suc_leI of_nat_Suc of_nat_le_iff add.commute)
    moreover have "(of_nat n :: rat) \<le> 10" using n by (metis of_nat_le_iff of_nat_numeral)
    ultimately show ?thesis using False by (simp add: e field_simps)
  qed (simp add: e)
qed

section \<open>The number of duplicates\<close>

definition settled :: "rat \<Rightarrow> u32 \<Rightarrow> bool" where
  "settled rlr r \<longleftrightarrow> 1 \<le> (1 - rlr) * of_nat (unat r) \<and> (1 - rlr) * of_nat (unat r) < 2"

lemma art_adjust_cases:
  fixes r :: u32 and rlr :: rat
  defines "e \<equiv> (1 - rlr) * of_nat (unat r)"
  shows "art_adjust rlr r = (if r = 0 \<or> e < 1 then r + 1 else if 2 \<le> e then r - 1 else r)"
proof (cases "r = 0")
  case False
  then have "0 < (of_nat (unat r) :: rat)" by (simp only: of_nat_0_less_iff unat_gt_0 not_False_eq_True)
  then have "rlr > 1 - 1 / of_nat (unat r) \<longleftrightarrow> e < 1" "rlr \<le> 1 - 2 / of_nat (unat r) \<longleftrightarrow> 2 \<le> e"
    by (auto simp: e_def field_simps)
  then show ?thesis using False by (simp add: art_adjust_def)
qed (simp add: art_adjust_def)

lemma settled_fixed: "settled rlr r \<Longrightarrow> art_adjust rlr r = r"
  by (auto simp: settled_def art_adjust_cases)

lemma settles_from_below:
  assumes "1 / 10 \<le> 1 - rlr" "0 \<le> rlr" "(1 - rlr) * of_nat (unat r) < 2"
  shows "\<exists>n \<le> 10 - unat r. settled rlr ((art_adjust rlr ^^ n) r)"
  using assms(3)
proof (induction "10 - unat r" arbitrary: r rule: less_induct)
  case less
  let ?e = "(1 - rlr) * of_nat (unat r)"
  show ?case
  proof (cases "1 \<le> ?e")
    case True
    then show ?thesis using less.prems by (intro exI [of _ 0]) (simp add: settled_def)
  next
    case False
    have "1 / 10 * of_nat (unat r) \<le> ?e" using assms(1) by (intro mult_right_mono) simp_all
    with False have "(of_nat (unat r) :: rat) < of_nat 10" by simp
    then have r: "unat r < 10" by (simp only: of_nat_less_iff)
    then have s: "unat (r + 1) = unat r + 1" by (simp add: unat_word_ariths)
    have a: "art_adjust rlr r = r + 1" using False by (simp add: art_adjust_cases)
    have "(1 - rlr) * of_nat (unat (r + 1)) < 2" using False assms(2) unfolding s by (simp add: algebra_simps)
    moreover have "10 - unat (r + 1) < 10 - unat r" using r s by simp
    ultimately obtain n where n: "n \<le> 10 - unat (r + 1)" "settled rlr ((art_adjust rlr ^^ n) (r + 1))" using less.hyps by blast
    have "(art_adjust rlr ^^ Suc n) r = (art_adjust rlr ^^ n) (r + 1)" by (simp add: funpow_swap1 a)
    then show ?thesis using n r s by (intro exI [of _ "Suc n"]) (simp add: funpow_swap1 a)
  qed
qed

lemma settles:
  assumes "1 / 10 \<le> 1 - rlr" "0 \<le> rlr"
  shows "\<exists>n \<le> unat r + 10. settled rlr ((art_adjust rlr ^^ n) r)"
proof (induction "unat r" arbitrary: r rule: less_induct)
  case less
  let ?e = "(1 - rlr) * of_nat (unat r)"
  show ?case
  proof (cases "?e < 2")
    case True
    with settles_from_below [OF assms, of r] obtain n where "n \<le> 10 - unat r" "settled rlr ((art_adjust rlr ^^ n) r)" by blast
    then show ?thesis by (intro exI [of _ n]) simp
  next
    case False
    then have nz: "r \<noteq> 0" by auto
    then have s: "unat (r - 1) = unat r - 1" "0 < unat r" by (simp_all add: unat_minus_one unat_gt_0)
    have a: "art_adjust rlr r = r - 1" using False nz by (simp add: art_adjust_cases)
    have "unat (r - 1) < unat r" using s by simp
    from less.hyps [OF this] obtain n where n: "n \<le> unat (r - 1) + 10" "settled rlr ((art_adjust rlr ^^ n) (r - 1))" by blast
    then show ?thesis using s by (intro exI [of _ "Suc n"]) (simp add: funpow_swap1 a)
  qed
qed

declare of_nat_unat [simp]

end
