(* ===== verification/Send_Props.thy ===== *)
theory Send_Props
  imports Send_Reach Art_Rate
begin

text \<open>
  The properties of the send controller, in the states that can be reached, with a small connection at which they are
  put to the test: one packet with a STREAM frame is created, written and sent.
\<close>

section \<open>The counters as sums over the queues\<close>






section \<open>A small connection\<close>

definition demo_env :: sc_env where
  "demo_env = \<lparr>env_now = 1000, env_alloc_fails = (\<lambda>_. False), env_rand = (\<lambda>_. 0), env_crand = 0, env_elide = (\<lambda>x. x),
     env_can_send = (\<lambda>_. True), env_pack_size = 1200, env_split = (\<lambda>_ _. None)\<rparr>"

definition demo_init :: send_ctl where
  "demo_init = lsquic_send_ctl_init True True False (retx_frames True)"

definition demo_new :: send_ctl where
  "demo_new = fst (the (lsquic_send_ctl_new_packet_out demo_env demo_init (20, 16, 1200) 0 PNS_APP None))"

definition demo_packet :: sc_packet where
  "demo_packet = zero_packet\<lparr>po_total_sz := 36, po_pns := PNS_APP, po_loss_chain := 0\<rparr>"

lemma demo_new_heap: "sc_heap demo_new = [0 \<mapsto> demo_packet]"
  by (simp add: demo_new_def lsquic_send_ctl_new_packet_out_def send_ctl_allocate_packet_def lsquic_packet_out_new_def malo_get_def
     demo_env_def demo_init_def lsquic_send_ctl_init_def send_ctl_next_packno_def Let_def upd_packet_def demo_packet_def zero_packet_def fun_eq_iff)

definition demo_written :: send_ctl where
  "demo_written = the (lsquic_send_ctl_incr_pack_sz demo_new 0 100)"

definition demo_filled :: sc_packet where
  "demo_filled = demo_packet\<lparr>po_data_sz := 100, po_total_sz := 136\<rparr>"

definition demo_stream :: sc_packet where
  "demo_stream = demo_filled\<lparr>po_frame_types := FT_STREAM\<rparr>"

definition demo_marked :: send_ctl where
  "demo_marked = demo_written\<lparr>sc_heap := (sc_heap demo_written)(0 \<mapsto> demo_stream)\<rparr>"

definition demo_sent :: send_ctl where
  "demo_sent = fst (the (lsquic_send_ctl_sent_packet demo_env demo_marked 0))"

lemmas demo_packets = demo_stream_def demo_filled_def demo_packet_def zero_packet_def

lemma demo_written_heap: "sc_heap demo_written = [0 \<mapsto> demo_filled]"
  by (simp add: demo_written_def lsquic_send_ctl_incr_pack_sz_def demo_new_heap upd_packet_def demo_packet_def demo_filled_def zero_packet_def)

lemma demo_marked_heap: "sc_heap demo_marked = [0 \<mapsto> demo_stream]"
  by (simp add: demo_marked_def demo_written_heap)

lemma demo_marked_reachable: "sc_reachable demo_marked"
proof -
  have i: "sc_reachable demo_init" unfolding demo_init_def by (rule sc_reachable.start)
  from reachable_inv [OF i] have ri: "sc_inv demo_init" "rounds_left demo_init" by (simp_all add: reach_inv_def)
  from new_packet_ok [OF ri, of demo_env "(20, 16, 1200)" 0 PNS_APP None] obtain res where
    "lsquic_send_ctl_new_packet_out demo_env demo_init (20, 16, 1200) 0 PNS_APP None = Some (demo_new, res)" by (auto simp: demo_new_def)
  then have n: "sc_reachable demo_new" by (rule sc_reachable.step [OF i sc_step.created])
  from reachable_inv [OF n] have rn: "sc_inv demo_new" by (simp add: reach_inv_def)
  have p: "sc_heap demo_new 0 = Some demo_packet" "in_hand demo_packet" "unat (po_total_sz demo_packet) + unat (100 :: u16) < 65536"
    by (simp_all add: demo_new_heap demo_packet_def zero_packet_def in_hand_def)
  from incr_pack_sz_ok [OF rn p] have "lsquic_send_ctl_incr_pack_sz demo_new 0 100 = Some demo_written" by (auto simp: demo_written_def)
  then have w: "sc_reachable demo_written" by (rule sc_reachable.step [OF n sc_step.written [OF p]])
  have f: "sc_heap demo_written 0 = Some demo_filled" "in_hand demo_filled" by (simp_all add: demo_written_heap in_hand_def demo_packets)
  have "edited demo_filled demo_stream" unfolding edited_def by (rule sc_packet.equality) (simp_all add: demo_stream_def)
  then show ?thesis unfolding demo_marked_def by (rule sc_reachable.step [OF w sc_step.marked [OF f]])
qed

lemma demo_sent_step: "\<exists>res. lsquic_send_ctl_sent_packet demo_env demo_marked 0 = Some (demo_sent, res)" and demo_sent_reachable: "sc_reachable demo_sent"
proof -
  from reachable_inv [OF demo_marked_reachable] have r: "sc_inv demo_marked" "rounds_left demo_marked" by (simp_all add: reach_inv_def)
  have g: "sc_gap demo_marked < sc_gap demo_marked + 1"
    by (simp add: demo_marked_def demo_written_def lsquic_send_ctl_incr_pack_sz_def demo_new_heap upd_packet_def demo_packet_def zero_packet_def
      demo_new_def lsquic_send_ctl_new_packet_out_def send_ctl_allocate_packet_def lsquic_packet_out_new_def malo_get_def
      demo_env_def demo_init_def lsquic_send_ctl_init_def send_ctl_next_packno_def Let_def)
  have p: "sc_heap demo_marked 0 = Some demo_stream" "unqueued demo_stream" "po_retrans_times demo_stream < 19" "next_no demo_marked (po_packno demo_stream)"
    by (simp_all add: demo_marked_heap unqueued_def next_no_def demo_packets)
  from sent_packet_ok [OF r p g, of demo_env] obtain res where e: "lsquic_send_ctl_sent_packet demo_env demo_marked 0 = Some (demo_sent, res)"
    by (auto simp: demo_sent_def)
  then show "\<exists>res. lsquic_send_ctl_sent_packet demo_env demo_marked 0 = Some (demo_sent, res)" by blast
  show "sc_reachable demo_sent" by (rule sc_reachable.step [OF demo_marked_reachable sc_step.sent [OF p g e]])
qed

lemma demo_marked_members:
  "sc_gap demo_marked = 0xFFFFFFFFFFFFFFFE" "sc_unacked_packets demo_marked = (\<lambda>_. [])" "sc_retx_frames demo_marked = retx_frames True"
  "sc_al_retx demo_marked = (\<lambda>_. None)" "sc_lost_packets demo_marked = []" "sc_last_sent demo_marked = lsquic_senhist_init True" "sc_ietf demo_marked"
  "sc_fresh demo_marked = 1" "sc_rounds_map demo_marked = map (\<lambda>t. 2 * of_nat t - 1) [0..<MAX_ROUND_BOUND]" "sc_art_flag demo_marked = 1" "sc_ecn demo_marked = 0" "sc_scheduled_packets demo_marked = []" "sc_n_in_flight_all demo_marked = 0" "sc_feedback_window demo_marked = []"
  by (simp_all add: demo_marked_def demo_written_def lsquic_send_ctl_incr_pack_sz_def demo_new_heap upd_packet_def demo_packet_def zero_packet_def
      demo_new_def lsquic_send_ctl_new_packet_out_def send_ctl_allocate_packet_def lsquic_packet_out_new_def malo_get_def
      demo_env_def demo_init_def lsquic_send_ctl_init_def send_ctl_next_packno_def Let_def)

lemma demo_has_frames: "has_frames demo_stream (retx_frames True)" "has_frames demo_stream FT_STREAM" "FT_STREAM \<noteq> FT_PADDING" "\<not> has_frames demo_stream FT_ACK"
  by (simp_all add: has_frames_def demo_packets retx_frames_def FT_STREAM_def FT_PADDING_def FT_ACK_def IQUIC_FRAME_RETX_MASK_def ft_bits_def quic_ft_bit_def)

lemma demo_sent_members:
  "sc_heap demo_sent = [0 \<mapsto> demo_stream\<lparr>po_unacked := True\<rparr>]" "sc_unacked_packets demo_sent = (\<lambda>_. [])(PNS_APP := [0])"
  "sc_lost_packets demo_sent = []" "sc_retx_frames demo_sent = retx_frames True" "sc_fresh demo_sent = 1" "sc_art_flag demo_sent = 1"
  "sc_rounds_map demo_sent = map (\<lambda>t. 2 * of_nat t - 1) [0..<MAX_ROUND_BOUND]" "sc_ietf demo_sent" "sc_ecn demo_sent = 0"
  "sc_last_sent demo_sent = 0" "sc_n_in_flight_all demo_sent = 1"
proof -
  define c where "c = demo_marked\<lparr>sc_last_sent_time := po_sent demo_stream, sc_last_sent := 0, sc_unacked_packets := (\<lambda>_. [])(PNS_APP := [0]),
    sc_heap := [0 \<mapsto> demo_stream\<lparr>po_unacked := True\<rparr>], sc_bytes_unacked_all := sc_bytes_unacked_all demo_marked + packet_out_sent_sz demo_stream,
    sc_n_in_flight_all := 1, sc_bytes_unacked_retx := sc_bytes_unacked_retx demo_marked + po_total_sz demo_stream,
    sc_n_in_flight_retx := sc_n_in_flight_retx demo_marked + 1\<rparr>"
  obtain h al where a: "set_retx_alarm c PNS_APP 0 = c\<lparr>sc_n_hsk := h, sc_al_retx := al\<rparr>"
  proof -
    have "\<exists>h. (if get_retx_mode c = RETX_MODE_HANDSHAKE then c\<lparr>sc_n_hsk := sc_n_hsk c + 1\<rparr> else c) = c\<lparr>sc_n_hsk := h\<rparr>"
      by (cases "get_retx_mode c = RETX_MODE_HANDSHAKE") (auto intro: exI [of _ "sc_n_hsk c"])
    then show ?thesis using that unfolding set_retx_alarm_def Let_def by auto
  qed
  have p: "po_pns demo_stream = PNS_APP" "po_packno demo_stream = 0" "po_sent demo_stream = 0" by (simp_all add: demo_packets)
  have e: "demo_sent = (if sc_n_in_flight_retx (set_retx_alarm c PNS_APP 0) = 1 then (set_retx_alarm c PNS_APP 0)\<lparr>sc_was_quiet := True\<rparr> else set_retx_alarm c PNS_APP 0)"
    by (simp add: demo_sent_def lsquic_send_ctl_sent_packet_def demo_marked_heap p send_ctl_update_poison_hist_def demo_marked_members
      send_ctl_unacked_append_def set_unacked_def upd_packet_def demo_has_frames lsquic_senhist_init_def lsquic_senhist_add_def Let_def c_def)
  show "sc_heap demo_sent = [0 \<mapsto> demo_stream\<lparr>po_unacked := True\<rparr>]" "sc_unacked_packets demo_sent = (\<lambda>_. [])(PNS_APP := [0])"
    "sc_lost_packets demo_sent = []" "sc_retx_frames demo_sent = retx_frames True" "sc_fresh demo_sent = 1" "sc_art_flag demo_sent = 1"
    "sc_rounds_map demo_sent = map (\<lambda>t. 2 * of_nat t - 1) [0..<MAX_ROUND_BOUND]" "sc_ietf demo_sent" "sc_ecn demo_sent = 0"
    "sc_last_sent demo_sent = 0" "sc_n_in_flight_all demo_sent = 1"
    unfolding e a by (simp_all add: c_def demo_marked_members)
qed

lemma demo_sent_window: "sc_feedback_window demo_sent = []"
proof -
  have "sc_feedback_window (set_retx_alarm c q t) = sc_feedback_window c" for c q t by (simp add: set_retx_alarm_def Let_def)
  then show ?thesis
    by (simp add: demo_sent_def lsquic_send_ctl_sent_packet_def demo_marked_heap send_ctl_update_poison_hist_def demo_marked_members demo_packets
      send_ctl_unacked_append_def set_unacked_def upd_packet_def demo_has_frames lsquic_senhist_init_def lsquic_senhist_add_def Let_def)
qed

definition demo_lost :: send_ctl where
  "demo_lost = the (lsquic_send_ctl_expire_all demo_env demo_sent)"

lemma demo_lost_reachable: "sc_reachable demo_lost"
proof -
  from reachable_inv [OF demo_sent_reachable] have "sc_inv demo_sent" "rounds_left demo_sent" by (simp_all add: reach_inv_def)
  from expire_all_ok [OF this, of demo_env] have "lsquic_send_ctl_expire_all demo_env demo_sent = Some demo_lost" by (auto simp: demo_lost_def)
  then show ?thesis by (rule sc_reachable.step [OF demo_sent_reachable sc_step.expired])
qed

lemma expire_loop_cases:
  "expire_loop env pns sel None ctl = Some ctl"
  "expire_loop env pns sel (Some p) ctl = do {
     x \<leftarrow> sc_heap ctl p;
     let next = tailq_next (sc_unacked_packets ctl pns) p;
     (ctl, next) \<leftarrow> (if sel x then do { (ctl, _, next) \<leftarrow> send_ctl_handle_lost_packet env ctl p next; Some (ctl, next) } else Some (ctl, next));
     expire_loop env pns sel next ctl }"
  by (subst expire_loop.simps, simp)+

lemma demo_lost_members:
  "sc_lost_packets demo_lost = [0]" "sc_heap demo_lost p = Some x \<Longrightarrow> po_lost x \<Longrightarrow> po_total_sz x = 136 \<and> po_regen_sz x = 0 \<and> po_data_sz x = 100"
proof -
  have d: "\<not> po_loss_rec demo_stream" "\<not> po_poison demo_stream" "\<not> po_mtu_probe demo_stream" "\<not> po_lost demo_stream" "po_pns demo_stream = PNS_APP"
    "po_fake_loss_rec demo_stream = 0" "po_frame_types demo_stream = FT_STREAM" "po_retrans_times demo_stream = 0" "po_loss_chain demo_stream = 0"
    "po_total_sz demo_stream = 136" "po_regen_sz demo_stream = 0" "po_data_sz demo_stream = 100" "\<not> po_has_sent_sz demo_stream" by (simp_all add: demo_packets)
  have hf: "has_frames (demo_stream\<lparr>po_unacked := b\<rparr>) fts = has_frames demo_stream fts"
    "has_frames (demo_stream\<lparr>po_unacked := b, po_lost := b', po_loss_chain := c\<rparr>) fts = has_frames demo_stream fts" for b b' c fts
    by (simp_all add: has_frames_def)
  note ev = demo_lost_def lsquic_send_ctl_expire_all_def Let_def demo_sent_members send_ctl_expire_def first_pid_def expire_loop_cases d hf
      send_ctl_handle_lost_packet_def send_ctl_handle_regular_lost_packet_def note_loss_def all_duplicates_sent_def demo_has_frames
      send_ctl_record_loss_def malo_get_def demo_env_def set_unacked_def to_lost_queue_def send_ctl_unacked_remove_def upd_packet_def
      plan_retransmission_def art_duplicate_number_def MAX_ROUND_BOUND_def
  show l: "sc_lost_packets demo_lost = [0]" by (simp add: ev)
  have t: "map_option (\<lambda>x. (po_total_sz x, po_regen_sz x, po_data_sz x)) (sc_heap demo_lost 0) = Some (136, 0, 100)"
    by (simp add: ev lsquic_packet_out_schedule_time_def)
  assume a: "sc_heap demo_lost p = Some x" "po_lost x"
  have "sc_view (sc_heap demo_lost) demo_lost" using reachable_inv [OF demo_lost_reachable] by (simp add: reach_inv_def sc_inv_def)
  then have "p = 0" using viewD(9) [of "sc_heap demo_lost" demo_lost p] a by (simp add: l)
  then show "po_total_sz x = 136 \<and> po_regen_sz x = 0 \<and> po_data_sz x = 100" using t a by simp
qed

section \<open>Adjusting the number of duplicates again and again\<close>

primrec duplicate_numbers :: "nat \<Rightarrow> send_ctl \<Rightarrow> pid \<Rightarrow> send_ctl option" where
  "duplicate_numbers 0 ctl p = Some ctl"
| "duplicate_numbers (Suc n) ctl p = do { (ctl, _) \<leftarrow> art_duplicate_number ctl p; duplicate_numbers n ctl p }"

lemma duplicate_numbers_adjust:
  assumes "sc_heap ctl p = Some x" "unat (po_retrans_times x) = k" "k < length (sc_rounds_map ctl)"
  shows "duplicate_numbers n ctl p =
    Some (ctl\<lparr>sc_rounds_map := (sc_rounds_map ctl)[k := (art_adjust (art_replica_loss_rate ctl) ^^ n) (sc_rounds_map ctl ! k)]\<rparr>)"
  using assms
proof (induction n arbitrary: ctl)
  case (Suc n)
  have "art_replica_loss_rate (ctl\<lparr>sc_rounds_map := m\<rparr>) = art_replica_loss_rate ctl" for m by (simp add: art_replica_loss_rate_def)
  then show ?case using Suc by (simp add: art_duplicate_number_def funpow_swap1 Let_def)
qed simp

section \<open>Properties\<close>



text \<open>
  C14. In every state that can be reached the queues agree with the flags of the packets: each packet is in at most one
  queue, in the unacknowledged queue of its packet number space, in the scheduled queue or in the lost queue exactly
  when its flag says so, once, and each unacknowledged queue is in the order of packet numbers.
\<close>

theorem queues_exact:
  assumes "sc_reachable ctl"
  shows "(\<forall>p x. sc_heap ctl p = Some x \<longrightarrow> \<not> (po_sched x \<and> po_unacked x) \<and> \<not> (po_sched x \<and> po_lost x) \<and> \<not> (po_unacked x \<and> po_lost x))
    \<and> (\<forall>pns. distinct (sc_unacked_packets ctl pns) \<and> sorted (map (pn ctl) (sc_unacked_packets ctl pns))
        \<and> set (sc_unacked_packets ctl pns) = {p. \<exists>x. sc_heap ctl p = Some x \<and> po_unacked x \<and> q_pns x = pns})
    \<and> distinct (sc_scheduled_packets ctl) \<and> set (sc_scheduled_packets ctl) = {p. \<exists>x. sc_heap ctl p = Some x \<and> po_sched x}
    \<and> distinct (sc_lost_packets ctl) \<and> set (sc_lost_packets ctl) = {p. \<exists>x. sc_heap ctl p = Some x \<and> po_lost x}"
proof -
  have i: "sc_view (sc_heap ctl) ctl" "queues_sorted ctl" using reachable_inv [OF assms] by (simp_all add: reach_inv_def sc_inv_def)
  show ?thesis using i viewD(3) [OF i(1)] by (auto simp: sc_view_def queues_sorted_def packet_ok_def)
qed

theorem queues_exact_witness:
  "sc_unacked_packets demo_sent PNS_APP = [0] \<and> set (sc_lost_packets demo_sent) = {p. \<exists>x. sc_heap demo_sent p = Some x \<and> po_lost x}
   \<and> set (sc_lost_packets demo_lost) = {p. \<exists>x. sc_heap demo_lost p = Some x \<and> po_lost x} \<and> sc_lost_packets demo_lost = [0]"
  using queues_exact [OF demo_sent_reachable] queues_exact [OF demo_lost_reachable] by (simp add: demo_sent_members(2) demo_lost_members(1))



text \<open>
  C4. An acknowledgement in any state that can be reached is handled to its end without a null or dangling pointer (the ranges being
  in the order the parser delivers, and allocation succeeding): the state after it can again be reached, no packet
  that was not awaiting an acknowledgement is now awaiting one, and, unless the acknowledgement is refused, no packet in
  a chain that has an acknowledged member awaits one any longer.
\<close>

theorem got_ack_handled:
  assumes "sc_reachable ctl" "\<forall>q. \<not> env_alloc_fails env q" "ranges_ok (ai_ranges acki)"
  shows "\<exists>ctl' res. lsquic_send_ctl_got_ack env ctl acki ack_recv_time now = Some (ctl', res) \<and> sc_reachable ctl'
    \<and> (\<forall>q. awaited ctl' q \<subseteq> awaited ctl q)
    \<and> (res = 0 \<longrightarrow> awaited ctl' (ai_pns acki) \<inter> acked_chains (ai_ranges acki) ctl (sc_unacked_packets ctl (ai_pns acki)) = {})"
proof -
  have i: "sc_inv ctl" "rounds_left ctl" using reachable_inv [OF assms(1)] by (simp_all add: reach_inv_def)
  from got_ack_total [OF i, of env acki ack_recv_time now] assms(2,3) obtain ctl' res where
    a: "lsquic_send_ctl_got_ack env ctl acki ack_recv_time now = Some (ctl', res)" "\<forall>q. awaited ctl' q \<subseteq> awaited ctl q"
      "res = 0 \<longrightarrow> awaited ctl' (ai_pns acki) \<inter> acked_chains (ai_ranges acki) ctl (sc_unacked_packets ctl (ai_pns acki)) = {}"
    by (auto simp: ack_handled_def)
  then show ?thesis using sc_reachable.step [OF assms(1) sc_step.acked [OF assms(2,3) a(1)]] by blast
qed

definition demo_ack :: ack_info where
  "demo_ack = \<lparr>ai_pns = PNS_APP, ai_ranges = [\<lparr>pr_low = 0, pr_high = 0\<rparr>], ai_lack_delta = 10, ai_ecn = None\<rparr>"

lemma demo_ack_ok: "ranges_ok (ai_ranges demo_ack)" "\<forall>q. \<not> env_alloc_fails demo_env q"
  by (simp_all add: demo_ack_def ranges_ok_def demo_env_def)

theorem got_ack_handled_witness:
  "\<exists>ctl' res. lsquic_send_ctl_got_ack demo_env demo_sent demo_ack 900 1000 = Some (ctl', res) \<and> sc_reachable ctl'
    \<and> awaited ctl' PNS_APP \<subseteq> awaited demo_sent PNS_APP"
  using got_ack_handled [OF demo_sent_reachable demo_ack_ok(2,1), of 900 1000] by blast





text \<open>
  C16. Expiring all packets ends in a state that can again be reached, and leaves no packet awaiting an acknowledgement (in the one packet number space of a gQUIC connection).
\<close>

theorem expire_all_leaves_none:
  assumes "sc_reachable ctl"
  shows "\<exists>ctl'. lsquic_send_ctl_expire_all env ctl = Some ctl' \<and> sc_reachable ctl'
    \<and> (\<forall>q. q = PNS_APP \<or> sc_ietf ctl \<longrightarrow> awaited ctl' q = {})"
proof -
  have i: "sc_inv ctl" "rounds_left ctl" using reachable_inv [OF assms] by (simp_all add: reach_inv_def)
  from expire_all_ok [OF i, of env] obtain ctl' where
    "lsquic_send_ctl_expire_all env ctl = Some ctl'" "\<forall>q. q = PNS_APP \<or> sc_ietf ctl \<longrightarrow> awaited ctl' q = {}" by blast
  then show ?thesis using sc_reachable.step [OF assms sc_step.expired] by blast
qed

theorem expire_all_leaves_none_witness:
  "\<exists>ctl'. lsquic_send_ctl_expire_all demo_env demo_sent = Some ctl' \<and> awaited ctl' PNS_APP = {} \<and> awaited ctl' PNS_INIT = {}"
  using expire_all_leaves_none [OF demo_sent_reachable, of demo_env] demo_sent_members(8) by blast

text \<open>
  C12. Scheduling duplicates: the pass over the unacknowledged packets ends in a state that can again be reached, keeps the number of packets in flight
  (which the code asserts), since every packet moved to the lost queue leaves the record of its duplicate in flight, and
  leaves the alarm for the next pass set.
\<close>

theorem duplicates_keep_in_flight:
  assumes "sc_reachable ctl" "\<forall>q. \<not> env_alloc_fails env q"
  shows "\<exists>ctl'. art_schedule env ctl = Some ctl' \<and> sc_reachable ctl' \<and> sc_n_in_flight_all ctl' = sc_n_in_flight_all ctl \<and> sc_al_art ctl' \<noteq> None"
proof -
  have i: "sc_inv ctl" "rounds_left ctl" "FT_STREAM AND sc_retx_frames ctl = FT_STREAM"
    using reachable_inv [OF assms(1)] by (simp_all add: reach_inv_def)
  from art_schedule_ok [OF i, of env] assms(2) obtain ctl' where
    "art_schedule env ctl = Some ctl'" "sc_n_in_flight_all ctl' = sc_n_in_flight_all ctl" "sc_al_art ctl' \<noteq> None" by blast
  then show ?thesis using sc_reachable.step [OF assms(1) sc_step.duplicated [OF assms(2)]] by blast
qed

theorem duplicates_keep_in_flight_witness:
  "\<exists>ctl'. art_schedule demo_env demo_sent = Some ctl' \<and> sc_n_in_flight_all ctl' = 1"
  using duplicates_keep_in_flight [OF demo_sent_reachable demo_ack_ok(2)] demo_sent_members(11) by auto

text \<open>
  C11. The number of duplicates per round comes to rest: as long as the rate of lost duplicates stays the same and some duplicate arrives, asking for the number
  again and again reaches, within ten steps more than the number in the table, a number the code no longer changes, for which at
  least one and fewer than two duplicates are expected to arrive.
\<close>

theorem duplicates_settle:
  assumes "sc_reachable ctl" "sc_heap ctl p = Some x" "po_retrans_times x < 20" "art_replica_loss_rate ctl < 1"
  shows "\<exists>n \<le> unat (sc_rounds_map ctl ! unat (po_retrans_times x)) + 10. \<exists>ctl' r. duplicate_numbers n ctl p = Some ctl'
    \<and> art_duplicate_number ctl' p = Some (ctl', r)
    \<and> 1 \<le> (1 - art_replica_loss_rate ctl) * of_nat (unat r) \<and> (1 - art_replica_loss_rate ctl) * of_nat (unat r) < 2"
proof -
  define k where "k = unat (po_retrans_times x)"
  define f where "f = art_adjust (art_replica_loss_rate ctl)"
  have a: "art_ok ctl" using reachable_inv [OF assms(1)] by (simp add: reach_inv_def sc_inv_def)
  then have k: "k < length (sc_rounds_map ctl)" using assms(3) by (simp add: art_ok_def k_def MAX_ROUND_BOUND_def word_less_nat_alt)
  note b = rate_bounds [OF a]
  from settles [OF b(3) [OF assms(4)] b(1), of "sc_rounds_map ctl ! k"] obtain n where
    n: "n \<le> unat (sc_rounds_map ctl ! k) + 10" "settled (art_replica_loss_rate ctl) ((f ^^ n) (sc_rounds_map ctl ! k))" unfolding f_def by blast
  define r where "r = (f ^^ n) (sc_rounds_map ctl ! k)"
  define c where "c = ctl\<lparr>sc_rounds_map := (sc_rounds_map ctl)[k := r]\<rparr>"
  have d: "duplicate_numbers n ctl p = Some c"
    using duplicate_numbers_adjust [OF assms(2) k_def [symmetric] k, of n] by (simp add: c_def r_def f_def)
  have "art_replica_loss_rate c = art_replica_loss_rate ctl" by (simp add: art_replica_loss_rate_def c_def)
  then have "art_duplicate_number c p = Some (c, r)"
    using settled_fixed [OF n(2)] k by (simp add: art_duplicate_number_def c_def assms(2) k_def [symmetric] Let_def r_def [symmetric])
  then show ?thesis using d n unfolding k_def [symmetric] settled_def r_def [symmetric] by blast
qed

theorem duplicates_settle_witness:
  "\<exists>n \<le> 11 + unat (sc_rounds_map demo_sent ! 0). \<exists>ctl' r. duplicate_numbers n demo_sent 0 = Some ctl' \<and> art_duplicate_number ctl' 0 = Some (ctl', r)"
proof -
  have "sc_feedback_window_size demo_sent = 0"
  proof -
    have "art_ok demo_sent" using reachable_inv [OF demo_sent_reachable] by (simp add: reach_inv_def sc_inv_def)
    then show ?thesis by (simp add: art_ok_def demo_sent_window)
  qed
  then have r: "art_replica_loss_rate demo_sent < 1" by (simp add: art_replica_loss_rate_def)
  have h: "sc_heap demo_sent 0 = Some (demo_stream\<lparr>po_unacked := True\<rparr>)" "po_retrans_times (demo_stream\<lparr>po_unacked := True\<rparr>) = 0"
    by (simp_all add: demo_sent_members demo_packets)
  from duplicates_settle [OF demo_sent_reachable h(1) _ r] h(2) obtain n ctl' r where
    "n \<le> unat (sc_rounds_map demo_sent ! 0) + 10" "duplicate_numbers n demo_sent 0 = Some ctl'" "art_duplicate_number ctl' 0 = Some (ctl', r)" by auto
  then show ?thesis by (intro exI [of _ n]) auto
qed

text \<open>
  C15. Rescheduling lost packets ends in a state that can again be reached, provided that leaving out the frames of reset streams leaves something to send in
  every lost packet and that the packets fit the path: the number it reports is exactly the number of packets that left the lost queue.
\<close>

theorem reschedule_exact:
  assumes "sc_reachable ctl" "elides (env_elide env)" "lost_resendable env ctl"
  shows "\<exists>ctl' n. lsquic_send_ctl_reschedule_packets env ctl = Some (ctl', n) \<and> sc_reachable ctl'
    \<and> n + length (sc_lost_packets ctl') = length (sc_lost_packets ctl)"
proof -
  have i: "sc_inv ctl" "rounds_left ctl" using reachable_inv [OF assms(1)] by (simp_all add: reach_inv_def)
  from reschedule_packets_ok [OF i assms(2,3)] obtain ctl' n where
    "lsquic_send_ctl_reschedule_packets env ctl = Some (ctl', n)" "n + length (sc_lost_packets ctl') = length (sc_lost_packets ctl)" by blast
  then show ?thesis using sc_reachable.step [OF assms(1) sc_step.rescheduled [OF assms(2,3)]] by blast
qed

theorem reschedule_exact_witness:
  "\<exists>ctl' n. lsquic_send_ctl_reschedule_packets demo_env demo_lost = Some (ctl', n) \<and> n + length (sc_lost_packets ctl') = 1"
proof -
  have e: "env_elide demo_env = (\<lambda>x. x)" "env_pack_size demo_env = 1200" by (simp_all add: demo_env_def)
  have "elides (env_elide demo_env)" unfolding elides_def e
    by (intro allI, rename_tac x, rule_tac x = "po_frame_types x" in exI, rule_tac x = "po_total_sz x" in exI, rule_tac x = "po_data_sz x" in exI) simp
  moreover have "(env_elide demo_env ^^ n) x = x" for n x by (induction n) (simp_all add: e)
  then have "lost_resendable demo_env demo_lost"
    unfolding lost_resendable_def resendable_def sendable_def using demo_lost_members(2) by (simp add: e)
  ultimately show ?thesis using reschedule_exact [OF demo_lost_reachable] demo_lost_members(1) by fastforce
qed

end
