(* ===== verification/Spec2Isabelle.thy ===== *)
theory Spec2Isabelle
  imports Varint Packno Frame_Handlers Rechist_Props Ver_Neg Send_Props
begin

text \<open>
  A verification development for the QUIC library with adaptive retransmission (ART) in
  \<^verbatim>\<open>src/src/liblsquic\<close>: the code between the bytes of a datagram and the frames of a connection, the record of
  received packets, and the send controller that tracks, retransmits and duplicates sent packets.

  \<^bold>\<open>How the parts interact.\<close>  A received packet has its header parsed (\<open>Packet_In\<close>), its header protection removed and its
  packet number recovered (\<open>Packno\<close>), the number recorded (\<open>Rechist\<close>), and its frames dispatched to handlers
  (\<open>Packet_Frames\<close>, \<open>Frame_Handlers\<close>) that read them with the frame parsers (\<open>Frames\<close>, \<open>Stream_Frames\<close>) and the
  integers in them with \<open>Varint\<close>; an acknowledgement reaches the send controller (\<open>Send_Ctl\<close>), which measures the round-trip time (\<open>Rtt\<close>),
  decides which packets are lost and when to retransmit or duplicate.  Sent packets get their headers from
  \<open>Packet_Out\<close>.  Until the peers agree on a version, packets go through \<open>Ver_Neg\<close>.

  \<^bold>\<open>Conventions.\<close>  Machine integers are words of their width; buffers are lists of bytes and pointers into them offsets; a function
  that writes to a buffer returns the bytes written.  A return value that means failure is \<^const>\<open>None\<close>, \<^const>\<open>Inl\<close> or a constructor.
  A loop that might not end is a \<^verbatim>\<open>partial_function\<close> with option result, for which \<^const>\<open>None\<close> also stands for an invalid
  pointer, and the theorems state that the result is \<^const>\<open>Some\<close>; no fuel is used.  Functions reached through
  pointers that are not modelled are arguments.

  \<^bold>\<open>Theories, the code they model, and what is shown.\<close>
  \<^item> \<open>Quic_Prelude\<close>: the machine types, big-endian images of integers, shared lemmas on words and lists, the collections of simplification rules.
  \<^item> \<open>Varint\<close> (\<^verbatim>\<open>lsquic_varint.c\<close>, \<^verbatim>\<open>lsquic_varint.h\<close>): writing and reading variable-length integers.  What is written is read back; the
    resumable readers, fed with any pieces, agree with the one-shot reader.
  \<^item> \<open>Packno\<close> (\<^verbatim>\<open>lsquic_parse_ietf_v1.c\<close>, \<^verbatim>\<open>lsquic_enc_sess_ietf.c\<close>, \<^verbatim>\<open>lsquic_packet_gquic.c\<close>): truncation and recovery of packet
    numbers, header protection (\<^verbatim>\<open>apply_hp\<close>, \<^verbatim>\<open>strip_hp\<close>; the mask is an argument).  The receiver recovers header and packet number.
  \<^item> \<open>Frames\<close>, \<open>Frame_Codecs\<close> (\<^verbatim>\<open>lsquic_parse_ietf_v1.c\<close>): generator, parser and size function of each control frame; the
    locale \<open>frame_codec\<close> is the contract between them, interpreted once per frame.
  \<^item> \<open>Stream_Frames\<close> (same file): STREAM, CRYPTO and DATAGRAM frames and the functions that shrink and finish them in place, with round trips.
  \<^item> \<open>Packet_Frames\<close> (\<^verbatim>\<open>lsquic_parse_common.c\<close>, \<^verbatim>\<open>lsquic_full_conn_ietf.c\<close>): all control frames as one datatype, the table of frames legal
    at each level, the handler table, \<^verbatim>\<open>process_packet_frame\<close> and the loop of \<^verbatim>\<open>parse_regular_packet\<close>.  Round trip of every frame; no call through a null entry; the locale
    \<open>frame_handlers\<close> says what the loop relies on.
  \<^item> \<open>Frame_Handlers\<close> (\<^verbatim>\<open>lsquic_full_conn_ietf.c\<close>): the handlers \<^verbatim>\<open>process_*_frame\<close> over the fields of the connection they use; the interpretation of
    \<open>frame_handlers\<close>.  A packet of generated frames is reacted to frame by frame up to the first that is refused; illegal frames reach no handler; the
    limits granted by the peer never go down.
  \<^item> \<open>Pn_Ranges\<close>, \<open>Rechist\<close>, \<open>Rechist_Slots\<close>, \<open>Rechist_List\<close>, \<open>Rechist_Refine\<close>, \<open>Rechist_Props\<close> (\<^verbatim>\<open>lsquic_rechist.c\<close>): the history of received
    packets as linked slots with allocation masks.  Each operation refines the operation on a descending list of ranges, and that the one on a set of packet
    numbers, up to the limit on the number of ranges, at which the code forgets packets.
  \<^item> \<open>Packet_In\<close>, \<open>Packet_Safety\<close> (\<^verbatim>\<open>lsquic_parse_common.c\<close> and the parsers it dispatches to): header parsers, look-up of connection IDs, validity check of handshake packets.  Reads outside a
    packet are a value of the model; a server never makes one.  Three theorems without number in \<open>Packet_Safety\<close> exhibit packets on which
    the client or the look-ups go wrong.
  \<^item> \<open>Packet_Out\<close>, \<open>Packet_Sent\<close> (\<^verbatim>\<open>lsquic_parse_ietf_v1.c\<close>, \<^verbatim>\<open>lsquic_version.c\<close>): header generation; what is generated and protected is parsed and recovered.
  \<^item> \<open>Ver_Neg\<close> (\<^verbatim>\<open>lsquic_full_conn_ietf.c\<close>): version negotiation at the client, its result and its invariant.
  \<^item> \<open>Rtt\<close> (\<^verbatim>\<open>lsquic_rtt.c\<close>, \<^verbatim>\<open>lsquic_senhist.h\<close>): the smoothed round-trip time and its bounds.
  \<^item> \<open>Send_Ctl\<close> (\<^verbatim>\<open>lsquic_send_ctl.c\<close>, \<^verbatim>\<open>lsquic_art_feedback.c\<close>, \<^verbatim>\<open>lsquic_packet_out.c\<close>): the send controller.  Packets live in a heap, a
    map from identifiers that are never reused, so that a dangling pointer is a look-up that fails; queues are lists of identifiers; the chain of a
    packet and its loss records is the cyclic list through \<open>po_loss_chain\<close>.
  \<^item> \<open>Send_Heap\<close>, \<open>Send_View\<close>, \<open>Send_Chain\<close>: sums over the heap, the agreement of queues and counters with the heap (\<open>sc_view\<close>), chains as cycles.
  \<^item> \<open>Send_Loss\<close>, \<open>Send_Acks\<close>, \<open>Send_Timeouts\<close>, \<open>Send_Steps\<close>, \<open>Send_Resend\<close>: the invariant \<open>sc_inv\<close> and the alarms through
    losses, acknowledgements, timeouts, sending, duplication and rescheduling; each operation returns.
  \<^item> \<open>Send_Reach\<close>: creating and writing packets, the operations as steps of a transition system, and its reachable states.
  \<^item> \<open>Art_Rate\<close>: the adjustment of the number of duplicates and where it comes to rest.
  \<^item> \<open>Send_Props\<close>: the properties of the reachable states, and a small connection at which they are evaluated.

  \<^bold>\<open>What the reachable states assume.\<close>  The steps of \<open>Send_Reach\<close> are the calls the connection makes, under the conditions it
  makes them: packets are sent in the order of their numbers and only if they are in no queue; the ranges of an acknowledgement are
  those the parser delivers; the total size of a packet stays below \<open>2 ^ 16\<close>.  Three conditions are limits of the code rather than of its
  callers: a packet is in fewer than 19 rounds of retransmission (beyond 20 the code leaves the array of rounds), allocation does not fail where the code
  does not check it, and a lost packet has data left to send after frames of reset streams are dropped (otherwise the code uses a packet it has freed).

  \<^bold>\<open>Not modelled.\<close>  ACK frames on the wire, congestion control and pacing, buffered packets, batching and squeezing in the send controller,
  the stream layer, the gQUIC frames, cryptography, HTTP, the engine, containers and logging.  They appear as arguments where modelled code calls them.
\<close>

end
